(* ===== verification/Xiao_Slice.thy ===== *)
theory Xiao_Slice
  imports Xiao_Prelude
begin

text \<open>
  \<^verbatim>\<open>include/xiaodb/slice.h\<close> and \<^verbatim>\<open>util/slice.cc\<close>: comparison of slices, hexadecimal printing and
  parsing, and the built-in prefix extractors. A slice is the list of its bytes; a character of
  a printed string is its byte.
\<close>

section \<open>Comparison\<close>

text \<open>
  \<^verbatim>\<open>memcmp\<close> on the first \<open>n\<close> bytes; the library fixes only the sign of its result, which is taken to
  be \<open>-1\<close>, \<open>0\<close> or \<open>1\<close> here, as the other branches of \<^verbatim>\<open>Slice::compare\<close> return it, and the
  callers look only at the sign.
\<close>

fun memcmp :: "bytes \<Rightarrow> bytes \<Rightarrow> nat \<Rightarrow> int" where
  "memcmp (a # as) (b # bs) (Suc n) =
     (if a < b then - 1 else if b < a then 1 else memcmp as bs n)"
| "memcmp _ _ _ = 0"

definition Slice_eq :: "bytes \<Rightarrow> bytes \<Rightarrow> bool" where
  "Slice_eq x y \<longleftrightarrow> length x = length y \<and> memcmp x y (length x) = 0"

definition Slice_compare :: "bytes \<Rightarrow> bytes \<Rightarrow> int" where
  "Slice_compare a b =
     (let min_len = (if length a < length b then length a else length b);
          r = memcmp a b min_len
      in if r = 0 then
           if length a < length b then - 1 else if length b < length a then 1 else r
         else r)"

definition starts_with :: "bytes \<Rightarrow> bytes \<Rightarrow> bool" where
  "starts_with s x \<longleftrightarrow> length x \<le> length s \<and> memcmp s x (length x) = 0"

definition ends_with :: "bytes \<Rightarrow> bytes \<Rightarrow> bool" where
  "ends_with s x \<longleftrightarrow>
     length x \<le> length s \<and> memcmp (drop (length s - length x) s) x (length x) = 0"

fun difference_offset :: "bytes \<Rightarrow> bytes \<Rightarrow> nat" where
  "difference_offset (a # as) (b # bs) = (if a \<noteq> b then 0 else Suc (difference_offset as bs))"
| "difference_offset _ _ = 0"

definition Slice_of_parts :: "bytes list \<Rightarrow> bytes \<Rightarrow> bytes" where
  "Slice_of_parts parts buf = foldl (\<lambda>buf part. buf @ part) buf parts"

section \<open>Hexadecimal strings\<close>

definition toHex :: "byte \<Rightarrow> byte" where
  "toHex v = (if v \<le> 9 then 0x30 + v else 0x41 + v - 10)"

definition fromHex :: "byte \<Rightarrow> int" where
  "fromHex c =
     (let c = (if 0x61 \<le> c \<and> c \<le> 0x66 then c - 0x20 else c)
      in if c < 0x30 \<or> 0x39 < c \<and> (c < 0x41 \<or> 0x46 < c) then - 1
         else if c \<le> 0x39 then uint c - 0x30
         else uint c - 0x41 + 10)"

fun ToString_hex :: "bytes \<Rightarrow> bytes" where
  "ToString_hex [] = []"
| "ToString_hex (c # cs) = toHex (drop_bit 4 c) # toHex (c AND 0xf) # ToString_hex cs"

definition Slice_ToString :: "bytes \<Rightarrow> bool \<Rightarrow> bytes" where
  "Slice_ToString s hex = (if hex then ToString_hex s else s)"

text \<open>The loop body runs on pairs of digits; the caller has checked that the length is even.\<close>

fun DecodeHex_loop :: "bytes \<Rightarrow> bytes \<Rightarrow> bool \<times> bytes" where
  "DecodeHex_loop result (c1 # c2 # cs) =
     (let h1 = fromHex c1
      in if h1 < 0 then (False, result)
         else let h2 = fromHex c2
              in if h2 < 0 then (False, result)
                 else DecodeHex_loop (result @ [word_of_int (push_bit 4 h1 OR h2)]) cs)"
| "DecodeHex_loop result _ = (True, result)"

definition DecodeHex :: "bytes \<Rightarrow> bytes \<Rightarrow> bool \<times> bytes" where
  "DecodeHex s result =
     (if length s mod 2 \<noteq> 0 then (False, result) else DecodeHex_loop [] s)"

text \<open>The upper-case form of a hexadecimal digit, for the statement of the round trip.\<close>

definition upper_hex :: "byte \<Rightarrow> byte" where
  "upper_hex c = (if 0x61 \<le> c \<and> c \<le> 0x66 then c - 0x20 else c)"

section \<open>Prefix extractors\<close>

record SliceTransform =
  Transform :: "bytes \<Rightarrow> bytes"
  InDomain :: "bytes \<Rightarrow> bool"
  InRange :: "bytes \<Rightarrow> bool"
  FullLengthEnabled :: "nat option"
  SameResultWhenAppended :: "bytes \<Rightarrow> bool"

definition FixedPrefixTransform :: "nat \<Rightarrow> SliceTransform" where
  "FixedPrefixTransform prefix_len =
     \<lparr>Transform = (\<lambda>src. take prefix_len src),
      InDomain = (\<lambda>src. prefix_len \<le> length src),
      InRange = (\<lambda>dst. length dst = prefix_len),
      FullLengthEnabled = Some prefix_len,
      SameResultWhenAppended = (\<lambda>prefix. prefix_len \<le> length prefix)\<rparr>"

definition CappedPrefixTransform :: "nat \<Rightarrow> SliceTransform" where
  "CappedPrefixTransform cap_len =
     \<lparr>Transform = (\<lambda>src. take (min cap_len (length src)) src),
      InDomain = (\<lambda>src. True),
      InRange = (\<lambda>dst. length dst \<le> cap_len),
      FullLengthEnabled = Some cap_len,
      SameResultWhenAppended = (\<lambda>prefix. cap_len \<le> length prefix)\<rparr>"

definition NoopTransform :: SliceTransform where
  "NoopTransform =
     \<lparr>Transform = (\<lambda>src. src), InDomain = (\<lambda>src. True), InRange = (\<lambda>dst. True),
      FullLengthEnabled = None, SameResultWhenAppended = (\<lambda>prefix. False)\<rparr>"

section \<open>The order on slices\<close>

lemma Slice_compare_simps [simp]:
  "Slice_compare [] [] = 0"
  "Slice_compare [] (b # bs) = - 1"
  "Slice_compare (a # as) [] = 1"
  "Slice_compare (a # as) (b # bs) =
     (if a < b then - 1 else if b < a then 1 else Slice_compare as bs)"
  by (simp_all add: Slice_compare_def Let_def)

lemma Slice_compare_eq_0: "Slice_compare a b = 0 \<longleftrightarrow> a = b"
proof (induction a arbitrary: b)
  case Nil
  show ?case by (cases b) auto
next
  case (Cons x a)
  then show ?case by (cases b) (auto simp: neq_iff)
qed

lemma Slice_compare_swap: "Slice_compare b a = - Slice_compare a b"
proof (induction a arbitrary: b)
  case Nil
  show ?case by (cases b) auto
next
  case (Cons x a)
  then show ?case by (cases b) auto
qed

lemma Slice_compare_trans: "Slice_compare a b \<le> 0 \<Longrightarrow> Slice_compare b c \<le> 0 \<Longrightarrow> Slice_compare a c \<le> 0"
proof (induction a arbitrary: b c)
  case Nil
  show ?case by (cases c) auto
next
  case (Cons x a)
  from Cons.prems obtain y b' z c' where bc: "b = y # b'" "c = z # c'"
    by (cases b; cases c) auto
  with Cons.prems show ?case using Cons.IH [of b' c']
    by (auto split: if_splits)
qed

text \<open>What a comparator promises: the sign of its result is a total preorder.\<close>

locale key_comparator =
  fixes cmp :: "bytes \<Rightarrow> bytes \<Rightarrow> int"
  assumes cmp_refl: "cmp a a = 0"
    and cmp_flip: "cmp a b < 0 \<longleftrightarrow> 0 < cmp b a"
    and cmp_trans: "cmp a b \<le> 0 \<Longrightarrow> cmp b c \<le> 0 \<Longrightarrow> cmp a c \<le> 0"
begin

lemma cmp_zero_sym: "cmp a b = 0 \<Longrightarrow> cmp b a = 0"
  using cmp_flip [of a b] cmp_flip [of b a] by linarith

lemma cmp_zero_trans: "cmp a b = 0 \<Longrightarrow> cmp b c = 0 \<Longrightarrow> cmp a c = 0"
  using cmp_trans [of a b c] cmp_trans [of c b a] cmp_zero_sym [of a b] cmp_zero_sym [of b c]
    cmp_flip [of a c] by simp

lemma cmp_less_trans: "cmp a b < 0 \<Longrightarrow> cmp b c \<le> 0 \<Longrightarrow> cmp a c < 0"
  using cmp_trans [of a b c] cmp_trans [of b c a] cmp_flip [of a b] cmp_flip [of a c]
    cmp_zero_sym [of a c] by linarith

lemma cmp_le_less_trans: "cmp a b \<le> 0 \<Longrightarrow> cmp b c < 0 \<Longrightarrow> cmp a c < 0"
  using cmp_trans [of a b c] cmp_trans [of c a b] cmp_flip [of b c] cmp_flip [of a c]
    cmp_zero_sym [of a c] by linarith

end

interpretation bytewise: key_comparator Slice_compare
proof
  show "Slice_compare a a = 0" for a by (simp add: Slice_compare_eq_0)
  show "Slice_compare a b < 0 \<longleftrightarrow> 0 < Slice_compare b a" for a b
    using Slice_compare_swap [of a b] by simp
qed (rule Slice_compare_trans)

section \<open>Prefix extractors\<close>

text \<open>
  The properties that \<^verbatim>\<open>options.h\<close> asks of a prefix extractor together with the comparator, for
  keys in its domain.
\<close>

lemma memcmp_0_iff:
  "n \<le> length a \<Longrightarrow> n \<le> length b \<Longrightarrow> memcmp a b n = 0 \<longleftrightarrow> take n a = take n b"
proof (induction a b n rule: memcmp.induct)
  case (1 a as b bs n)
  then show ?case by (auto simp: neq_iff)
qed auto

lemma starts_with_iff: "starts_with s x \<longleftrightarrow> take (length x) s = x"
proof
  assume "take (length x) s = x"
  moreover from this have "length x \<le> length s"
    by (metis length_take min.cobounded1)
  ultimately show "starts_with s x" by (simp add: starts_with_def memcmp_0_iff)
qed (auto simp: starts_with_def memcmp_0_iff)

lemma Slice_compare_take: "Slice_compare a b \<le> 0 \<Longrightarrow> Slice_compare (take n a) (take n b) \<le> 0"
proof (induction n arbitrary: a b)
  case (Suc n)
  then show ?case by (cases a; cases b) (auto split: if_splits)
qed simp

lemma Slice_compare_prefix: "Slice_compare (take n a) a \<le> 0"
proof (induction n arbitrary: a)
  case 0
  show ?case by (cases a) auto
next
  case (Suc n)
  then show ?case by (cases a) auto
qed

lemma take_between:
  assumes "Slice_compare k1 k2 \<le> 0" "Slice_compare k2 k3 \<le> 0" "take n k1 = take n k3"
  shows "take n k2 = take n k1"
proof -
  have "Slice_compare (take n k1) (take n k2) \<le> 0" "Slice_compare (take n k2) (take n k1) \<le> 0"
    using Slice_compare_take [OF assms(1), of n] Slice_compare_take [OF assms(2), of n] assms(3)
    by simp_all
  then have "Slice_compare (take n k1) (take n k2) = 0"
    using Slice_compare_swap [of "take n k1" "take n k2"] by simp
  then show ?thesis by (simp add: Slice_compare_eq_0)
qed

lemma take_min_length: "take (min n (length k)) k = take n k"
  by (simp add: min_def)

lemmas take_min_lengths = take_min_length take_min_length [unfolded min.commute [of _ "length _"]]

locale prefix_extractor = key_comparator cmp for cmp +
  fixes T :: SliceTransform
  assumes prefix_is_prefix: "InDomain T k \<Longrightarrow> starts_with k (Transform T k)"
    and contiguous: "\<lbrakk>cmp k1 k2 \<le> 0; cmp k2 k3 \<le> 0; InDomain T k1; InDomain T k3;
        Transform T k1 = Transform T k3\<rbrakk> \<Longrightarrow> InDomain T k2 \<and> Transform T k2 = Transform T k1"
    and prefix_mono: "\<lbrakk>InDomain T k1; InDomain T k2; cmp k1 k2 \<le> 0\<rbrakk> \<Longrightarrow>
        cmp (Transform T k1) (Transform T k2) \<le> 0"
    and starts_group: "InDomain T k \<Longrightarrow> cmp (Transform T k) k \<le> 0"
    and idempotent: "InDomain T k \<Longrightarrow>
        InDomain T (Transform T k) \<and> Transform T (Transform T k) = Transform T k"
    and appended: "SameResultWhenAppended T p \<Longrightarrow> Transform T (p @ x) = Transform T p"
    and full_length: "FullLengthEnabled T = Some n \<Longrightarrow> InDomain T k \<Longrightarrow> length (Transform T k) \<le> n"
begin

text \<open>
  The use the prefix filter makes of the contract: when the bounds of a range have the same
  prefix, every key of the range is in the domain with that prefix, so a filter that has seen
  no key with the prefix rules the range out.
\<close>

lemma range_ruled_out:
  assumes "InDomain T lo" "InDomain T hi" "Transform T lo = Transform T hi"
    and "\<forall>k \<in> K. InDomain T k \<longrightarrow> Transform T k \<noteq> Transform T lo"
  shows "{k \<in> K. cmp lo k \<le> 0 \<and> cmp k hi \<le> 0} = {}"
  using assms contiguous by blast

end

lemma fixed_prefix_extractor: "prefix_extractor Slice_compare (FixedPrefixTransform n)"
proof
  fix k1 k2 k3
  assume le: "Slice_compare k1 k2 \<le> 0" "Slice_compare k2 k3 \<le> 0"
    and dom: "InDomain (FixedPrefixTransform n) k1"
    and eq: "Transform (FixedPrefixTransform n) k1 = Transform (FixedPrefixTransform n) k3"
  have "take n k2 = take n k1"
    by (rule take_between [OF le]) (use eq in \<open>simp add: FixedPrefixTransform_def\<close>)
  moreover from this dom have "n \<le> length k2"
    by (simp add: FixedPrefixTransform_def) (metis length_take min.absorb2 min.cobounded1)
  ultimately show "InDomain (FixedPrefixTransform n) k2 \<and>
      Transform (FixedPrefixTransform n) k2 = Transform (FixedPrefixTransform n) k1"
    by (simp add: FixedPrefixTransform_def)
qed (auto simp: FixedPrefixTransform_def starts_with_iff Slice_compare_take Slice_compare_prefix)

lemma capped_prefix_extractor: "prefix_extractor Slice_compare (CappedPrefixTransform n)"
proof
  fix k1 k2 k3
  assume "Slice_compare k1 k2 \<le> 0" "Slice_compare k2 k3 \<le> 0"
    and "Transform (CappedPrefixTransform n) k1 = Transform (CappedPrefixTransform n) k3"
  then show "InDomain (CappedPrefixTransform n) k2 \<and>
      Transform (CappedPrefixTransform n) k2 = Transform (CappedPrefixTransform n) k1"
    by (simp add: CappedPrefixTransform_def take_min_length take_between)
qed (auto simp: CappedPrefixTransform_def take_min_lengths starts_with_iff Slice_compare_take
    Slice_compare_prefix)

interpretation fixed: prefix_extractor Slice_compare "FixedPrefixTransform n" for n
  by (rule fixed_prefix_extractor)

interpretation capped: prefix_extractor Slice_compare "CappedPrefixTransform n" for n
  by (rule capped_prefix_extractor)

interpretation noop: prefix_extractor Slice_compare NoopTransform
proof
  fix k1 k2 k3
  assume le: "Slice_compare k1 k2 \<le> 0" "Slice_compare k2 k3 \<le> 0"
    and eq: "Transform NoopTransform k1 = Transform NoopTransform k3"
  then have "Slice_compare k1 k2 = 0"
    using Slice_compare_swap [of k1 k2] by (simp add: NoopTransform_def)
  then show "InDomain NoopTransform k2 \<and> Transform NoopTransform k2 = Transform NoopTransform k1"
    by (simp add: NoopTransform_def Slice_compare_eq_0)
qed (auto simp: NoopTransform_def starts_with_iff bytewise.cmp_refl)

section \<open>Hexadecimal strings\<close>

lemmas uint_byte_simps = word_le_def word_less_def uint_word_ariths word_uint_eq_iff
  uint_word_of_int

lemma fromHex_toHex: "v < 16 \<Longrightarrow> fromHex (toHex v) = uint v"
  by (auto simp: fromHex_def toHex_def Let_def uint_byte_simps)

lemma fromHex_range: "fromHex c < 16"
proof -
  have "c \<le> 0x39 \<Longrightarrow> uint c \<le> 0x39" "c \<le> 0x46 \<Longrightarrow> uint c \<le> 0x46" for c :: byte
    by (simp_all add: word_le_def)
  then show ?thesis by (force simp: fromHex_def Let_def not_less)
qed

lemma toHex_fromHex: "0 \<le> fromHex c \<Longrightarrow> toHex (word_of_int (fromHex c)) = upper_hex c"
  using uint_lt2p [of c]
  by (auto simp: fromHex_def toHex_def Let_def uint_byte_simps upper_hex_def split: if_splits)

lemma and_15_take_bit: "(x :: byte) AND 0xf = take_bit 4 x"
  by (simp add: take_bit_eq_mask mask_eq_exp_minus_1)

lemma byte_nibbles: "word_of_int (push_bit 4 (uint (drop_bit 4 c)) OR uint (c AND 0xf)) = (c :: byte)"
proof (rule bit_word_eqI)
  fix n
  assume "n < LENGTH(8)"
  then show "bit (word_of_int (push_bit 4 (uint (drop_bit 4 c)) OR uint (c AND 0xf)) :: byte) n = bit c n"
    by (cases "n < 4") (auto simp: and_15_take_bit bit_simps)
qed

lemma nibbles_of_byte:
  assumes "0 \<le> h1" "h1 < 16" "0 \<le> h2" "h2 < 16"
  shows "drop_bit 4 (word_of_int (push_bit 4 h1 OR h2) :: byte) = word_of_int h1"
    and "(word_of_int (push_bit 4 h1 OR h2) :: byte) AND 0xf = word_of_int h2"
proof -
  have "take_bit 4 h1 = h1" "take_bit 4 h2 = h2"
    using assms by (simp_all add: take_bit_int_eq_self)
  then have lt: "bit h1 n \<Longrightarrow> n < 4" "bit h2 n \<Longrightarrow> n < 4" for n
    by (metis bit_take_bit_iff)+
  show "drop_bit 4 (word_of_int (push_bit 4 h1 OR h2) :: byte) = word_of_int h1"
    by (rule bit_word_eqI) (use lt in \<open>force simp: bit_simps\<close>)
  show "(word_of_int (push_bit 4 h1 OR h2) :: byte) AND 0xf = word_of_int h2"
    by (rule bit_word_eqI) (use lt in \<open>force simp: and_15_take_bit bit_simps\<close>)
qed

lemma nibble_less: "drop_bit 4 c < (16 :: byte)" "c AND 0xf < (16 :: byte)"
proof -
  show "drop_bit 4 c < (16 :: byte)"
    using unsigned_less [of c, where ?'a = nat] by (simp add: word_less_nat_alt unat_drop_bit_eq drop_bit_nat_def)
  show "c AND 0xf < (16 :: byte)"
    by (simp add: and_15_take_bit word_less_nat_alt unsigned_take_bit_eq take_bit_nat_def)
qed

lemma DecodeHex_loop_ToString: "DecodeHex_loop r (ToString_hex s) = (True, r @ s)"
  by (induction s arbitrary: r) (simp_all add: fromHex_toHex nibble_less byte_nibbles)

lemma ToString_DecodeHex_loop:
  "even (length s) \<Longrightarrow> DecodeHex_loop r s = (True, r') \<Longrightarrow>
   \<exists>t. r' = r @ t \<and> ToString_hex t = map upper_hex s"
proof (induction r s rule: DecodeHex_loop.induct)
  case (1 r c1 c2 cs)
  let ?b = "word_of_int (push_bit 4 (fromHex c1) OR fromHex c2) :: byte"
  from 1(3) have nn: "0 \<le> fromHex c1" "0 \<le> fromHex c2"
    and loop: "DecodeHex_loop (r @ [?b]) cs = (True, r')"
    by (auto simp: Let_def split: if_splits)
  with 1 obtain t where "r' = r @ ?b # t" "ToString_hex t = map upper_hex cs"
    by (fastforce simp: not_less)
  moreover have "toHex (drop_bit 4 ?b) = upper_hex c1" "toHex (?b AND 0xf) = upper_hex c2"
    using nn nibbles_of_byte [of "fromHex c1" "fromHex c2"]
    by (simp_all add: fromHex_range toHex_fromHex)
  ultimately show ?case by (intro exI [of _ "?b # t"]) simp
qed auto

lemma Slice_eq_iff: "Slice_eq a b \<longleftrightarrow> a = b"
  by (auto simp: Slice_eq_def memcmp_0_iff)

lemma Slice_compare_offset:
  "take (difference_offset a b) a = take (difference_offset a b) b \<and>
   (Slice_compare a b < 0 \<longleftrightarrow> difference_offset a b < length b \<and>
      (difference_offset a b < length a \<longrightarrow> a ! difference_offset a b < b ! difference_offset a b))"
proof (induction a arbitrary: b)
  case Nil
  show ?case by (cases b) auto
next
  case (Cons x a)
  show ?case
  proof (cases b)
    case (Cons y b')
    then show ?thesis using Cons.IH [of b'] by (cases "x = y") auto
  qed simp
qed

lemma builtin_prefix_extractor:
  assumes "T = FixedPrefixTransform n \<or> T = CappedPrefixTransform n \<or> T = NoopTransform"
  shows "prefix_extractor Slice_compare T"
  using assms fixed_prefix_extractor capped_prefix_extractor noop.prefix_extractor_axioms by blast

section \<open>Properties\<close>

text \<open>
  C31. \<^verbatim>\<open>Slice::compare\<close> is a three-way comparison of a total order: it is zero exactly on equal
  slices, which is also when \<^verbatim>\<open>operator==\<close> says so, exchanging the arguments negates it, it is
  transitive, and its sign is decided by the bytes at \<^verbatim>\<open>difference_offset\<close>.
\<close>

theorem Slice_compare_total_order:
  "(Slice_compare a b = 0 \<longleftrightarrow> a = b) \<and> (Slice_eq a b \<longleftrightarrow> a = b)
   \<and> Slice_compare b a = - Slice_compare a b
   \<and> (Slice_compare a b \<le> 0 \<and> Slice_compare b c \<le> 0 \<longrightarrow> Slice_compare a c \<le> 0)
   \<and> (let k = difference_offset a b
      in take k a = take k b \<and>
         (Slice_compare a b < 0 \<longleftrightarrow> k < length b \<and> (k < length a \<longrightarrow> a ! k < b ! k)))"
  using Slice_compare_eq_0 [of a b] Slice_eq_iff [of a b] Slice_compare_swap [of b a]
    Slice_compare_trans [of a b c] Slice_compare_offset [of a b]
  unfolding Let_def by blast

theorem Slice_compare_total_order_witness:
  "Slice_compare [1, 2] [1, 3, 0] \<le> 0 \<and> Slice_compare [1, 3, 0] [2] \<le> 0 \<and>
   Slice_compare [1, 2] [2] \<le> 0"
  using Slice_compare_total_order [of "[1, 2]" "[1, 3, 0]" "[2]"] by simp

text \<open>
  C32. Hexadecimal strings round-trip: decoding what \<^verbatim>\<open>ToString(true)\<close> prints gives the slice back,
  and a string that decodes successfully is, up to the case of its digits, the printed form of
  the result. Whatever the result string held before is discarded.
\<close>

theorem hex_roundtrip:
  "DecodeHex (Slice_ToString s True) r = (True, s)
   \<and> (DecodeHex h r = (True, t) \<longrightarrow> Slice_ToString t True = map upper_hex h)"
proof
  have "even (length (ToString_hex s))" by (induction s) auto
  then show "DecodeHex (Slice_ToString s True) r = (True, s)"
    by (simp add: DecodeHex_def Slice_ToString_def DecodeHex_loop_ToString)
  show "DecodeHex h r = (True, t) \<longrightarrow> Slice_ToString t True = map upper_hex h"
    using ToString_DecodeHex_loop [of h "[]" t]
    by (auto simp: DecodeHex_def Slice_ToString_def split: if_splits)
qed

theorem hex_roundtrip_witness:
  "DecodeHex [0x34, 0x61] [] = (True, [0x4a]) \<and> Slice_ToString [0x4a] True = [0x34, 0x41]"
proof -
  have "DecodeHex [0x34, 0x61] [] = (True, [0x4a])"
    by (simp add: DecodeHex_def fromHex_def)
  then show ?thesis using hex_roundtrip [of _ "[]" "[0x34, 0x61]" "[0x4a]"]
    by (simp add: upper_hex_def)
qed

text \<open>
  C33. The built-in prefix extractors meet what \<^verbatim>\<open>options.h\<close> asks of a prefix extractor used with
  the bytewise comparator. When the ends of a key range are in the domain and have the same
  prefix, every key between them is in the domain with that prefix (so a filter without that
  prefix rules the range out); a prefix starts its key, does not come after it, and is its own
  prefix.
\<close>

theorem builtin_prefix_extractors:
  assumes "T = FixedPrefixTransform n \<or> T = CappedPrefixTransform n \<or> T = NoopTransform"
    and "InDomain T lo" and "InDomain T hi" and "Transform T lo = Transform T hi"
    and "Slice_compare lo k \<le> 0" and "Slice_compare k hi \<le> 0"
  shows "InDomain T k \<and> Transform T k = Transform T lo
    \<and> starts_with k (Transform T k) \<and> Slice_compare (Transform T k) k \<le> 0
    \<and> Transform T (Transform T k) = Transform T k"
proof -
  have T: "prefix_extractor Slice_compare T" using assms(1) by (rule builtin_prefix_extractor)
  have "InDomain T k \<and> Transform T k = Transform T lo"
    using prefix_extractor.contiguous [OF T assms(5,6,2,3,4)] .
  then show ?thesis
    using prefix_extractor.prefix_is_prefix [OF T] prefix_extractor.starts_group [OF T]
      prefix_extractor.idempotent [OF T] by metis
qed

theorem builtin_prefix_extractors_witness:
  "InDomain (FixedPrefixTransform 1) [7, 5]
   \<and> Transform (FixedPrefixTransform 1) [7, 5] = Transform (FixedPrefixTransform 1) [7, 2]"
  using builtin_prefix_extractors [of "FixedPrefixTransform 1" 1 "[7, 2]" "[7, 9, 9]" "[7, 5]"]
  by (simp add: FixedPrefixTransform_def)

text \<open>
  \<^verbatim>\<open>SameResultWhenAppended\<close> keeps its promise for every built-in extractor: when it returns true for
  a prefix, every key that starts with it has the same transform, so seeking with the prefix
  filter misses none of them.
\<close>

theorem same_result_when_appended:
  assumes "T = FixedPrefixTransform n \<or> T = CappedPrefixTransform n \<or> T = NoopTransform"
    and "SameResultWhenAppended T p" and "starts_with s p"
  shows "Transform T s = Transform T p"
proof -
  have "s = p @ drop (length p) s"
    using assms(3) by (metis append_take_drop_id starts_with_iff)
  then show ?thesis
    using prefix_extractor.appended [OF builtin_prefix_extractor [OF assms(1)] assms(2)] by metis
qed

theorem same_result_when_appended_witness:
  "Transform (CappedPrefixTransform 2) [1, 2, 3] = Transform (CappedPrefixTransform 2) [1, 2]"
  using same_result_when_appended [of "CappedPrefixTransform 2" 2 "[1, 2]" "[1, 2, 3]"]
  by (simp add: CappedPrefixTransform_def starts_with_def)

end
