(* ===== verification/Coding.thy ===== *)
theory Coding
  imports Xiao_Prelude
begin

text \<open>
  \<^verbatim>\<open>util/coding_lean.h\<close>, \<^verbatim>\<open>util/coding.h\<close> and \<^verbatim>\<open>util/coding.cc\<close>: fixed-width and
  variable-length integer encodings and length-prefixed slices. A routine that writes into a
  buffer returns the bytes written; a \<^verbatim>\<open>Put\<close> routine returns the extended string; a
  \<^verbatim>\<open>Get\<close> routine returns the parsed value and the remaining input, or \<^const>\<open>None\<close> where
  the C++ routine returns false.

  \<^verbatim>\<open>GetVarint32PtrFallback\<close> and \<^verbatim>\<open>GetVarint64Ptr\<close> are declared in \<^verbatim>\<open>coding.h\<close> and
  defined nowhere in the sources. They are the fields of the record \<open>varint_ext\<close>, an argument
  of every routine that reads a varint: given the bytes from \<^verbatim>\<open>p\<close> to \<^verbatim>\<open>limit\<close> such a
  function returns the value and how far the returned pointer is past \<^verbatim>\<open>p\<close>, or \<^const>\<open>None\<close>
  for a null pointer.
\<close>

subsection \<open>Fixed-width integers (coding_lean.h)\<close>

definition kLittleEndian :: bool where
  "kLittleEndian = True"

definition EncodeFixed16 :: "u16 \<Rightarrow> bytes" where
  "EncodeFixed16 value =
     (if kLittleEndian then le_bytes 2 value
      else [ucast (value AND 0xff), ucast (drop_bit 8 value AND 0xff)])"

definition EncodeFixed32 :: "u32 \<Rightarrow> bytes" where
  "EncodeFixed32 value =
     (if kLittleEndian then le_bytes 4 value
      else [ucast (value AND 0xff), ucast (drop_bit 8 value AND 0xff),
            ucast (drop_bit 16 value AND 0xff), ucast (drop_bit 24 value AND 0xff)])"

definition EncodeFixed64 :: "u64 \<Rightarrow> bytes" where
  "EncodeFixed64 value =
     (if kLittleEndian then le_bytes 8 value
      else [ucast (value AND 0xff), ucast (drop_bit 8 value AND 0xff),
            ucast (drop_bit 16 value AND 0xff), ucast (drop_bit 24 value AND 0xff),
            ucast (drop_bit 32 value AND 0xff), ucast (drop_bit 40 value AND 0xff),
            ucast (drop_bit 48 value AND 0xff), ucast (drop_bit 56 value AND 0xff)])"

text \<open>The decoders read exactly the width of the type from the pointer.\<close>

definition DecodeFixed16 :: "bytes \<Rightarrow> u16" where
  "DecodeFixed16 p =
     (if kLittleEndian then le_value (take 2 p)
      else ucast (p ! 0) OR push_bit 8 (ucast (p ! 1)))"

definition DecodeFixed32 :: "bytes \<Rightarrow> u32" where
  "DecodeFixed32 p =
     (if kLittleEndian then le_value (take 4 p)
      else ucast (p ! 0) OR push_bit 8 (ucast (p ! 1)) OR
           push_bit 16 (ucast (p ! 2)) OR push_bit 24 (ucast (p ! 3)))"

definition DecodeFixed64 :: "bytes \<Rightarrow> u64" where
  "DecodeFixed64 p =
     (if kLittleEndian then le_value (take 8 p)
      else (let lo = ucast (DecodeFixed32 p); hi = ucast (DecodeFixed32 (drop 4 p))
            in push_bit 32 hi OR lo))"

subsection \<open>Varints (coding.cc, coding.h)\<close>

definition EncodeVarint32 :: "u32 \<Rightarrow> bytes" where
  "EncodeVarint32 v =
     (if v < 2 ^ 7 then [ucast v]
      else if v < 2 ^ 14 then [ucast (v OR 128), ucast (drop_bit 7 v)]
      else if v < 2 ^ 21 then
        [ucast (v OR 128), ucast (drop_bit 7 v OR 128), ucast (drop_bit 14 v)]
      else if v < 2 ^ 28 then
        [ucast (v OR 128), ucast (drop_bit 7 v OR 128), ucast (drop_bit 14 v OR 128),
         ucast (drop_bit 21 v)]
      else
        [ucast (v OR 128), ucast (drop_bit 7 v OR 128), ucast (drop_bit 14 v OR 128),
         ucast (drop_bit 21 v OR 128), ucast (drop_bit 28 v)])"

function EncodeVarint64 :: "u64 \<Rightarrow> bytes" where
  "EncodeVarint64 v =
     (if 128 \<le> v then ucast ((v AND 127) OR 128) # EncodeVarint64 (drop_bit 7 v)
      else [ucast v])"
  by pat_completeness auto
termination
proof (relation "measure unat")
  fix v :: u64
  assume "128 \<le> v"
  then have "128 \<le> unat v" by (simp add: word_le_nat_alt)
  then show "(drop_bit 7 v, v) \<in> measure unat"
    by (simp add: unat_drop_bit_eq drop_bit_nat_def)
qed simp

declare EncodeVarint64.simps [simp del]

function VarintLength :: "u64 \<Rightarrow> nat" where
  "VarintLength v = (if 128 \<le> v then Suc (VarintLength (drop_bit 7 v)) else 1)"
  by pat_completeness auto
termination
proof (relation "measure unat")
  fix v :: u64
  assume "128 \<le> v"
  then have "128 \<le> unat v" by (simp add: word_le_nat_alt)
  then show "(drop_bit 7 v, v) \<in> measure unat"
    by (simp add: unat_drop_bit_eq drop_bit_nat_def)
qed simp

declare VarintLength.simps [simp del]


definition i64ToZigzag :: "64 word \<Rightarrow> u64" where
  "i64ToZigzag l = push_bit 1 l XOR signed_drop_bit 63 l"

definition zigzagToI64 :: "u64 \<Rightarrow> 64 word" where
  "zigzagToI64 n = drop_bit 1 n XOR - (n AND 1)"

record varint_ext =
  GetVarint32PtrFallback :: "bytes \<Rightarrow> (u32 \<times> nat) option"
  GetVarint64Ptr :: "bytes \<Rightarrow> (u64 \<times> nat) option"

definition GetVarint32Ptr :: "varint_ext \<Rightarrow> bytes \<Rightarrow> (u32 \<times> nat) option" where
  "GetVarint32Ptr E p =
     (case p of
        [] \<Rightarrow> GetVarint32PtrFallback E p
      | b # _ \<Rightarrow>
          (let result = (ucast b :: u32)
           in if result AND 128 = 0 then Some (result, 1) else GetVarint32PtrFallback E p))"

definition GetVarsignedint64Ptr :: "varint_ext \<Rightarrow> bytes \<Rightarrow> (64 word \<times> nat) option" where
  "GetVarsignedint64Ptr E p =
     (case GetVarint64Ptr E p of None \<Rightarrow> None | Some (u, n) \<Rightarrow> Some (zigzagToI64 u, n))"

subsection \<open>Appending routines (coding.h)\<close>

definition PutFixed16 :: "bytes \<Rightarrow> u16 \<Rightarrow> bytes" where
  "PutFixed16 dst value =
     (if kLittleEndian then dst @ le_bytes 2 value else dst @ EncodeFixed16 value)"

definition PutFixed32 :: "bytes \<Rightarrow> u32 \<Rightarrow> bytes" where
  "PutFixed32 dst value =
     (if kLittleEndian then dst @ le_bytes 4 value else dst @ EncodeFixed32 value)"

definition PutFixed64 :: "bytes \<Rightarrow> u64 \<Rightarrow> bytes" where
  "PutFixed64 dst value =
     (if kLittleEndian then dst @ le_bytes 8 value else dst @ EncodeFixed64 value)"

definition PutVarint32 :: "bytes \<Rightarrow> u32 \<Rightarrow> bytes" where
  "PutVarint32 dst v = dst @ EncodeVarint32 v"

definition PutVarint32Varint32 :: "bytes \<Rightarrow> u32 \<Rightarrow> u32 \<Rightarrow> bytes" where
  "PutVarint32Varint32 dst v1 v2 = dst @ (EncodeVarint32 v1 @ EncodeVarint32 v2)"

definition PutVarint32Varint32Varint32 :: "bytes \<Rightarrow> u32 \<Rightarrow> u32 \<Rightarrow> u32 \<Rightarrow> bytes" where
  "PutVarint32Varint32Varint32 dst v1 v2 v3 =
     dst @ (EncodeVarint32 v1 @ EncodeVarint32 v2 @ EncodeVarint32 v3)"

definition PutVarint64 :: "bytes \<Rightarrow> u64 \<Rightarrow> bytes" where
  "PutVarint64 dst v = dst @ EncodeVarint64 v"

definition PutVarsignedint64 :: "bytes \<Rightarrow> 64 word \<Rightarrow> bytes" where
  "PutVarsignedint64 dst v = dst @ EncodeVarint64 (i64ToZigzag v)"

definition PutVarint64Varint64 :: "bytes \<Rightarrow> u64 \<Rightarrow> u64 \<Rightarrow> bytes" where
  "PutVarint64Varint64 dst v1 v2 = dst @ (EncodeVarint64 v1 @ EncodeVarint64 v2)"

definition PutVarint32Varint64 :: "bytes \<Rightarrow> u32 \<Rightarrow> u64 \<Rightarrow> bytes" where
  "PutVarint32Varint64 dst v1 v2 = dst @ (EncodeVarint32 v1 @ EncodeVarint64 v2)"

definition PutVarint32Varint32Varint64 :: "bytes \<Rightarrow> u32 \<Rightarrow> u32 \<Rightarrow> u64 \<Rightarrow> bytes" where
  "PutVarint32Varint32Varint64 dst v1 v2 v3 =
     dst @ (EncodeVarint32 v1 @ EncodeVarint32 v2 @ EncodeVarint64 v3)"

text \<open>The length prefix is \<^verbatim>\<open>static_cast<uint32_t>\<close> of the size: it wraps at 4 GiB.\<close>

definition PutLengthPrefixedSlice :: "bytes \<Rightarrow> bytes \<Rightarrow> bytes" where
  "PutLengthPrefixedSlice dst value = PutVarint32 dst (of_nat (length value)) @ value"

text \<open>\<^verbatim>\<open>SliceParts\<close> is the list of its slices.\<close>

definition PutLengthPrefixedSliceParts_total :: "bytes \<Rightarrow> nat \<Rightarrow> bytes list \<Rightarrow> bytes" where
  "PutLengthPrefixedSliceParts_total dst total_bytes slice_parts =
     (let total_bytes = total_bytes + sum_list (map length slice_parts);
          dst = PutVarint32 dst (of_nat total_bytes)
      in foldl (\<lambda>d part. d @ part) dst slice_parts)"

definition PutLengthPrefixedSliceParts :: "bytes \<Rightarrow> bytes list \<Rightarrow> bytes" where
  "PutLengthPrefixedSliceParts dst slice_parts =
     PutLengthPrefixedSliceParts_total dst 0 slice_parts"

definition PutLengthPrefixedSlicePartsWithPadding :: "bytes \<Rightarrow> bytes list \<Rightarrow> nat \<Rightarrow> bytes" where
  "PutLengthPrefixedSlicePartsWithPadding dst slice_parts pad_sz =
     PutLengthPrefixedSliceParts_total dst pad_sz slice_parts @ replicate pad_sz 0"

subsection \<open>Parsing routines (coding.h)\<close>

definition GetFixed64 :: "bytes \<Rightarrow> (u64 \<times> bytes) option" where
  "GetFixed64 input =
     (if length input < 8 then None else Some (DecodeFixed64 input, drop 8 input))"

definition GetFixed32 :: "bytes \<Rightarrow> (u32 \<times> bytes) option" where
  "GetFixed32 input =
     (if length input < 4 then None else Some (DecodeFixed32 input, drop 4 input))"

definition GetFixed16 :: "bytes \<Rightarrow> (u16 \<times> bytes) option" where
  "GetFixed16 input =
     (if length input < 2 then None else Some (DecodeFixed16 input, drop 2 input))"

definition GetVarint32 :: "varint_ext \<Rightarrow> bytes \<Rightarrow> (u32 \<times> bytes) option" where
  "GetVarint32 E input =
     (case GetVarint32Ptr E input of None \<Rightarrow> None | Some (v, n) \<Rightarrow> Some (v, drop n input))"

definition GetVarint64 :: "varint_ext \<Rightarrow> bytes \<Rightarrow> (u64 \<times> bytes) option" where
  "GetVarint64 E input =
     (case GetVarint64Ptr E input of None \<Rightarrow> None | Some (v, n) \<Rightarrow> Some (v, drop n input))"

definition GetVarsignedint64 :: "varint_ext \<Rightarrow> bytes \<Rightarrow> (64 word \<times> bytes) option" where
  "GetVarsignedint64 E input =
     (case GetVarsignedint64Ptr E input of None \<Rightarrow> None | Some (v, n) \<Rightarrow> Some (v, drop n input))"

definition GetLengthPrefixedSlice :: "varint_ext \<Rightarrow> bytes \<Rightarrow> (bytes \<times> bytes) option" where
  "GetLengthPrefixedSlice E input =
     (case GetVarint32 E input of
        None \<Rightarrow> None
      | Some (len, input) \<Rightarrow>
          if unat len \<le> length input
          then Some (take (unat len) input, drop (unat len) input) else None)"

text \<open>The overload on a bare pointer trusts its data and looks at five bytes for the length.\<close>

definition GetLengthPrefixedSlice_ptr :: "varint_ext \<Rightarrow> bytes \<Rightarrow> bytes option" where
  "GetLengthPrefixedSlice_ptr E data =
     (case GetVarint32Ptr E (take 5 data) of
        None \<Rightarrow> None | Some (len, n) \<Rightarrow> Some (take (unat len) (drop n data)))"

text \<open>
  \<^verbatim>\<open>GetSliceUntil\<close> counts in a \<^verbatim>\<open>uint32_t\<close>: on a slice of \<open>2 ^ 32\<close> bytes or more the count may wrap around before a
  delimiter is found, and the loop does not end.
\<close>

partial_function (option) until_delimiter :: "bytes \<Rightarrow> byte \<Rightarrow> u32 \<Rightarrow> u32 option" where
  "until_delimiter sl delimiter len =
     (if unat len < length sl \<and> sl ! unat len \<noteq> delimiter then until_delimiter sl delimiter (len + 1)
      else Some len)"

definition GetSliceUntil :: "bytes \<Rightarrow> byte \<Rightarrow> (bytes \<times> bytes) option" where
  "GetSliceUntil sl delimiter =
     map_option (\<lambda>len. (take (unat len) sl, drop (unat (len + (if unat len < length sl then 1 else 0))) sl))
       (until_delimiter sl delimiter 0)"

lemma until_delimiter_takeWhile:
  assumes "drop (unat len) sl = rest" and "unat len + length rest = length sl" and "length sl < 2 ^ 32"
  shows "until_delimiter sl delimiter len = Some (len + of_nat (length (takeWhile (\<lambda>b. b \<noteq> delimiter) rest)))"
  using assms
proof (induction rest arbitrary: len)
  case Nil
  then show ?case by (subst until_delimiter.simps) simp
next
  case (Cons b rest)
  have b: "sl ! unat len = b" and len: "unat len < length sl"
    using Cons.prems by (auto simp: nth_via_drop)
  have "unat (len + 1) = unat len + 1" using Cons.prems(3) len by (intro unat_add_lem [THEN iffD1, THEN trans]) simp_all
  moreover have "drop (unat len + 1) sl = rest" using Cons.prems(1) by (metis add.commute drop_drop drop_Suc_Cons drop_0 One_nat_def)
  ultimately show ?case using Cons.IH [of "len + 1"] Cons.prems b len
    by (subst until_delimiter.simps) simp
qed

lemma GetSliceUntil_short:
  assumes "length sl < 2 ^ 32"
  shows "GetSliceUntil sl delimiter =
    Some (takeWhile (\<lambda>b. b \<noteq> delimiter) sl, drop 1 (dropWhile (\<lambda>b. b \<noteq> delimiter) sl))"
proof -
  let ?n = "length (takeWhile (\<lambda>b. b \<noteq> delimiter) sl)"
  have n: "?n \<le> length sl" "unat (of_nat ?n :: u32) = ?n"
    using assms length_takeWhile_le [of "\<lambda>b. b \<noteq> delimiter" sl] by (simp_all add: unat_of_nat_u32)
  have "unat (of_nat ?n + 1 :: u32) = ?n + 1" if "?n < length sl"
    using that assms n(2) unat_of_nat_u32 [of "?n + 1"] by (simp add: add.commute)
  then show ?thesis
    using n until_delimiter_takeWhile [of 0 sl sl delimiter] assms
    by (auto simp: GetSliceUntil_def takeWhile_eq_take [symmetric] dropWhile_eq_drop)
qed

subsection \<open>A reference varint reader\<close>

text \<open>
  A base-128 reader of at most \<open>k\<close> bytes. It is not code of the repository: it is the concrete
  reader on which the contract of the two undefined routines is shown to be satisfiable.
\<close>

fun leb128 :: "nat \<Rightarrow> bytes \<Rightarrow> ('a::len word \<times> nat) option" where
  "leb128 0 bs = None"
| "leb128 (Suc k) [] = None"
| "leb128 (Suc k) (b # bs) =
     (if b AND 128 = 0 then Some (ucast b, 1)
      else case leb128 k bs of
        None \<Rightarrow> None
      | Some (v, n) \<Rightarrow> Some (ucast (b AND 127) OR push_bit 7 v, Suc n))"

definition leb128_ext :: varint_ext where
  "leb128_ext = \<lparr>GetVarint32PtrFallback = leb128 5, GetVarint64Ptr = leb128 10\<rparr>"

section \<open>Lemmas on words\<close>

lemma and_255_take_bit: "(x::'a::len word) AND 255 = take_bit 8 x"
  by (simp add: take_bit_eq_mask mask_eq_exp_minus_1)
lemma and_127_take_bit: "(x::'a::len word) AND 127 = take_bit 7 x"
  by (simp add: take_bit_eq_mask mask_eq_exp_minus_1)

lemma bit_128_iff: "bit (128 :: int) n \<longleftrightarrow> n = 7"
proof -
  have "(128 :: int) = 2 ^ 7" by simp
  then show ?thesis by (simp only: bit_exp_iff) auto
qed

lemma unat_exp: "unat (2 ^ n :: 'a::len word) = 2 ^ n" if "n < LENGTH('a)"
proof -
  have "unat (of_nat (2 ^ n) :: 'a word) = 2 ^ n"
    using that by (simp only: unat_of_nat, simp)
  then show ?thesis by simp
qed

lemma unat_ucast_up [simp]: "unat (ucast (v::'a::len word) :: 'b::len word) = unat v" if "LENGTH('a) \<le> LENGTH('b)"
  using that by (simp add: unsigned_ucast_eq take_bit_nat_eq_self order_less_le_trans [OF unsigned_less])

lemma less_exp_drop_bit: "(v::'a::len word) < 2 ^ n \<longleftrightarrow> drop_bit n v = 0" if "n < LENGTH('a)"
proof -
  have "v < 2 ^ n \<longleftrightarrow> unat v < 2 ^ n"
    using that by (simp add: word_less_nat_alt unat_exp)
  also have "\<dots> \<longleftrightarrow> drop_bit n v = 0"
    by (simp add: unat_drop_bit_eq drop_bit_nat_def div_eq_0_iff flip: unat_eq_0)
  finally show ?thesis .
qed

section \<open>Fixed-width integers\<close>

lemma EncodeFixed16_le: "EncodeFixed16 v = le_bytes 2 v"
  by (simp add: EncodeFixed16_def kLittleEndian_def)

lemma EncodeFixed32_le: "EncodeFixed32 v = le_bytes 4 v"
  by (simp add: EncodeFixed32_def kLittleEndian_def)

lemma EncodeFixed64_le: "EncodeFixed64 v = le_bytes 8 v"
  by (simp add: EncodeFixed64_def kLittleEndian_def)

lemma length_EncodeFixed [simp, coding_simps]:
  "length (EncodeFixed16 a) = 2" "length (EncodeFixed32 b) = 4" "length (EncodeFixed64 c) = 8"
  by (simp_all add: EncodeFixed16_le EncodeFixed32_le EncodeFixed64_le)

lemma DecodeFixed_Encode [simp, coding_simps]:
  "DecodeFixed16 (EncodeFixed16 a @ rest) = a"
  "DecodeFixed32 (EncodeFixed32 b @ rest) = b"
  "DecodeFixed64 (EncodeFixed64 c @ rest) = c"
  by (simp_all add: DecodeFixed16_def DecodeFixed32_def DecodeFixed64_def kLittleEndian_def
      EncodeFixed16_le EncodeFixed32_le EncodeFixed64_le)

lemma EncodeFixed64_Decode:
  "length p = 8 \<Longrightarrow> EncodeFixed64 (DecodeFixed64 p) = p"
  using le_bytes_le_value [of p, where 'a = 64]
  by (simp add: DecodeFixed64_def EncodeFixed64_le kLittleEndian_def)

lemma EncodeFixed32_Decode:
  "length p = 4 \<Longrightarrow> EncodeFixed32 (DecodeFixed32 p) = p"
  using le_bytes_le_value [of p, where 'a = 32]
  by (simp add: DecodeFixed32_def EncodeFixed32_le kLittleEndian_def)

section \<open>Varints\<close>

lemma EncodeVarint64_ucast:
  "EncodeVarint64 (ucast (v::u32)) =
     (if v < 2 ^ 7 then [ucast v] else ucast (v OR 128) # EncodeVarint64 (ucast (drop_bit 7 v)))"
proof -
  have 1: "(128 \<le> (ucast v :: u64)) \<longleftrightarrow> \<not> v < 2 ^ 7"
    by (simp add: word_le_nat_alt word_less_nat_alt not_less)
  have 2: "drop_bit 7 (ucast v :: u64) = ucast (drop_bit 7 v)"
    by (rule bit_word_eqI) (auto simp: bit_simps dest: bit_imp_le_length)
  have 3: "(ucast ((ucast v AND 127) OR 128 :: u64) :: byte) = ucast (v OR 128)"
    by (rule bit_word_eqI) (auto simp: and_127_take_bit bit_simps bit_128_iff)
  have 4: "(ucast (ucast v :: u64) :: byte) = ucast v"
    by (rule bit_word_eqI) (auto simp: bit_simps)
  show ?thesis by (subst EncodeVarint64.simps) (simp only: 1 2 3 4 if_not_P if_P simp_thms split: if_split, simp)
qed

lemma EncodeVarint32_eq: "EncodeVarint32 v = EncodeVarint64 (ucast v)"
proof -
  have less: "drop_bit 7 v < 2 ^ 7 \<longleftrightarrow> v < 2 ^ 14" "drop_bit 14 v < 2 ^ 7 \<longleftrightarrow> v < 2 ^ 21"
    "drop_bit 21 v < 2 ^ 7 \<longleftrightarrow> v < 2 ^ 28" "drop_bit 28 v < 2 ^ 7"
    by (simp_all add: less_exp_drop_bit del: power_numeral)
  show ?thesis
    using EncodeVarint64_ucast [of v] EncodeVarint64_ucast [of "drop_bit 7 v"]
      EncodeVarint64_ucast [of "drop_bit 14 v"] EncodeVarint64_ucast [of "drop_bit 21 v"]
      EncodeVarint64_ucast [of "drop_bit 28 v"]
    by (simp add: EncodeVarint32_def less del: power_numeral)
qed

lemma length_EncodeVarint64: "length (EncodeVarint64 v) = VarintLength v"
  by (induction v rule: EncodeVarint64.induct)
    (subst EncodeVarint64.simps, subst VarintLength.simps, simp)

lemma VarintLength_le: "unat v < 2 ^ (7 * n) \<Longrightarrow> 0 < n \<Longrightarrow> VarintLength v \<le> n"
proof (induction n arbitrary: v)
  case 0
  then show ?case by simp
next
  case (Suc n)
  show ?case
  proof (cases "128 \<le> v")
    case True
    then have big: "128 \<le> unat v" by (simp add: word_le_nat_alt)
    with Suc.prems(1) have "n \<noteq> 0" by (intro notI) simp
    moreover have "unat v < 2 ^ (7 * n) * 128"
      using Suc.prems(1) by (simp add: power_add)
    then have "unat (drop_bit 7 v) < 2 ^ (7 * n)"
      by (simp add: unat_drop_bit_eq drop_bit_nat_def less_mult_imp_div_less)
    ultimately have "VarintLength (drop_bit 7 v) \<le> n"
      using Suc.IH by simp
    then show ?thesis using True by (subst VarintLength.simps) simp
  next
    case False
    then show ?thesis by (subst VarintLength.simps) simp
  qed
qed

lemma VarintLength_bounds: "1 \<le> VarintLength v \<and> VarintLength v \<le> 10"
proof
  show "1 \<le> VarintLength v" by (subst VarintLength.simps) simp
  have "unat v < 2 ^ 64" using unsigned_less [of v] by simp
  then have "unat v < 2 ^ (7 * 10)" by simp
  then show "VarintLength v \<le> 10" by (rule VarintLength_le) simp
qed

lemma length_EncodeVarint32: "length (EncodeVarint32 v) = VarintLength (ucast v)"
  by (simp add: EncodeVarint32_eq length_EncodeVarint64)

lemma EncodeVarint32_bounds: "1 \<le> length (EncodeVarint32 v) \<and> length (EncodeVarint32 v) \<le> 5"
  by (simp add: EncodeVarint32_def)

lemma EncodeVarint_nonempty [simp]: "EncodeVarint64 v \<noteq> []" "EncodeVarint32 u \<noteq> []"
  using EncodeVarint64.simps [of v] EncodeVarint32_bounds [of u] by auto

lemma bit_signed_drop_bit_63: "bit (signed_drop_bit 63 (l :: 64 word)) n \<longleftrightarrow> n < 64 \<and> bit l 63"
proof (cases "n = 0")
  case False
  then show ?thesis
    by (auto simp: bit_signed_drop_bit_iff dest: bit_imp_le_length)
qed (simp add: bit_signed_drop_bit_iff)

lemma bit_i64ToZigzag:
  "bit (i64ToZigzag l) n \<longleftrightarrow> n < 64 \<and> ((0 < n \<and> bit l (n - 1)) \<noteq> bit l 63)"
  unfolding i64ToZigzag_def bit_xor_iff bit_push_bit_iff bit_signed_drop_bit_63
  by (cases "n = 0") (auto dest: bit_imp_le_length)

lemma neg_and_1: "- (n AND 1) = (if bit n 0 then - 1 else 0 :: 64 word)"
  by (simp add: and_one_eq mod_2_eq_odd bit_0)

lemma zigzag_roundtrip: "zigzagToI64 (i64ToZigzag l) = l"
proof (rule bit_word_eqI)
  fix k
  assume "k < LENGTH(64)"
  then show "bit (zigzagToI64 (i64ToZigzag l)) k = bit l k"
    by (cases "k = 63")
      (auto simp: zigzagToI64_def neg_and_1 bit_i64ToZigzag bit_xor_iff bit_drop_bit_eq bit_not_iff)
qed

lemma zigzag_roundtrip': "i64ToZigzag (zigzagToI64 n) = n"
proof (rule bit_word_eqI)
  fix k
  assume "k < LENGTH(64)"
  then show "bit (i64ToZigzag (zigzagToI64 n)) k = bit n k"
    by (cases "k = 0")
      (auto simp: zigzagToI64_def neg_and_1 bit_i64ToZigzag bit_xor_iff bit_drop_bit_eq bit_not_iff
      dest: bit_imp_le_length)
qed

lemma bit_128_word: "bit (128::'a::len word) n \<longleftrightarrow> n = 7 \<and> 7 < LENGTH('a)"
proof -
  have "(128 :: 'a word) = 2 ^ 7" by simp
  then show ?thesis by (simp only: bit_exp_iff) auto
qed

lemma less_exp_bit: "(v::'a::len word) < 2 ^ n \<Longrightarrow> n < LENGTH('a) \<Longrightarrow> bit v k \<Longrightarrow> k < n"
proof (rule ccontr)
  assume "v < 2 ^ n" "n < LENGTH('a)" "bit v k" "\<not> k < n"
  then have "bit (drop_bit n v) (k - n)" by (simp add: bit_drop_bit_eq)
  then show False using \<open>v < 2 ^ n\<close> \<open>n < LENGTH('a)\<close> by (simp add: less_exp_drop_bit)
qed

lemma and_128_iff: "(w::'a::len word) AND 128 = 0 \<longleftrightarrow> \<not> bit w 7"
  unfolding bit_eq_iff [of "w AND 128"] bit_and_iff bit_128_word
  by (auto dest: bit_imp_le_length)

lemma leb128_EncodeVarint64:
  "VarintLength v \<le> k \<Longrightarrow>
   leb128 k (EncodeVarint64 v @ rest) = Some (ucast v :: 'a::len word, length (EncodeVarint64 v))"
proof (induction k arbitrary: v)
  case 0
  then show ?case using VarintLength_bounds [of v] by simp
next
  case (Suc k)
  show ?case
  proof (cases "128 \<le> v")
    case True
    let ?b = "ucast ((v AND 127) OR 128) :: byte"
    have "VarintLength (drop_bit 7 v) \<le> k"
      using Suc.prems True VarintLength.simps [of v] by simp
    then have IH: "leb128 k (EncodeVarint64 (drop_bit 7 v) @ rest) =
        Some (ucast (drop_bit 7 v) :: 'a word, length (EncodeVarint64 (drop_bit 7 v)))"
      by (rule Suc.IH)
    have 1: "?b AND 128 \<noteq> 0"
      by (simp add: and_128_iff bit_simps bit_128_iff)
    have 2: "ucast (?b AND 127) OR push_bit 7 (ucast (drop_bit 7 v)) = (ucast v :: 'a word)"
    proof (rule bit_word_eqI)
      fix n
      assume "n < LENGTH('a)"
      then show "bit (ucast (?b AND 127) OR push_bit 7 (ucast (drop_bit 7 v)) :: 'a word) n =
          bit (ucast v :: 'a word) n"
        by (cases "n < 7") (auto simp: and_127_take_bit bit_simps bit_128_iff)
    qed
    show ?thesis
      using True by (subst (1 2) EncodeVarint64.simps) (simp only: if_P append_Cons leb128.simps 1 IH 2 option.case prod.case if_not_P list.size if_False, simp)
  next
    case False
    then have "v < 2 ^ 7" by simp
    then have hi: "bit v n \<Longrightarrow> n < 7" for n
      by (rule less_exp_bit) simp_all
    then have 1: "(ucast v :: byte) AND 128 = 0"
      by (auto simp: and_128_iff bit_simps)
    have 2: "ucast (ucast v :: byte) = (ucast v :: 'a word)"
      by (rule bit_word_eqI) (use hi in \<open>force simp: bit_simps\<close>)
    show ?thesis using False by (subst (1 2) EncodeVarint64.simps) (simp add: 1 2)
  qed
qed

locale codec =
  fixes enc :: "'a \<Rightarrow> bytes" and dec :: "bytes \<Rightarrow> ('a \<times> bytes) option"
  assumes dec_enc: "dec (enc v @ rest) = Some (v, rest)"
begin

lemma dec_enc_end: "dec (enc v) = Some (v, [])"
  using dec_enc [of v "[]"] by simp

lemma prefix_free: "enc v @ r = enc w @ s \<Longrightarrow> v = w \<and> r = s"
  by (metis dec_enc option.inject prod.inject)

lemma enc_inj: "enc v = enc w \<Longrightarrow> v = w"
  using prefix_free [of v "[]" w "[]"] by simp

end

locale varint_decoder =
  fixes E :: varint_ext
  assumes fallback32: "128 \<le> v \<Longrightarrow>
      GetVarint32PtrFallback E (EncodeVarint32 v @ rest) = Some (v, length (EncodeVarint32 v))"
    and ptr64: "GetVarint64Ptr E (EncodeVarint64 w @ rest) = Some (w, length (EncodeVarint64 w))"
begin

lemma GetVarint32Ptr_enc:
  "GetVarint32Ptr E (EncodeVarint32 v @ rest) = Some (v, length (EncodeVarint32 v))"
proof (cases "v < 128")
  case True
  then have enc: "EncodeVarint32 v = [ucast v]" by (simp add: EncodeVarint32_def)
  have hi: "bit v n \<Longrightarrow> n < 7" for n
    using True by (intro less_exp_bit [of v 7]) simp_all
  have id: "(ucast (ucast v :: byte) :: u32) = v"
    by (rule bit_word_eqI) (use hi in \<open>force simp: bit_simps\<close>)
  have "v AND 128 = 0" using hi by (auto simp: and_128_iff)
  then show ?thesis by (simp add: GetVarint32Ptr_def enc id)
next
  case False
  then have "\<exists>b bs. EncodeVarint32 v = b # bs \<and> bit b 7"
    by (auto simp: EncodeVarint32_def bit_simps bit_128_word)
  then show ?thesis using False fallback32 [of v rest]
    by (auto simp: GetVarint32Ptr_def and_128_iff bit_simps)
qed

lemma GetVarint32_enc: "GetVarint32 E (EncodeVarint32 v @ rest) = Some (v, rest)"
  by (simp add: GetVarint32_def GetVarint32Ptr_enc)

lemma GetVarint64_enc: "GetVarint64 E (EncodeVarint64 v @ rest) = Some (v, rest)"
  by (simp add: GetVarint64_def ptr64)

lemma GetVarsignedint64_enc:
  "GetVarsignedint64 E (EncodeVarint64 (i64ToZigzag v) @ rest) = Some (v, rest)"
  by (simp add: GetVarsignedint64_def GetVarsignedint64Ptr_def ptr64 zigzag_roundtrip)

lemma GetLengthPrefixedSlice_Put:
  "length value < 2 ^ 32 \<Longrightarrow>
   GetLengthPrefixedSlice E (PutLengthPrefixedSlice [] value @ rest) = Some (value, rest)"
  by (simp add: GetLengthPrefixedSlice_def PutLengthPrefixedSlice_def PutVarint32_def
      GetVarint32_enc unat_of_nat_u32)

end

sublocale varint_decoder \<subseteq> v32: codec EncodeVarint32 "GetVarint32 E"
  by unfold_locales (rule GetVarint32_enc)

sublocale varint_decoder \<subseteq> v64: codec EncodeVarint64 "GetVarint64 E"
  by unfold_locales (rule GetVarint64_enc)

sublocale varint_decoder \<subseteq> vs64: codec "\<lambda>v. EncodeVarint64 (i64ToZigzag v)" "GetVarsignedint64 E"
  by unfold_locales (rule GetVarsignedint64_enc)

interpretation leb: varint_decoder leb128_ext
proof
  fix v :: u32 and w :: u64 and rest
  show "GetVarint64Ptr leb128_ext (EncodeVarint64 w @ rest) = Some (w, length (EncodeVarint64 w))"
    using VarintLength_bounds [of w] by (simp add: leb128_ext_def leb128_EncodeVarint64)
  have "leb128 5 (EncodeVarint64 (ucast v) @ rest) = Some (ucast (ucast v :: u64) :: u32, length (EncodeVarint64 (ucast v)))"
    using EncodeVarint32_bounds [of v] by (intro leb128_EncodeVarint64) (simp add: length_EncodeVarint32)
  moreover have "ucast (ucast v :: u64) = v"
    by (rule bit_word_eqI) (auto simp: bit_simps)
  ultimately show "GetVarint32PtrFallback leb128_ext (EncodeVarint32 v @ rest) = Some (v, length (EncodeVarint32 v))"
    by (simp add: leb128_ext_def EncodeVarint32_eq)
qed

interpretation fixed32: codec EncodeFixed32 GetFixed32
  by unfold_locales (simp add: GetFixed32_def)

interpretation fixed64: codec EncodeFixed64 GetFixed64
  by unfold_locales (simp add: GetFixed64_def)

interpretation fixed16: codec EncodeFixed16 GetFixed16
  by unfold_locales (simp add: GetFixed16_def)

lemma ucast_and_255: "(ucast (w AND 0xff) :: byte) = ucast (w :: 'a::len word)"
  by (rule bit_word_eqI) (auto simp: and_255_take_bit bit_simps)

lemma EncodeFixed32_bytes:
  "EncodeFixed32 v = [ucast v, ucast (drop_bit 8 v), ucast (drop_bit 16 v), ucast (drop_bit 24 v)]"
  by (simp add: EncodeFixed32_le eval_nat_numeral)

lemma EncodeFixed64_halves:
  "EncodeFixed64 w = EncodeFixed32 (ucast w) @ EncodeFixed32 (ucast (drop_bit 32 w))"
proof -
  have "(ucast (drop_bit k (ucast u :: u32)) :: byte) = ucast (drop_bit k u)" if "k \<le> 24"
    for k and u :: u64
    using that by (intro bit_word_eqI) (auto simp: bit_simps)
  from this [of 0] this [of 8] this [of 16] this [of 24] show ?thesis
    by (simp add: EncodeFixed32_bytes EncodeFixed64_le eval_nat_numeral)
qed

lemma list_eight:
  assumes "8 \<le> length p"
  obtains a b c d e f g h r where "p = a # b # c # d # e # f # g # h # r"
  using assms by (auto simp: Suc_le_length_iff eval_nat_numeral)

lemma DecodeFixed32_portable:
  assumes "8 \<le> length p"
  shows "DecodeFixed32 p = ucast (p ! 0) OR push_bit 8 (ucast (p ! 1)) OR
           push_bit 16 (ucast (p ! 2)) OR push_bit 24 (ucast (p ! 3))"
  using assms
  by (elim list_eight)
    (simp add: DecodeFixed32_def kLittleEndian_def eval_nat_numeral push_bit_or ac_simps)

lemma le_value_append:
  "le_value (xs @ ys) = (le_value xs OR push_bit (8 * length xs) (le_value ys) :: 'a::len word)"
  by (induction xs) (simp_all add: push_bit_or push_bit_push_bit ac_simps)

lemma bit_le_value:
  "bit (le_value xs :: 'a::len word) n \<longleftrightarrow>
     n < LENGTH('a) \<and> n < 8 * length xs \<and> bit (xs ! (n div 8)) (n mod 8)"
proof (induction xs arbitrary: n)
  case Nil
  then show ?case by simp
next
  case (Cons x xs)
  show ?case
  proof (cases "n < 8")
    case True
    then show ?thesis by (auto simp: bit_simps)
  next
    case False
    then have "bit (le_value (x # xs) :: 'a word) n \<longleftrightarrow> n < LENGTH('a) \<and> bit (le_value xs :: 'a word) (n - 8)"
      by (auto simp: bit_simps dest: bit_imp_le_length)
    also have "\<dots> \<longleftrightarrow> n < LENGTH('a) \<and> n - 8 < 8 * length xs \<and> bit (xs ! ((n - 8) div 8)) ((n - 8) mod 8)"
      by (auto simp: Cons.IH)
    finally show ?thesis using False by (auto simp: le_div_geq le_mod_geq not_less)
  qed
qed

lemma ucast_le_value:
  "8 * length xs \<le> LENGTH('a) \<Longrightarrow> LENGTH('a) \<le> LENGTH('b) \<Longrightarrow>
   ucast (le_value xs :: 'a::len word) = (le_value xs :: 'b::len word)"
  by (rule bit_word_eqI) (auto simp: bit_simps bit_le_value)

lemma DecodeFixed64_portable:
  assumes "8 \<le> length p"
  shows "DecodeFixed64 p = push_bit 32 (ucast (DecodeFixed32 (drop 4 p))) OR ucast (DecodeFixed32 p)"
proof -
  have "take 8 p = take 4 p @ take 4 (drop 4 p)"
    using take_add [of 4 4 p] by simp
  then show ?thesis using assms
    by (simp add: DecodeFixed64_def DecodeFixed32_def kLittleEndian_def le_value_append
        ucast_le_value ac_simps)
qed

lemma sint_u64: "sint (l :: 64 word) = uint l - (if bit l 63 then 2 ^ 64 else 0)"
  using uint_lt2p [of l] by (simp add: sint_uint signed_take_bit_eq_take_bit_minus bit_uint_iff take_bit_int_eq_self)

lemma bit_63_uint: "bit (l :: 64 word) 63 \<longleftrightarrow> 2 ^ 63 \<le> uint l"
proof -
  have "bit l 63 \<longleftrightarrow> odd (uint l div 2 ^ 63)"
    using bit_uint_iff [of l 63] by (simp add: bit_iff_odd [of "uint l"])
  moreover have "uint l div 2 ^ 63 \<in> {0, 1}" "0 \<le> uint l"
    using uint_lt2p [of l] by auto
  ultimately show ?thesis by auto
qed

lemma uint_i64ToZigzag:
  "uint (i64ToZigzag l) = (if 0 \<le> sint l then 2 * sint l else - 2 * sint l - 1)"
proof (cases "bit l 63")
  case True
  have "signed_drop_bit 63 l = - 1"
    by (rule bit_word_eqI) (simp add: bit_signed_drop_bit_63 True)
  then have "i64ToZigzag l = - 1 - 2 * l"
    by (simp add: i64ToZigzag_def push_bit_eq_mult mult.commute not_eq_complement)
  moreover have "uint (- 1 - 2 * l) = uint (- 1 :: 64 word) - uint (2 * l)"
    using uint_minus_simple_alt [of "2 * l" "- 1"] by simp
  moreover have "uint (2 * l) = 2 * uint l - 2 ^ 64"
    using True bit_63_uint [of l] uint_lt2p [of l]
    mod_pos_pos_trivial [of "2 * uint l - 2 ^ 64" "2 ^ 64"]
    by (simp add: uint_word_ariths)
  moreover have "uint (- 1 :: 64 word) = 2 ^ 64 - 1"
    by (simp add: unsigned_minus_1_eq_mask mask_eq_exp_minus_1)
  ultimately show ?thesis using True bit_63_uint [of l] uint_lt2p [of l]
    by (simp add: sint_u64)
next
  case False
  have "signed_drop_bit 63 l = 0"
    by (rule bit_word_eqI) (simp add: bit_signed_drop_bit_63 False)
  then have "i64ToZigzag l = 2 * l"
    by (simp add: i64ToZigzag_def push_bit_eq_mult mult.commute)
  then show ?thesis using False bit_63_uint [of l] 
    by (simp add: sint_u64 uint_word_ariths)
qed

context varint_decoder
begin

lemma GetLengthPrefixedSlice_parts:
  assumes "sum_list (map length parts) + pad < 2 ^ 32"
  shows "GetLengthPrefixedSlice E (PutLengthPrefixedSlicePartsWithPadding [] parts pad @ rest) =
           Some (concat parts @ replicate pad 0, rest)"
proof -
  have "foldl (@) d parts = d @ concat parts" for d :: bytes
    by (induction parts arbitrary: d) simp_all
  then have "PutLengthPrefixedSlicePartsWithPadding [] parts pad =
      PutLengthPrefixedSlice [] (concat parts @ replicate pad 0)"
    by (simp add: PutLengthPrefixedSlicePartsWithPadding_def PutLengthPrefixedSliceParts_total_def
        PutLengthPrefixedSlice_def PutVarint32_def length_concat add.commute)
  then show ?thesis using assms
    by (simp add: GetLengthPrefixedSlice_Put length_concat)
qed

end

section \<open>Properties\<close>

text \<open>
  The two branches of the fixed-width routines agree: on the little-endian platform the
  memcpy writes exactly the bytes the portable shifts write, and the memcpy of a decoder reads
  the value the portable shifts read, so a file written on one platform is read on the other.
\<close>

theorem fixed_branches_agree:
  assumes "8 \<le> length p"
  shows "EncodeFixed32 v = [ucast (v AND 0xff), ucast (drop_bit 8 v AND 0xff),
            ucast (drop_bit 16 v AND 0xff), ucast (drop_bit 24 v AND 0xff)]
    \<and> EncodeFixed64 w = EncodeFixed32 (ucast w) @ EncodeFixed32 (ucast (drop_bit 32 w))
    \<and> DecodeFixed32 p = ucast (p ! 0) OR push_bit 8 (ucast (p ! 1)) OR
           push_bit 16 (ucast (p ! 2)) OR push_bit 24 (ucast (p ! 3))
    \<and> DecodeFixed64 p = push_bit 32 (ucast (DecodeFixed32 (drop 4 p))) OR ucast (DecodeFixed32 p)"
  using assms EncodeFixed32_bytes [of v] EncodeFixed64_halves [of w]
    DecodeFixed32_portable [of p] DecodeFixed64_portable [of p]
  by (simp only: ucast_and_255 simp_thms)

theorem fixed_branches_agree_witness:
  "DecodeFixed64 [1, 2, 3, 4, 5, 6, 7, 8] = 0x0807060504030201"
proof -
  let ?p = "[1, 2, 3, 4, 5, 6, 7, 8] :: bytes"
  have "DecodeFixed64 ?p = push_bit 32 (ucast (DecodeFixed32 (drop 4 ?p))) OR ucast (DecodeFixed32 ?p)"
    using fixed_branches_agree [of ?p] by simp
  then show ?thesis by (simp add: DecodeFixed32_def kLittleEndian_def)
qed

text \<open>
  C35. The unrolled 32-bit varint writer produces the bytes of the 64-bit loop on the widened
  value; \<^verbatim>\<open>VarintLength\<close> is the exact number of bytes written, and it is at most 5 for a 32-bit and
  10 for a 64-bit value, the sizes of the buffers the \<^verbatim>\<open>Put\<close> routines write into.
\<close>

theorem varint_sizes:
  "EncodeVarint32 v = EncodeVarint64 (ucast v)
   \<and> length (EncodeVarint64 w) = VarintLength w
   \<and> 1 \<le> length (EncodeVarint32 v) \<and> length (EncodeVarint32 v) \<le> 5
   \<and> 1 \<le> length (EncodeVarint64 w) \<and> length (EncodeVarint64 w) \<le> 10"
  using EncodeVarint32_eq [of v] EncodeVarint32_bounds [of v] VarintLength_bounds [of w]
  by (simp add: length_EncodeVarint64)

text \<open>
  C36. Zigzag is a bijection between signed and unsigned 64-bit integers, and it maps \<open>l\<close> to
  \<open>2 l\<close> when \<open>l \<ge> 0\<close> and to \<open>- 2 l - 1\<close> when \<open>l < 0\<close>, so integers of small magnitude get
  short varints.
\<close>

theorem zigzag_bijection:
  "zigzagToI64 (i64ToZigzag l) = l \<and> i64ToZigzag (zigzagToI64 n) = n
   \<and> uint (i64ToZigzag l) = (if 0 \<le> sint l then 2 * sint l else - 2 * sint l - 1)"
  using zigzag_roundtrip zigzag_roundtrip' uint_i64ToZigzag by blast

text \<open>
  C34. Whatever reader of multi-byte varints is linked in, if it reads back what the writers
  write then a length-prefixed slice of less than 4 GiB, written in parts and with padding, is
  parsed back whole and the rest of the input is left as it was.
\<close>

theorem length_prefixed_roundtrip:
  assumes "varint_decoder E"
    and "sum_list (map length parts) + pad < 2 ^ 32"
  shows "GetLengthPrefixedSlice E (PutLengthPrefixedSlicePartsWithPadding [] parts pad @ rest) =
           Some (concat parts @ replicate pad 0, rest)"
  using assms by (rule varint_decoder.GetLengthPrefixedSlice_parts)

theorem length_prefixed_roundtrip_witness:
  "GetLengthPrefixedSlice leb128_ext
     (PutLengthPrefixedSlicePartsWithPadding [] [[1, 2], [3]] 1 @ [9]) =
   Some ([1, 2, 3, 0], [9])"
  using length_prefixed_roundtrip [OF leb.varint_decoder_axioms, of "[[1, 2], [3]]" 1 "[9]"]
  by simp

end
