(* ===== verification/Xiao_Math.thy ===== *)
theory Xiao_Math
  imports Coding
begin

text \<open>
  \<^verbatim>\<open>util/math.h\<close> and \<^verbatim>\<open>util/fastrange.h\<close>: bit manipulation of unsigned integers and the mapping of a hash
  to a range. The template parameter \<^verbatim>\<open>T\<close> is the type of the word. The compiler builtins are modelled by
  what they are documented to compute; the branches for other compilers are not modelled. A failed
  assertion is \<^const>\<open>None\<close>. Nothing in the sources defines \<^verbatim>\<open>HAVE_UINT128_EXTENSION\<close>: of \<^verbatim>\<open>fastrange.h\<close> both the
  branch with the extension and the portable branch are modelled.
\<close>

section \<open>Bits of a word\<close>

definition BottomNBits :: "'a::len word \<Rightarrow> nat \<Rightarrow> 'a word option" where
  "BottomNBits v nbits =
     (if nbits < LENGTH('a) then Some (v AND (push_bit nbits 1 - 1)) else None)"

definition builtin_clz :: "'a::len word \<Rightarrow> nat" where
  "builtin_clz v = length (takeWhile (\<lambda>n. \<not> bit v n) (rev [0..<LENGTH('a)]))"

definition builtin_ctz :: "'a::len word \<Rightarrow> nat" where
  "builtin_ctz v = length (takeWhile (\<lambda>n. \<not> bit v n) [0..<LENGTH('a)])"

definition builtin_popcount :: "'a::len word \<Rightarrow> nat" where
  "builtin_popcount v = length (filter (bit v) [0..<LENGTH('a)])"

definition builtin_parity :: "'a::len word \<Rightarrow> nat" where
  "builtin_parity v = builtin_popcount v mod 2"

definition FloorLog2 :: "'a::len word \<Rightarrow> nat option" where
  "FloorLog2 v =
     (if 0 < v
      then if LENGTH('a) \<le> 32
           then Some (32 - 1 - builtin_clz (ucast v :: u32))
           else Some (64 - 1 - builtin_clz (ucast v :: u64))
      else None)"

function ConstexprFloorLog2_loop :: "'a::len word \<Rightarrow> nat \<Rightarrow> nat" where
  "ConstexprFloorLog2_loop v rv =
     (if 1 < v then ConstexprFloorLog2_loop (drop_bit 1 v) (rv + 1) else rv)"
  by pat_completeness auto
termination
proof (relation "measure (unat \<circ> fst)")
  fix v :: "'a word" and rv :: nat
  assume "1 < v"
  then have "0 < unat v" by (simp add: word_less_nat_alt)
  then show "((drop_bit 1 v, rv + 1), v, rv) \<in> measure (unat \<circ> fst)"
    by (simp add: unat_drop_bit_eq drop_bit_nat_def)
qed simp

declare ConstexprFloorLog2_loop.simps [simp del]

definition ConstexprFloorLog2 :: "'a::len word \<Rightarrow> nat" where
  "ConstexprFloorLog2 v = ConstexprFloorLog2_loop v 0"

definition CountTrailingZeroBits :: "'a::len word \<Rightarrow> nat option" where
  "CountTrailingZeroBits v =
     (if v \<noteq> 0
      then if LENGTH('a) \<le> 32
           then Some (builtin_ctz (ucast v :: u32))
           else Some (builtin_ctz (ucast v :: u64))
      else None)"

definition BitsSetToOne :: "'a::len word \<Rightarrow> nat" where
  "BitsSetToOne v =
     (if LENGTH('a) < 32
      then let mm = 8 * 4 - 1;
               m = push_bit (unat (of_nat LENGTH('a) AND mm :: u32)) 1 - 1 :: u32
           in builtin_popcount (ucast v AND m)
      else if LENGTH('a) = 32 then builtin_popcount (ucast v :: u32)
      else builtin_popcount (ucast v :: u64))"

definition BitParity :: "'a::len word \<Rightarrow> nat" where
  "BitParity v =
     (if LENGTH('a) \<le> 32 then builtin_parity (ucast v :: u32) else builtin_parity (ucast v :: u64))"

definition builtin_bswap :: "'a::len word \<Rightarrow> 'a word" where
  "builtin_bswap v = le_value (rev (le_bytes (LENGTH('a) div 8) v))"

fun EndianSwapValue_loop :: "nat list \<Rightarrow> 'a::len word \<Rightarrow> 'a word \<Rightarrow> 'a word" where
  "EndianSwapValue_loop [] v ret_val = ret_val"
| "EndianSwapValue_loop (i # is) v ret_val =
     EndianSwapValue_loop is v
       (ret_val OR push_bit (8 * (LENGTH('a) div 8 - 1 - i)) (drop_bit (8 * i) v AND 0xff))"

definition EndianSwapValue :: "'a::len word \<Rightarrow> 'a word" where
  "EndianSwapValue v =
     (if LENGTH('a) div 8 = 2 then builtin_bswap v
      else if LENGTH('a) div 8 = 4 then builtin_bswap v
      else if LENGTH('a) div 8 = 8 then builtin_bswap v
      else EndianSwapValue_loop [0..<LENGTH('a) div 8] v 0)"

definition ReverseBits :: "'a::len word \<Rightarrow> 'a word" where
  "ReverseBits v =
     (let r = EndianSwapValue v;
          kHighestByte = push_bit ((LENGTH('a) div 8 - 1) * 8) 1;
          kEveryByte = kHighestByte OR (kHighestByte div 255);
          r = push_bit 4 (r AND (kEveryByte * 0x0f)) OR (drop_bit 4 r AND (kEveryByte * 0x0f));
          r = push_bit 2 (r AND (kEveryByte * 0x33)) OR (drop_bit 2 r AND (kEveryByte * 0x33));
          r = push_bit 1 (r AND (kEveryByte * 0x55)) OR (drop_bit 1 r AND (kEveryByte * 0x55))
      in r)"

definition DownwardInvolution :: "'a::len word \<Rightarrow> 'a word" where
  "DownwardInvolution v =
     (let r = ucast v :: u64;
          r = if 4 < LENGTH('a) div 8 then r XOR drop_bit 32 r else r;
          r = if 2 < LENGTH('a) div 8 then r XOR drop_bit 16 (r AND 0xffff0000ffff0000) else r;
          r = if 1 < LENGTH('a) div 8 then r XOR drop_bit 8 (r AND 0xff00ff00ff00ff00) else r;
          r = r XOR drop_bit 4 (r AND 0xf0f0f0f0f0f0f0f0);
          r = r XOR drop_bit 2 (r AND 0xcccccccccccccccc);
          r = r XOR drop_bit 1 (r AND 0xaaaaaaaaaaaaaaaa)
      in ucast r)"

section \<open>Mapping a hash to a range\<close>

definition FastRange32 :: "u32 \<Rightarrow> u32 \<Rightarrow> u32" where
  "FastRange32 hash rng =
     (let product = ucast rng * ucast hash :: u64 in ucast (drop_bit 32 product))"

definition FastRange64_wide :: "u64 \<Rightarrow> u64 \<Rightarrow> u64" where
  "FastRange64_wide hash rng =
     (let wide = ucast rng * ucast hash :: 128 word in ucast (drop_bit 64 wide))"

definition FastRange64 :: "u64 \<Rightarrow> u64 \<Rightarrow> u64" where
  "FastRange64 hash rng =
     (let rng64 = rng;
          tmp = (rng64 AND 0xffffFFFF) * (hash AND 0xffffFFFF);
          tmp = drop_bit 32 tmp;
          tmp = tmp + (rng64 AND 0xffffFFFF) * (hash AND 0xffffFFFF);
          tmp2 = drop_bit 32 rng64 * (hash AND 0xffffFFFF);
          tmp = tmp + ucast (ucast tmp2 :: u32);
          tmp = tmp + drop_bit 32 tmp2;
          tmp = tmp + drop_bit 32 rng64 * drop_bit 32 hash
      in tmp)"

section \<open>Words as sums of bits\<close>

lemma push_bit_one_bit: "bit (push_bit m 1 :: 'a::len word) n \<longleftrightarrow> n = m \<and> m < LENGTH('a)"
  by (auto simp: bit_simps)

lemma xor_bits_induct [case_names zero bit xor]:
  fixes v :: "'a::len word"
  assumes "P 0" and "\<And>m. m < LENGTH('a) \<Longrightarrow> P (push_bit m 1)"
    and "\<And>x y. P x \<Longrightarrow> P y \<Longrightarrow> P (x XOR y)"
  shows "P v"
proof -
  have "P (take_bit k v)" if "k \<le> LENGTH('a)" for k
    using that
  proof (induction k)
    case 0
    then show ?case using assms(1) by simp
  next
    case (Suc k)
    have "take_bit (Suc k) v = (if bit v k then take_bit k v XOR push_bit k 1 else take_bit k v)"
      by (rule bit_word_eqI) (auto simp: bit_simps less_Suc_eq)
    then show ?case using Suc assms by simp
  qed
  from this [of "LENGTH('a)"] show ?thesis by (simp add: take_bit_word_eq_self)
qed

lemma all_bits_u64: "(\<forall>m \<in> set [0..<64]. P m) \<Longrightarrow> m < LENGTH(64) \<Longrightarrow> P m" for P :: "nat \<Rightarrow> bool"
  by simp

lemma drop_bit_xor': "drop_bit n (a XOR b) = drop_bit n a XOR drop_bit n (b :: 'a::len word)"
  by (rule bit_word_eqI) (auto simp: bit_simps)

lemma push_bit_xor': "push_bit n (a XOR b) = push_bit n a XOR push_bit n (b :: 'a::len word)"
  by (rule bit_word_eqI) (auto simp: bit_simps)

lemma bit_shift_one: "bit (push_bit 1 y :: 'a::len word) n \<longleftrightarrow> 0 < n \<and> n < LENGTH('a) \<and> bit y (n - 1)"
  unfolding bit_push_bit_iff by (auto simp: Suc_le_eq)

section \<open>The downward involution\<close>

definition down_stage :: "nat \<Rightarrow> u64 \<Rightarrow> u64 \<Rightarrow> u64" where
  "down_stage k m r = r XOR drop_bit k (r AND m)"

lemma down_stage_xor: "down_stage k m (a XOR b) = down_stage k m a XOR down_stage k m b"
  unfolding down_stage_def by (rule bit_word_eqI) (auto simp: bit_simps)

text \<open>
  The image of bit \<open>m\<close> is row \<open>m\<close> of the Pascal triangle modulo 2: the bits whose positions have no
  binary digit that \<open>m\<close> does not have.
\<close>

definition digits_within :: "nat \<Rightarrow> nat \<Rightarrow> bool" where
  "digits_within n m \<longleftrightarrow> (\<forall>i. bit n i \<longrightarrow> bit m i)"

lemma digits_within_rec:
  "digits_within n m \<longleftrightarrow> (odd n \<longrightarrow> odd m) \<and> digits_within (n div 2) (m div 2)"
proof -
  have "(\<forall>i. bit n i \<longrightarrow> bit m i) \<longleftrightarrow> (bit n 0 \<longrightarrow> bit m 0) \<and> (\<forall>i. bit n (Suc i) \<longrightarrow> bit m (Suc i))"
    by (metis not0_implies_Suc)
  then show ?thesis by (simp add: digits_within_def bit_0 bit_Suc)
qed

lemma digits_within_Suc:
  "digits_within n (Suc m) \<longleftrightarrow> (digits_within n m \<noteq> (0 < n \<and> digits_within (n - 1) m))"
proof (induction m arbitrary: n rule: less_induct)
  case (less m)
  note rec = digits_within_rec [of n "Suc m"] digits_within_rec [of n m] digits_within_rec [of "n - 1" m]
  show ?case
  proof (cases "odd m")
    case False
    then show ?thesis using rec by (cases "odd n") (auto elim!: evenE oddE)
  next
    case True
    then have "m div 2 < m" by (cases m) auto
    moreover have "(2 * k - Suc 0) div 2 = k - Suc 0" for k by (cases k) auto
    ultimately show ?thesis using less.IH [of "m div 2" "n div 2"] True rec
      by (cases "odd n") (auto elim!: evenE oddE)
  qed
qed


text \<open>The bits after the stages for the digits \<open>j\<close> and above have been applied to bit \<open>m\<close>.\<close>

definition row_from :: "nat \<Rightarrow> nat \<Rightarrow> u64 \<Rightarrow> bool" where
  "row_from j m r \<longleftrightarrow> (\<forall>n < 64. bit r n \<longleftrightarrow>
     (\<forall>i < j. bit n i = bit m i) \<and> (\<forall>i \<ge> j. bit n i \<longrightarrow> bit m i))"

lemma down_stage_row:
  assumes r: "row_from (Suc j) m r" and j: "j < 6"
    and M: "\<And>n. n < 64 \<Longrightarrow> bit M n \<longleftrightarrow> bit n j"
  shows "row_from j m (down_stage (2 ^ j) M r)"
  unfolding row_from_def
proof (intro allI impI)
  fix n :: nat
  assume n: "n < 64"
  let ?low = "\<lambda>k. (\<forall>i < k. bit n i = bit m i)" and ?high = "\<lambda>k. (\<forall>i \<ge> k. bit n i \<longrightarrow> bit m i)"
  have all: "(\<forall>i < Suc j. P i) \<longleftrightarrow> (\<forall>i < j. P i) \<and> P j" "(\<forall>i \<ge> j. P i) \<longleftrightarrow> P j \<and> (\<forall>i \<ge> Suc j. P i)"
    for P by (auto simp: less_Suc_eq) (metis Suc_leI le_neq_implies_less)
  have rn: "bit r n \<longleftrightarrow> ?low (Suc j) \<and> ?high (Suc j)"
    using r n by (simp add: row_from_def)
  show "bit (down_stage (2 ^ j) M r) n \<longleftrightarrow> ?low j \<and> ?high j"
  proof (cases "bit n j")
    case True
    then have "\<not> (n + 2 ^ j < 64 \<and> bit (n + 2 ^ j) j)"
      by (simp add: bit_iff_odd div_add_self2)
    then have "\<not> bit (r AND M) (n + 2 ^ j)"
      using M [of "n + 2 ^ j"] by (auto simp: bit_simps dest: bit_imp_le_length)
    then have "bit (down_stage (2 ^ j) M r) n \<longleftrightarrow> bit r n"
      by (simp add: down_stage_def bit_simps add.commute)
    with rn True show ?thesis by (simp only: all) auto
  next
    case False
    define n' where "n' = n + 2 ^ j"
    have n': "n' = set_bit j n" using False by (simp add: n'_def set_bit_eq)
    have b': "bit n' i \<longleftrightarrow> i = j \<or> bit n i" for i by (auto simp: n' bit_set_bit_iff)
    have "take_bit 6 n = n" using n by (simp add: take_bit_nat_eq_self_iff)
    then have "bit n i \<Longrightarrow> i < 6" for i by (metis bit_take_bit_iff)
    then have "take_bit 6 n' = n'" using j by (auto intro!: bit_eqI simp: bit_take_bit_iff b')
    then have "n' < 64" by (simp add: take_bit_nat_eq_self_iff)
    have "bit r n' \<longleftrightarrow> (\<forall>i < Suc j. bit n' i = bit m i) \<and> (\<forall>i \<ge> Suc j. bit n' i \<longrightarrow> bit m i)"
      using r \<open>n' < 64\<close> by (simp add: row_from_def)
    then have "bit r n' \<longleftrightarrow> ?low j \<and> bit m j \<and> ?high (Suc j)"
      unfolding all(1) b' using less_not_refl not_less_eq_eq by blast
    moreover have "bit M n'" using M [OF \<open>n' < 64\<close>] b' by simp
    ultimately have "bit (down_stage (2 ^ j) M r) n \<longleftrightarrow> bit r n \<noteq> (?low j \<and> bit m j \<and> ?high (Suc j))"
      by (simp add: down_stage_def bit_simps n'_def add.commute)
    moreover have "bit r n \<longleftrightarrow> ?low j \<and> \<not> bit m j \<and> ?high (Suc j)"
      unfolding rn all(1) using False by blast
    moreover have "?high j \<longleftrightarrow> ?high (Suc j)" unfolding all(2) using False by blast
    ultimately show ?thesis by argo
  qed
qed

lemma stage_masks:
  assumes "n < 64"
  shows "bit (0xffffffff00000000 :: u64) n \<longleftrightarrow> bit n 5"
    and "bit (0xffff0000ffff0000 :: u64) n \<longleftrightarrow> bit n 4"
    and "bit (0xff00ff00ff00ff00 :: u64) n \<longleftrightarrow> bit n 3"
    and "bit (0xf0f0f0f0f0f0f0f0 :: u64) n \<longleftrightarrow> bit n 2"
    and "bit (0xcccccccccccccccc :: u64) n \<longleftrightarrow> bit n 1"
    and "bit (0xaaaaaaaaaaaaaaaa :: u64) n \<longleftrightarrow> bit n 0"
proof -
  have n: "n \<in> set [0..<64]" using assms by simp
  have "\<forall>n \<in> set [0..<64]. bit (0xffffffff00000000 :: u64) n \<longleftrightarrow> bit (n :: nat) 5" by code_simp
  then show "bit (0xffffffff00000000 :: u64) n \<longleftrightarrow> bit n 5" using n by (rule bspec)
  have "\<forall>n \<in> set [0..<64]. bit (0xffff0000ffff0000 :: u64) n \<longleftrightarrow> bit (n :: nat) 4" by code_simp
  then show "bit (0xffff0000ffff0000 :: u64) n \<longleftrightarrow> bit n 4" using n by (rule bspec)
  have "\<forall>n \<in> set [0..<64]. bit (0xff00ff00ff00ff00 :: u64) n \<longleftrightarrow> bit (n :: nat) 3" by code_simp
  then show "bit (0xff00ff00ff00ff00 :: u64) n \<longleftrightarrow> bit n 3" using n by (rule bspec)
  have "\<forall>n \<in> set [0..<64]. bit (0xf0f0f0f0f0f0f0f0 :: u64) n \<longleftrightarrow> bit (n :: nat) 2" by code_simp
  then show "bit (0xf0f0f0f0f0f0f0f0 :: u64) n \<longleftrightarrow> bit n 2" using n by (rule bspec)
  have "\<forall>n \<in> set [0..<64]. bit (0xcccccccccccccccc :: u64) n \<longleftrightarrow> bit (n :: nat) 1" by code_simp
  then show "bit (0xcccccccccccccccc :: u64) n \<longleftrightarrow> bit n 1" using n by (rule bspec)
  have "\<forall>n \<in> set [0..<64]. bit (0xaaaaaaaaaaaaaaaa :: u64) n \<longleftrightarrow> bit (n :: nat) 0" by code_simp
  then show "bit (0xaaaaaaaaaaaaaaaa :: u64) n \<longleftrightarrow> bit n 0" using n by (rule bspec)
qed

lemma first_stage: "r XOR drop_bit 32 r = down_stage 32 0xffffffff00000000 r"
proof -
  have "drop_bit 32 r = drop_bit 32 (r AND 0xffffffff00000000)"
  proof (rule bit_word_eqI)
    fix n
    assume "n < LENGTH(64)"
    have "bit (0xffffffff00000000 :: u64) (32 + n)" if "32 + n < 64"
    proof -
      have "bit (32 + n) 5" using that by (simp add: bit_iff_odd div_add_self1)
      then show ?thesis unfolding stage_masks(1) [OF that] .
    qed
    then show "bit (drop_bit 32 r) n = bit (drop_bit 32 (r AND 0xffffffff00000000)) n"
      unfolding bit_drop_bit_eq comp_def bit_and_iff by (auto dest: bit_imp_le_length)
  qed
  then show ?thesis by (simp only: down_stage_def)
qed

lemma DownwardInvolution_stages:
  "DownwardInvolution (v :: u64) =
     down_stage 1 0xaaaaaaaaaaaaaaaa (down_stage 2 0xcccccccccccccccc
       (down_stage 4 0xf0f0f0f0f0f0f0f0 (down_stage 8 0xff00ff00ff00ff00
         (down_stage 16 0xffff0000ffff0000 (down_stage 32 0xffffffff00000000 v)))))"
proof -
  have "4 < LENGTH(64) div 8" "2 < LENGTH(64) div 8" "1 < LENGTH(64) div 8" by simp_all
  then show ?thesis
    unfolding DownwardInvolution_def Let_def first_stage down_stage_def [symmetric]
    by (simp only: if_True ucast_id)
qed

lemma DownwardInvolution_xor:
  "DownwardInvolution (a XOR b) = DownwardInvolution a XOR DownwardInvolution (b :: u64)"
  by (simp only: DownwardInvolution_stages down_stage_xor)

lemma DownwardInvolution_0: "DownwardInvolution (0 :: u64) = 0"
  using DownwardInvolution_xor [of 0 0] by simp

lemma DownwardInvolution_digits:
  assumes "m < 64" and "n < 64"
  shows "bit (DownwardInvolution (push_bit m 1 :: u64)) n \<longleftrightarrow> digits_within n m"
proof -
  let ?r = "push_bit m 1 :: u64"
  have "row_from 6 m ?r"
    unfolding row_from_def
  proof (intro allI impI)
    fix n :: nat
    assume n: "n < 64"
    have "take_bit 6 n = n" "take_bit 6 m = m"
      using n assms(1) by (simp_all add: take_bit_nat_eq_self_iff)
    then have *: "bit n i \<Longrightarrow> i < 6" "bit m i \<Longrightarrow> i < 6" for i
      by (metis bit_take_bit_iff)+
    have "n = m" if "\<forall>i < 6. bit n i = bit m i"
    proof (rule bit_eqI)
      fix i
      show "bit n i = bit m i" using that * [of i] by blast
    qed
    then show "bit ?r n \<longleftrightarrow> (\<forall>i < 6. bit n i = bit m i) \<and> (\<forall>i \<ge> 6. bit n i \<longrightarrow> bit m i)"
      unfolding push_bit_one_bit using assms(1) by auto
  qed
  have s5: "row_from 6 m r \<Longrightarrow> row_from 5 m (down_stage 32 0xffffffff00000000 r)" for r
    using down_stage_row [where j = 5 and m = m and r = r and M = "0xffffffff00000000", OF _ _ stage_masks(1)] by simp
  have s4: "row_from 5 m r \<Longrightarrow> row_from 4 m (down_stage 16 0xffff0000ffff0000 r)" for r
    using down_stage_row [where j = 4 and m = m and r = r and M = "0xffff0000ffff0000", OF _ _ stage_masks(2)] by simp
  have s3: "row_from 4 m r \<Longrightarrow> row_from 3 m (down_stage 8 0xff00ff00ff00ff00 r)" for r
    using down_stage_row [where j = 3 and m = m and r = r and M = "0xff00ff00ff00ff00", OF _ _ stage_masks(3)] by simp
  have s2: "row_from 3 m r \<Longrightarrow> row_from 2 m (down_stage 4 0xf0f0f0f0f0f0f0f0 r)" for r
    using down_stage_row [where j = 2 and m = m and r = r and M = "0xf0f0f0f0f0f0f0f0", OF _ _ stage_masks(4)] by simp
  have s1: "row_from 2 m r \<Longrightarrow> row_from 1 m (down_stage 2 0xcccccccccccccccc r)" for r
    using down_stage_row [where j = 1 and m = m and r = r and M = "0xcccccccccccccccc", OF _ _ stage_masks(5)] by (simp add: numeral_2_eq_2)
  have s0: "row_from 1 m r \<Longrightarrow> row_from 0 m (down_stage 1 0xaaaaaaaaaaaaaaaa r)" for r
    using down_stage_row [where j = 0 and m = m and r = r and M = "0xaaaaaaaaaaaaaaaa", OF _ _ stage_masks(6)] by simp
  have "row_from 0 m (DownwardInvolution ?r)"
    unfolding DownwardInvolution_stages by (intro s0 s1 s2 s3 s4 s5) fact
  then show ?thesis using assms(2) by (simp add: row_from_def digits_within_def)
qed

lemma DownwardInvolution_bit:
  assumes "m < 63"
  shows "DownwardInvolution (push_bit (Suc m) 1) =
    DownwardInvolution (push_bit m 1) XOR push_bit 1 (DownwardInvolution (push_bit m 1 :: u64))"
proof (rule bit_word_eqI)
  fix n
  assume "n < LENGTH(64)"
  then have n: "n < 64" by simp
  have m: "m < 64" "Suc m < 64" using assms by simp_all
  note d = DownwardInvolution_digits [OF m(1)] DownwardInvolution_digits [OF m(2) n]
  show "bit (DownwardInvolution (push_bit (Suc m) 1) :: u64) n =
      bit (DownwardInvolution (push_bit m 1) XOR push_bit 1 (DownwardInvolution (push_bit m 1)) :: u64) n"
    unfolding bit_xor_iff bit_shift_one d(2) d(1) [OF n] digits_within_Suc
    using n d(1) [of "n - 1"] by (cases n) simp_all
qed

lemma DownwardInvolution_shift:
  assumes "\<not> bit y 63"
  shows "DownwardInvolution (push_bit 1 y) =
    DownwardInvolution y XOR push_bit 1 (DownwardInvolution (y :: u64))"
proof -
  let ?f = "\<lambda>y. DownwardInvolution (push_bit 1 (take_bit 63 y))"
  let ?g = "\<lambda>y. DownwardInvolution (take_bit 63 y) XOR
    push_bit 1 (DownwardInvolution (take_bit 63 y :: u64))"
  have "?f y = ?g y"
  proof (induction y rule: xor_bits_induct)
    case (bit m)
    show ?case
    proof (cases "m = 63")
      case True
      have "take_bit 63 (push_bit 63 1 :: u64) = 0" by (rule bit_word_eqI) (auto simp: bit_simps)
      with True show ?thesis by (simp add: DownwardInvolution_0)
    next
      case False
      with bit have "m < 63" by simp
      then have "take_bit 63 (push_bit m 1) = (push_bit m 1 :: u64)"
        by - (rule bit_word_eqI, auto simp: bit_simps)
      moreover have "push_bit 1 (push_bit m 1) = (push_bit (Suc m) 1 :: u64)"
        by (simp only: push_bit_push_bit plus_1_eq_Suc)
      ultimately show ?thesis by (simp only: DownwardInvolution_bit [OF \<open>m < 63\<close>])
    qed
  qed (simp_all add: DownwardInvolution_0 take_bit_xor push_bit_xor' DownwardInvolution_xor ac_simps)
  moreover have "take_bit 63 y = y"
  proof (rule bit_word_eqI)
    fix n
    assume "n < LENGTH(64)"
    then have "n < 63 \<or> n = 63" by auto
    with assms show "bit (take_bit 63 y) n = bit y n" by (auto simp: bit_simps)
  qed
  ultimately show ?thesis by simp
qed

lemma DownwardInvolution_above:
  assumes "\<And>n. h < n \<Longrightarrow> \<not> bit v n"
  shows "(h < n \<longrightarrow> \<not> bit (DownwardInvolution (v :: u64)) n) \<and>
    (bit (DownwardInvolution v) h \<longleftrightarrow> bit v h)"
proof -
  have stage: "(\<forall>n > h. \<not> bit (down_stage k m r) n) \<and> (bit (down_stage k m r) h \<longleftrightarrow> bit r h)"
    if "0 < k" "\<forall>n > h. \<not> bit r n" for k m r
    using that by (auto simp: down_stage_def bit_simps)
  define r1 where "r1 = down_stage 32 0xffffffff00000000 v"
  define r2 where "r2 = down_stage 16 0xffff0000ffff0000 r1"
  define r3 where "r3 = down_stage 8 0xff00ff00ff00ff00 r2"
  define r4 where "r4 = down_stage 4 0xf0f0f0f0f0f0f0f0 r3"
  define r5 where "r5 = down_stage 2 0xcccccccccccccccc r4"
  define r6 where "r6 = down_stage 1 0xaaaaaaaaaaaaaaaa r5"
  have 1: "(\<forall>n > h. \<not> bit r1 n) \<and> (bit r1 h \<longleftrightarrow> bit v h)"
    unfolding r1_def by (rule stage) (use assms in simp_all)
  have 2: "(\<forall>n > h. \<not> bit r2 n) \<and> (bit r2 h \<longleftrightarrow> bit r1 h)"
    unfolding r2_def by (rule stage) (use 1 in simp_all)
  have 3: "(\<forall>n > h. \<not> bit r3 n) \<and> (bit r3 h \<longleftrightarrow> bit r2 h)"
    unfolding r3_def by (rule stage) (use 2 in simp_all)
  have 4: "(\<forall>n > h. \<not> bit r4 n) \<and> (bit r4 h \<longleftrightarrow> bit r3 h)"
    unfolding r4_def by (rule stage) (use 3 in simp_all)
  have 5: "(\<forall>n > h. \<not> bit r5 n) \<and> (bit r5 h \<longleftrightarrow> bit r4 h)"
    unfolding r5_def by (rule stage) (use 4 in simp_all)
  have 6: "(\<forall>n > h. \<not> bit r6 n) \<and> (bit r6 h \<longleftrightarrow> bit r5 h)"
    unfolding r6_def by (rule stage) (use 5 in simp_all)
  have "DownwardInvolution v = r6"
    by (simp only: DownwardInvolution_stages r1_def r2_def r3_def r4_def r5_def r6_def)
  with 1 2 3 4 5 6 show ?thesis by simp
qed

lemma DownwardInvolution_add_shift:
  assumes "\<not> bit y 63"
  shows "DownwardInvolution (y XOR push_bit 1 y) = push_bit 1 (DownwardInvolution (y :: u64))"
proof -
  have "DownwardInvolution (y XOR push_bit 1 y) =
      DownwardInvolution y XOR (DownwardInvolution y XOR push_bit 1 (DownwardInvolution y))"
    by (simp only: DownwardInvolution_xor DownwardInvolution_shift [OF assms])
  then show ?thesis by (simp only: xor.assoc [symmetric] xor_self_eq xor.left_neutral)
qed

lemma DownwardInvolution_twice_bit:
  "m < 64 \<Longrightarrow> DownwardInvolution (DownwardInvolution (push_bit m 1 :: u64)) = push_bit m 1"
proof (induction m)
  case 0
  show ?case by (simp add: DownwardInvolution_stages down_stage_def)
next
  case (Suc m)
  let ?r = "DownwardInvolution (push_bit m 1 :: u64)"
  have "\<not> bit (push_bit m 1 :: u64) n" if "m < n" for n
    using that by (simp only: push_bit_one_bit) simp
  from DownwardInvolution_above [where h = m and n = 63, OF this] Suc.prems have "\<not> bit ?r 63" by auto
  then have "DownwardInvolution (?r XOR push_bit 1 ?r) = push_bit 1 (DownwardInvolution ?r)"
    by (rule DownwardInvolution_add_shift)
  moreover have "m < 63" "DownwardInvolution ?r = push_bit m 1" using Suc by simp_all
  ultimately show ?case by (simp only: DownwardInvolution_bit push_bit_push_bit plus_1_eq_Suc)
qed

lemma DownwardInvolution_twice: "DownwardInvolution (DownwardInvolution v) = (v :: u64)"
proof (induction v rule: xor_bits_induct)
  case (bit m)
  then show ?case by (simp only: DownwardInvolution_twice_bit len_of_numeral_defs)
qed (simp_all add: DownwardInvolution_0 DownwardInvolution_xor)

lemma DownwardInvolution_low_bits:
  fixes x :: u64
  assumes "\<And>n. b + c \<le> n \<Longrightarrow> \<not> bit x n" and "\<And>n. n < b \<Longrightarrow> \<not> bit x n"
    and "\<And>n. n < c \<Longrightarrow> \<not> bit (DownwardInvolution x) n"
  shows "x = 0"
  using assms
proof (induction b arbitrary: x)
  case 0
  show ?case
  proof (cases c)
    case 0
    with "0.prems"(1) show ?thesis by (simp add: bit_eq_iff)
  next
    case (Suc h)
    then have "\<not> bit x n" if "h < n" for n using "0.prems"(1) that by simp
    from DownwardInvolution_above [where h = h, OF this] "0.prems"(3) Suc
    have "\<not> bit (DownwardInvolution x) n" for n
      by (metis not_less_eq)
    then have "DownwardInvolution x = 0" by (simp add: bit_eq_iff)
    then show ?thesis using DownwardInvolution_twice [of x] by (simp add: DownwardInvolution_0)
  qed
next
  case (Suc b)
  define y where "y = drop_bit 1 x"
  have y: "bit y n \<longleftrightarrow> bit x (Suc n)" for n by (simp add: y_def bit_simps)
  have x: "x = push_bit 1 y"
  proof (rule bit_word_eqI)
    fix n
    assume "n < LENGTH(64)"
    then show "bit x n = bit (push_bit 1 y) n"
      using Suc.prems(2) [of 0] unfolding bit_shift_one y by (cases n) auto
  qed
  have "\<not> bit y 63" by (auto simp: y dest: bit_imp_le_length)
  then have D: "DownwardInvolution x = DownwardInvolution y XOR push_bit 1 (DownwardInvolution y)"
    unfolding x by (rule DownwardInvolution_shift)
  have low: "\<not> bit (DownwardInvolution y) n" if "n < c" for n
    using that
  proof (induction n)
    case 0
    then show ?case using Suc.prems(3) [of 0] by (simp only: D bit_xor_iff bit_shift_one) simp
  next
    case (Suc n)
    show ?case
      using Suc.IH Suc.prems \<open>\<And>n. n < c \<Longrightarrow> \<not> bit (DownwardInvolution x) n\<close> [of "Suc n"]
      by (simp only: D bit_xor_iff bit_shift_one) (auto dest: bit_imp_le_length)
  qed
  have "y = 0"
    by (rule Suc.IH) (use Suc.prems(1,2) low y in auto)
  then show ?case by (simp add: x)
qed

section \<open>The highest bit\<close>

lemma builtin_clz_bit:
  fixes v :: "'a::len word"
  assumes "v \<noteq> 0"
  shows "builtin_clz v < LENGTH('a)" and "bit v (LENGTH('a) - 1 - builtin_clz v)"
    and "\<And>n. LENGTH('a) - 1 - builtin_clz v < n \<Longrightarrow> \<not> bit v n"
proof -
  let ?L = "LENGTH('a)" and ?xs = "rev [0..<LENGTH('a)]" and ?P = "\<lambda>n. \<not> bit v n"
  obtain k where k: "bit v k" "k < ?L"
    using assms by (metis bit_imp_le_length bit_eq_iff bit_0_eq bot_apply bot_bool_def)
  show less: "builtin_clz v < ?L"
    unfolding builtin_clz_def
  proof (rule ccontr)
    assume "\<not> length (takeWhile ?P ?xs) < ?L"
    then have "takeWhile ?P ?xs = ?xs"
      by (metis diff_zero length_rev length_takeWhile_le length_upt linorder_not_le nle_le
          takeWhile_eq_take take_all)
    then have "\<forall>n \<in> set ?xs. \<not> bit v n" by (metis set_takeWhileD)
    with k show False by auto
  qed
  have nth: "?xs ! i = ?L - 1 - i" if "i < ?L" for i
    using that by (simp add: rev_nth)
  show "bit v (?L - 1 - builtin_clz v)"
    using nth_length_takeWhile [of ?P ?xs] less nth [OF less] by (simp add: builtin_clz_def)
  fix n
  assume n: "?L - 1 - builtin_clz v < n"
  show "\<not> bit v n"
  proof (cases "n < ?L")
    case True
    then have "?L - 1 - n < length (takeWhile ?P ?xs)" using n by (simp add: builtin_clz_def)
    from takeWhile_nth [OF this] this nth_mem [OF this]
    have "?xs ! (?L - 1 - n) \<in> set (takeWhile ?P ?xs)" by simp
    then have "\<not> bit v (?xs ! (?L - 1 - n))" by (auto dest: set_takeWhileD)
    moreover have "?xs ! (?L - 1 - n) = n" using True by (subst nth) auto
    ultimately show ?thesis by simp
  qed (auto dest: bit_imp_le_length)
qed

definition top_bit :: "'a::len word \<Rightarrow> nat \<Rightarrow> bool" where
  "top_bit v h \<longleftrightarrow> bit v h \<and> (\<forall>n > h. \<not> bit v n)"

lemma top_bit_unique: "top_bit v h \<Longrightarrow> top_bit v k \<Longrightarrow> h = k"
  unfolding top_bit_def by (metis linorder_neqE_nat)

lemma top_bit_clz:
  fixes v :: "'a::len word"
  assumes "v \<noteq> 0" and "LENGTH('a) \<le> LENGTH('b::len)"
  shows "top_bit v (LENGTH('b) - 1 - builtin_clz (ucast v :: 'b word))"
proof -
  have b: "bit (ucast v :: 'b word) n \<longleftrightarrow> bit v n" for n
    using assms(2) by (auto simp: bit_simps dest: bit_imp_le_length)
  then have "(ucast v :: 'b word) \<noteq> 0"
    using assms(1) by (metis bit_eq_iff bit_0_eq bot_apply bot_bool_def)
  from builtin_clz_bit(2,3) [OF this] show ?thesis unfolding top_bit_def b by simp
qed

lemma FloorLog2_top_bit:
  fixes v :: "'a::len word"
  assumes "LENGTH('a) \<le> 64"
  shows "FloorLog2 v = (if v = 0 then None else Some (THE h. top_bit v h))"
proof (cases "v = 0")
  case False
  have "top_bit v h \<Longrightarrow> (THE h. top_bit v h) = h" for h
    by (rule the_equality) (auto intro: top_bit_unique)
  from this [OF top_bit_clz [OF False, where 'b = 32]] this [OF top_bit_clz [OF False, where 'b = 64]]
  show ?thesis using assms False by (simp add: FloorLog2_def word_gt_0)
qed (simp add: FloorLog2_def)

lemma top_bit_the: "top_bit v h \<Longrightarrow> (THE h. top_bit v h) = h"
  by (rule the_equality) (auto intro: top_bit_unique)

lemma top_bit_bounds:
  fixes v :: "'a::len word"
  assumes "top_bit v h"
  shows "2 ^ h \<le> unat v" and "unat v < 2 ^ Suc h"
proof -
  have "take_bit (Suc h) v = v"
    by (rule bit_word_eqI) (use assms in \<open>auto simp: top_bit_def bit_simps not_less_eq\<close>)
  then show "unat v < 2 ^ Suc h"
    by (metis take_bit_nat_less_exp unsigned_take_bit_eq)
  have "bit (unat v) h" using assms by (simp add: top_bit_def bit_unsigned_iff)
  then show "2 ^ h \<le> unat v" by (metis bit_iff_odd div_less even_zero not_le)
qed

lemma ConstexprFloorLog2_loop_top:
  "top_bit v h \<Longrightarrow> ConstexprFloorLog2_loop v rv = rv + h"
proof (induction v rv arbitrary: h rule: ConstexprFloorLog2_loop.induct)
  case (1 v rv)
  show ?case
  proof (cases "1 < v")
    case True
    have "h \<noteq> 0"
    proof
      assume "h = 0"
      with top_bit_bounds(2) [OF "1.prems"] True show False by (simp add: word_less_nat_alt)
    qed
    then have "top_bit (drop_bit 1 v) (h - 1)"
      using "1.prems" by (auto simp: top_bit_def bit_simps)
    from "1.IH" [OF True this] True \<open>h \<noteq> 0\<close> show ?thesis
      by (subst ConstexprFloorLog2_loop.simps) simp
  next
    case False
    then have "unat v \<le> 1" by (simp add: word_less_nat_alt)
    with top_bit_bounds(1) [OF "1.prems"] have "h = 0"
      by (metis le_trans one_less_numeral_iff power_le_one_iff semiring_norm(76) zero_less_numeral
          not_le one_less_power neq0_conv)
    with False show ?thesis by (subst ConstexprFloorLog2_loop.simps) simp
  qed
qed

lemma FloorLog2_DownwardInvolution: "FloorLog2 (DownwardInvolution v) = FloorLog2 (v :: u64)"
proof (cases "v = 0")
  case False
  then have D: "DownwardInvolution v \<noteq> 0"
    using DownwardInvolution_twice [of v] by (auto simp: DownwardInvolution_0)
  obtain h where h: "top_bit v h" using top_bit_clz [OF False, where 'b = 64] by auto
  then have "top_bit (DownwardInvolution v) h"
    using DownwardInvolution_above [of h v] by (auto simp: top_bit_def)
  with h D False show ?thesis by (simp add: FloorLog2_top_bit top_bit_the)
qed (simp add: DownwardInvolution_0)

lemma small_bits:
  fixes v :: "'a::len word"
  assumes "unat v < 2 ^ k" and "k \<le> n"
  shows "\<not> bit v n"
proof -
  have "unat v div 2 ^ n = 0" using assms by (meson div_less less_le_trans power_increasing one_le_numeral)
  then have "\<not> bit (unat v) n" by (simp add: bit_iff_odd)
  then show ?thesis by (simp add: bit_unsigned_iff)
qed

section \<open>Ranges\<close>

lemma high_half:
  fixes a b :: nat
  assumes "a < 2 ^ k" and "b < 2 ^ k"
  shows "a * b < 2 ^ (2 * k)" and "a * b div 2 ^ k < 2 ^ k"
proof -
  show less: "a * b < 2 ^ (2 * k)"
    using mult_strict_mono [OF assms] by (simp add: mult_2 power_add)
  then show "a * b div 2 ^ k < 2 ^ k"
    by (simp add: less_mult_imp_div_less mult_2 power_add)
qed

lemma unat_mult_high:
  fixes a b :: "'a::len word"
  assumes "unat a < 2 ^ k" and "unat b < 2 ^ k" and "LENGTH('a) = 2 * k" and "LENGTH('b::len) = k"
  shows "unat (ucast (drop_bit k (a * b)) :: 'b word) = unat a * unat b div 2 ^ k"
proof -
  note h = high_half [OF assms(1,2)]
  have "unat (a * b) = unat a * unat b" using h(1) assms(3) by (simp add: unat_mult_lem [symmetric])
  then have "unat (drop_bit k (a * b)) = unat a * unat b div 2 ^ k"
    by (simp add: unat_drop_bit_eq drop_bit_nat_def)
  then show ?thesis using h(2) assms(4) by (simp add: unsigned_ucast_eq take_bit_nat_eq_self)
qed

lemma FastRange32_value: "unat (FastRange32 hash rng) = unat hash * unat rng div 2 ^ 32"
proof -
  have u: "unat (ucast w :: u64) = unat w" for w :: u32 by (rule unat_ucast_up) simp
  have "unat (FastRange32 hash rng) = unat (ucast rng :: u64) * unat (ucast hash :: u64) div 2 ^ 32"
    unfolding FastRange32_def Let_def
    by (rule unat_mult_high) (simp_all only: u, use unsigned_less [of hash] unsigned_less [of rng] in simp_all)
  then show ?thesis by (simp only: u mult.commute)
qed

lemma FastRange64_wide_value: "unat (FastRange64_wide hash rng) = unat hash * unat rng div 2 ^ 64"
proof -
  have u: "unat (ucast w :: 128 word) = unat w" for w :: u64 by (rule unat_ucast_up) simp
  have "unat (FastRange64_wide hash rng) =
      unat (ucast rng :: 128 word) * unat (ucast hash :: 128 word) div 2 ^ 64"
    unfolding FastRange64_wide_def Let_def
    by (rule unat_mult_high) (simp_all only: u, use unsigned_less [of hash] unsigned_less [of rng] in simp_all)
  then show ?thesis by (simp only: u mult.commute)
qed

lemma scaled_less: "h < 2 ^ k \<Longrightarrow> 0 < r \<Longrightarrow> h * r div 2 ^ k < r" for h r k :: nat
  by (simp add: less_mult_imp_div_less)

lemma scaled_mono: "h \<le> h' \<Longrightarrow> h * r div 2 ^ k \<le> h' * r div 2 ^ k" for h h' r k :: nat
  by (intro div_le_mono mult_le_mono1)

section \<open>Order of bytes and bits\<close>

lemma nth_le_bytes: "i < n \<Longrightarrow> le_bytes n v ! i = ucast (drop_bit (8 * i) v)"
proof (induction n arbitrary: i v)
  case (Suc n)
  then show ?case by (cases i) (simp_all add: add.commute)
qed simp

definition swapped :: "nat \<Rightarrow> nat \<Rightarrow> nat" where
  "swapped n k = 8 * (n - 1 - k div 8) + k mod 8"

lemma bit_builtin_bswap:
  fixes v :: "'a::len word"
  assumes "LENGTH('a) = 8 * n" and "k < 8 * n"
  shows "bit (builtin_bswap v) k \<longleftrightarrow> bit v (swapped n k)"
proof -
  have k: "k div 8 < n" using assms(2) by (simp add: less_mult_imp_div_less)
  then have "rev (le_bytes n v) ! (k div 8) = ucast (drop_bit (8 * (n - 1 - k div 8)) v)"
    by (simp add: rev_nth nth_le_bytes)
  with assms k show ?thesis
    by (simp add: builtin_bswap_def bit_le_value swapped_def bit_simps)
qed

lemma bit_swap_term:
  fixes v :: "'a::len word"
  assumes "LENGTH('a) = 8 * n" and "k < 8 * n" and "i < n"
  shows "bit (push_bit (8 * (n - 1 - i)) (drop_bit (8 * i) v AND 0xff)) k \<longleftrightarrow>
    k div 8 = n - 1 - i \<and> bit v (swapped n k)"
proof -
  have ff: "bit (0xff :: 'a word) j \<longleftrightarrow> j < 8" if "j < LENGTH('a)" for j
  proof -
    have "(0xff :: 'a word) = mask 8" by (simp add: mask_eq_exp_minus_1)
    then show ?thesis using that by (simp only: bit_mask_iff) simp
  qed
  let ?j = "k - 8 * (n - 1 - i)"
  have j: "8 * (n - 1 - i) \<le> k \<and> ?j < 8 \<longleftrightarrow> k div 8 = n - 1 - i" by auto
  have s: "bit v (8 * i + ?j) \<longleftrightarrow> bit v (swapped n k)" if "k div 8 = n - 1 - i"
  proof -
    have "?j = k mod 8" using that minus_mult_div_eq_mod [of k 8] by simp
    moreover have "n - 1 - k div 8 = i" using that assms(3) by simp
    ultimately show ?thesis by (simp only: swapped_def)
  qed
  have "bit (0xff :: 'a word) ?j \<longleftrightarrow> ?j < 8" by (rule ff) (use assms in simp)
  moreover have "possible_bit TYPE('a word) k" using assms by simp
  ultimately show ?thesis
    using j s unfolding bit_push_bit_iff bit_and_iff bit_drop_bit_eq comp_def by blast
qed

lemma bit_EndianSwapValue_loop:
  fixes v :: "'a::len word"
  assumes "LENGTH('a) = 8 * n" and "k < 8 * n" and "set is \<subseteq> {..<n}"
  shows "bit (EndianSwapValue_loop is v r) k \<longleftrightarrow>
    bit r k \<or> (\<exists>i \<in> set is. k div 8 = n - 1 - i \<and> bit v (swapped n k))"
  using assms(3)
proof (induction "is" arbitrary: r)
  case (Cons i "is")
  then have "i < n" "set is \<subseteq> {..<n}" by auto
  moreover have "LENGTH('a) div 8 = n" using assms(1) by simp
  ultimately show ?case
    using Cons.IH bit_swap_term [OF assms(1,2), of i v] by (auto simp: bit_or_iff)
qed simp

lemma EndianSwapValue_bit:
  fixes v :: "'a::len word"
  assumes "LENGTH('a) = 8 * n" and "k < 8 * n"
  shows "bit (EndianSwapValue v) k \<longleftrightarrow> bit v (swapped n k)"
    and "bit (EndianSwapValue_loop [0..<n] v 0) k \<longleftrightarrow> bit v (swapped n k)"
proof -
  have "k div 8 < n" using assms(2) by (simp add: less_mult_imp_div_less)
  then have "n - 1 - k div 8 \<in> set [0..<n]" "k div 8 = n - 1 - (n - 1 - k div 8)" by auto
  then show l: "bit (EndianSwapValue_loop [0..<n] v 0) k \<longleftrightarrow> bit v (swapped n k)"
    by (subst bit_EndianSwapValue_loop [OF assms]) (auto simp: atLeast0LessThan)
  then show "bit (EndianSwapValue v) k \<longleftrightarrow> bit v (swapped n k)"
    using bit_builtin_bswap [OF assms] assms(1) by (simp add: EndianSwapValue_def)
qed

lemma EndianSwapValue_twice:
  fixes v :: "'a::len word"
  assumes "LENGTH('a) = 8 * n"
  shows "EndianSwapValue (EndianSwapValue v) = v"
proof (rule bit_word_eqI)
  fix k
  assume "k < LENGTH('a)"
  with assms have k: "k < 8 * n" by simp
  then have "k div 8 < n" by (simp add: less_mult_imp_div_less)
  then have s: "swapped n k < 8 * n" "swapped n (swapped n k) = k"
    by (auto simp: swapped_def)
  show "bit (EndianSwapValue (EndianSwapValue v)) k = bit v k"
    using EndianSwapValue_bit(1) [OF assms k] EndianSwapValue_bit(1) [OF assms s(1)] s(2) by simp
qed

definition swap_stage :: "nat \<Rightarrow> u64 \<Rightarrow> u64 \<Rightarrow> u64" where
  "swap_stage k m r = push_bit k (r AND m) OR (drop_bit k r AND m)"

definition flip :: "nat \<Rightarrow> nat \<Rightarrow> nat" where
  "flip j n = (if bit n j then n - 2 ^ j else n + 2 ^ j)"

lemma swap_stage_bit:
  assumes "n < 64" and "j < 6" and M: "\<And>n. n < 64 \<Longrightarrow> bit M n \<longleftrightarrow> \<not> bit n j"
  shows "bit (swap_stage (2 ^ j) M r) n \<longleftrightarrow> bit r (flip j n)"
proof (cases "bit n j")
  case True
  then have le: "2 ^ j \<le> n" by (metis bit_iff_odd div_less even_zero not_le)
  then have "\<not> bit (n - 2 ^ j) j" using True by (metis bit_iff_odd div_add_self2 even_add le_add_diff_inverse2
        odd_one power_not_zero zero_neq_numeral)
  with True le assms(1) M [of n] M [of "n - 2 ^ j"] show ?thesis
    by (auto simp: swap_stage_def flip_def bit_simps)
next
  case False
  have "\<not> bit M (n - 2 ^ j)" if "2 ^ j \<le> n"
  proof -
    have "bit (n - 2 ^ j) j" using False that by (metis bit_iff_odd div_add_self2 even_add le_add_diff_inverse2
        odd_one power_not_zero zero_neq_numeral)
    then show ?thesis using M [of "n - 2 ^ j"] assms(1) by simp
  qed
  with False assms(1) M [of n] show ?thesis
    by (auto simp: swap_stage_def flip_def bit_simps add.commute)
qed

lemma reverse_masks:
  assumes "n < 64"
  shows "bit (0x0f0f0f0f0f0f0f0f :: u64) n \<longleftrightarrow> \<not> bit n 2"
    and "bit (0x3333333333333333 :: u64) n \<longleftrightarrow> \<not> bit n 1"
    and "bit (0x5555555555555555 :: u64) n \<longleftrightarrow> \<not> bit n 0"
proof -
  have n: "n \<in> set [0..<64]" using assms by simp
  have "\<forall>n \<in> set [0..<64]. bit (0x0f0f0f0f0f0f0f0f :: u64) n \<longleftrightarrow> \<not> bit (n :: nat) 2" by code_simp
  then show "bit (0x0f0f0f0f0f0f0f0f :: u64) n \<longleftrightarrow> \<not> bit n 2" using n by (rule bspec)
  have "\<forall>n \<in> set [0..<64]. bit (0x3333333333333333 :: u64) n \<longleftrightarrow> \<not> bit (n :: nat) 1" by code_simp
  then show "bit (0x3333333333333333 :: u64) n \<longleftrightarrow> \<not> bit n 1" using n by (rule bspec)
  have "\<forall>n \<in> set [0..<64]. bit (0x5555555555555555 :: u64) n \<longleftrightarrow> \<not> bit (n :: nat) 0" by code_simp
  then show "bit (0x5555555555555555 :: u64) n \<longleftrightarrow> \<not> bit n 0" using n by (rule bspec)
qed

lemma ReverseBits_stages:
  "ReverseBits (v :: u64) =
     swap_stage 1 0x5555555555555555 (swap_stage 2 0x3333333333333333
       (swap_stage 4 0x0f0f0f0f0f0f0f0f (EndianSwapValue v)))"
proof -
  have "push_bit ((LENGTH(64) div 8 - 1) * 8) 1 OR (push_bit ((LENGTH(64) div 8 - 1) * 8) 1 div 255) =
      (0x0101010101010101 :: u64)" by simp
  moreover have "0x0101010101010101 * 0x0f = (0x0f0f0f0f0f0f0f0f :: u64)"
      "0x0101010101010101 * 0x33 = (0x3333333333333333 :: u64)"
      "0x0101010101010101 * 0x55 = (0x5555555555555555 :: u64)" by simp_all
  ultimately show ?thesis by (simp only: ReverseBits_def Let_def swap_stage_def)
qed

lemma reversed_index:
  "\<forall>n \<in> set [0..<64]. flip 0 n < 64 \<and> flip 1 (flip 0 n) < 64 \<and> flip 2 (flip 1 (flip 0 n)) < 64 \<and>
     swapped 8 (flip 2 (flip 1 (flip 0 n))) = 63 - n"
  by code_simp

lemma ReverseBits_bit:
  assumes "n < 64"
  shows "bit (ReverseBits (v :: u64)) n \<longleftrightarrow> bit v (63 - n)"
proof -
  have i: "flip 0 n < 64" "flip 1 (flip 0 n) < 64" "flip 2 (flip 1 (flip 0 n)) < 64"
      "swapped 8 (flip 2 (flip 1 (flip 0 n))) = 63 - n"
    using bspec [OF reversed_index, of n] assms by simp_all
  have s: "bit (swap_stage 1 0x5555555555555555 r) k \<longleftrightarrow> bit r (flip 0 k)"
      "bit (swap_stage 2 0x3333333333333333 r) k \<longleftrightarrow> bit r (flip 1 k)"
      "bit (swap_stage 4 0x0f0f0f0f0f0f0f0f r) k \<longleftrightarrow> bit r (flip 2 k)" if "k < 64" for k r
    using swap_stage_bit [of k 0, OF that _ reverse_masks(3)] swap_stage_bit [of k 1, OF that _ reverse_masks(2)]
      swap_stage_bit [of k 2, OF that _ reverse_masks(1)] by simp_all
  have "bit (EndianSwapValue v) k \<longleftrightarrow> bit v (swapped 8 k)" if "k < 64" for k
    using EndianSwapValue_bit(1) [of 8 k v] that by simp
  then show ?thesis unfolding ReverseBits_stages by (simp only: s i assms)
qed

section \<open>Properties\<close>

text \<open>
  C26. \<^verbatim>\<open>DownwardInvolution\<close> of a 64-bit value has the documented properties: it is its own inverse, it
  distributes over exclusive or, it keeps the position of the highest bit, and the \<open>b\<close> bottom bits of a value
  below two to the \<open>b + c\<close> together with the \<open>c\<close> bottom bits of its image determine the value. The comment claims the
  last for the \<open>b + c\<close> bottom bits of every value, which fails already for the values 0 and 3 with \<open>b = 0\<close> and
  \<open>c = 1\<close>.
\<close>

theorem downward_involution:
  fixes v w :: u64
  assumes "unat x < 2 ^ (b + c)" and "unat y < 2 ^ (b + c)" and "take_bit b x = take_bit b y"
    and "take_bit c (DownwardInvolution x) = take_bit c (DownwardInvolution (y :: u64))"
  shows "DownwardInvolution (DownwardInvolution v) = v \<and>
    DownwardInvolution (v XOR w) = DownwardInvolution v XOR DownwardInvolution w \<and>
    FloorLog2 (DownwardInvolution v) = FloorLog2 v \<and>
    x = y \<and>
    take_bit 1 (DownwardInvolution (3 :: u64)) = take_bit 1 (DownwardInvolution 0) \<and>
    take_bit 1 (3 :: u64) \<noteq> take_bit 1 0"
proof -
  have "x XOR y = 0"
  proof (rule DownwardInvolution_low_bits)
    show "\<not> bit (x XOR y) n" if "b + c \<le> n" for n
      using assms(1,2) that by (simp add: bit_xor_iff small_bits)
    show "\<not> bit (x XOR y) n" if "n < b" for n
      using arg_cong [OF assms(3), of "\<lambda>w. bit w n"] that by (simp add: bit_simps)
    show "\<not> bit (DownwardInvolution (x XOR y)) n" if "n < c" for n
      using arg_cong [OF assms(4), of "\<lambda>w. bit w n"] that
      by (simp add: DownwardInvolution_xor bit_simps)
  qed
  then have "x = y" by (simp add: bit_eq_iff bit_xor_iff)
  moreover have "DownwardInvolution (3 :: u64) = push_bit 1 (DownwardInvolution 1)"
    using DownwardInvolution_add_shift [of 1] by (simp add: bit_1_iff)
  moreover have "take_bit 1 (push_bit 1 r) = (0 :: u64)" for r by (simp only: take_bit_push_bit) simp
  moreover have "take_bit 1 (3 :: u64) \<noteq> 0" by simp
  ultimately show ?thesis
    by (simp only: DownwardInvolution_twice DownwardInvolution_xor DownwardInvolution_0
        FloorLog2_DownwardInvolution take_bit_of_0 simp_thms)
qed

theorem downward_involution_witness:
  "unat (5 :: u64) < 2 ^ (1 + 2) \<and> take_bit 1 (5 :: u64) = take_bit 1 5 \<and>
   DownwardInvolution (DownwardInvolution (77 :: u64)) = 77"
  using downward_involution [of 5 1 2 5 77 3] by simp

text \<open>
  C27. \<^verbatim>\<open>FastRange32\<close>, and \<^verbatim>\<open>FastRange64\<close> where the compiler has 128-bit integers, map a hash to the
  range in proportion: the result is the hash times the range divided by two to the width of the hash, it is below a
  nonzero range and monotone in the hash. The portable branch of \<^verbatim>\<open>FastRange64\<close> does not: it multiplies
  the lower half of the hash where the upper half is due and drops a shift, and for the hash 0xffffffff and
  the range 2 it gives 0x1ffffffff.
\<close>

theorem fast_range_in_range:
  assumes "0 < rng32" and "0 < rng" and "hash32 \<le> hash32'" and "hash \<le> hash'"
  shows "unat (FastRange32 hash32 rng32) = unat hash32 * unat rng32 div 2 ^ 32 \<and>
    FastRange32 hash32 rng32 < rng32 \<and> FastRange32 hash32 rng32 \<le> FastRange32 hash32' rng32 \<and>
    unat (FastRange64_wide hash rng) = unat hash * unat rng div 2 ^ 64 \<and>
    FastRange64_wide hash rng < rng \<and> FastRange64_wide hash rng \<le> FastRange64_wide hash' rng \<and>
    FastRange64 0xffffffff 2 = 0x1ffffffff"
proof -
  have "FastRange64 0xffffffff 2 = 0x1ffffffff" by (simp add: FastRange64_def Let_def)
  moreover have "unat hash32 < 2 ^ 32" "unat hash < 2 ^ 64"
    using unsigned_less [of hash32, where 'a = nat] unsigned_less [of hash, where 'a = nat] by simp_all
  ultimately show ?thesis
    using assms unfolding word_less_nat_alt word_le_nat_alt FastRange32_value FastRange64_wide_value
    by (intro conjI refl scaled_less scaled_mono) simp_all
qed

theorem fast_range_in_range_witness:
  "(0 :: u32) < 10 \<and> (0 :: u64) < 10 \<and> (0x80000000 :: u32) \<le> 0xffffffff \<and> (0 :: u64) \<le> 1 \<and>
   FastRange32 0x80000000 10 < 10"
  using fast_range_in_range [of 10 10 "0x80000000" "0xffffffff" 0 1] by simp


end
