(* ===== verification/Xiao_Hash.thy ===== *)
theory Xiao_Hash
  imports Xiao_Math
begin

text \<open>
  \<^verbatim>\<open>util/math128.h\<close> and \<^verbatim>\<open>util/hash.cc\<close>: 128-bit integers as pairs of 64-bit ones (the branch that is compiled
  without \<^verbatim>\<open>HAVE_UINT128_EXTENSION\<close>, which nothing in the sources defines), the 32-bit hash and the
  bijective hash of pairs of 64-bit integers with its inverse.
\<close>

section \<open>128-bit integers\<close>

record Unsigned128 =
  u_lo :: u64
  u_hi :: u64

definition U128_of :: "u64 \<Rightarrow> Unsigned128" where
  "U128_of lower = \<lparr>u_lo = lower, u_hi = 0\<rparr>"

definition U128_pair :: "u64 \<Rightarrow> u64 \<Rightarrow> Unsigned128" where
  "U128_pair lower upper = \<lparr>u_lo = lower, u_hi = upper\<rparr>"

definition U128_shl :: "Unsigned128 \<Rightarrow> u32 \<Rightarrow> Unsigned128" where
  "U128_shl lhs shift0 =
     (let shift = unat (shift0 AND 127)
      in if 64 \<le> shift
         then \<lparr>u_lo = 0, u_hi = push_bit (unat ((shift0 AND 127) AND 63)) (u_lo lhs)\<rparr>
         else (let tmp = u_lo lhs;
                   tmp' = drop_bit (63 - shift) (drop_bit 1 tmp)
               in \<lparr>u_lo = push_bit shift tmp, u_hi = tmp' OR push_bit shift (u_hi lhs)\<rparr>))"

definition U128_and :: "Unsigned128 \<Rightarrow> Unsigned128 \<Rightarrow> Unsigned128" where
  "U128_and lhs rhs = U128_pair (u_lo lhs AND u_lo rhs) (u_hi lhs AND u_hi rhs)"

definition U128_or :: "Unsigned128 \<Rightarrow> Unsigned128 \<Rightarrow> Unsigned128" where
  "U128_or lhs rhs = U128_pair (u_lo lhs OR u_lo rhs) (u_hi lhs OR u_hi rhs)"

definition U128_xor :: "Unsigned128 \<Rightarrow> Unsigned128 \<Rightarrow> Unsigned128" where
  "U128_xor lhs rhs = U128_pair (u_lo lhs XOR u_lo rhs) (u_hi lhs XOR u_hi rhs)"

definition U128_not :: "Unsigned128 \<Rightarrow> Unsigned128" where
  "U128_not v = U128_pair (NOT (u_lo v)) (NOT (u_hi v))"

definition U128_eq :: "Unsigned128 \<Rightarrow> Unsigned128 \<Rightarrow> bool" where
  "U128_eq lhs rhs \<longleftrightarrow> u_lo lhs = u_lo rhs \<and> u_hi lhs = u_hi rhs"

definition U128_ne :: "Unsigned128 \<Rightarrow> Unsigned128 \<Rightarrow> bool" where
  "U128_ne lhs rhs \<longleftrightarrow> u_lo lhs \<noteq> u_lo rhs \<or> u_hi lhs \<noteq> u_hi rhs"

definition U128_gt :: "Unsigned128 \<Rightarrow> Unsigned128 \<Rightarrow> bool" where
  "U128_gt lhs rhs \<longleftrightarrow> u_hi rhs < u_hi lhs \<or> (u_hi lhs = u_hi rhs \<and> u_lo rhs < u_lo lhs)"

definition U128_lt :: "Unsigned128 \<Rightarrow> Unsigned128 \<Rightarrow> bool" where
  "U128_lt lhs rhs \<longleftrightarrow> u_hi lhs < u_hi rhs \<or> (u_hi lhs = u_hi rhs \<and> u_lo lhs < u_lo rhs)"

definition U128_ge :: "Unsigned128 \<Rightarrow> Unsigned128 \<Rightarrow> bool" where
  "U128_ge lhs rhs \<longleftrightarrow> u_hi rhs < u_hi lhs \<or> (u_hi lhs = u_hi rhs \<and> u_lo rhs \<le> u_lo lhs)"

definition U128_le :: "Unsigned128 \<Rightarrow> Unsigned128 \<Rightarrow> bool" where
  "U128_le lhs rhs \<longleftrightarrow> u_hi lhs < u_hi rhs \<or> (u_hi lhs = u_hi rhs \<and> u_lo lhs \<le> u_lo rhs)"

definition Lower64of128 :: "Unsigned128 \<Rightarrow> u64" where
  "Lower64of128 v = u_lo v"

definition Upper64of128 :: "Unsigned128 \<Rightarrow> u64" where
  "Upper64of128 v = u_hi v"

definition Multiply64to128 :: "u64 \<Rightarrow> u64 \<Rightarrow> Unsigned128" where
  "Multiply64to128 a b =
     (let tmp = (b AND 0xffffFFFF) * (a AND 0xffffFFFF);
          lower = tmp AND 0xffffFFFF;
          tmp = drop_bit 32 tmp;
          tmp = tmp + (b AND 0xffffFFFF) * drop_bit 32 a;
          tmp2 = drop_bit 32 b * (a AND 0xffffFFFF);
          tmp = tmp + (tmp2 AND 0xffffFFFF);
          lower = lower OR push_bit 32 tmp;
          tmp = drop_bit 32 tmp;
          tmp = tmp + drop_bit 32 tmp2;
          tmp = tmp + drop_bit 32 b * drop_bit 32 a
      in U128_pair lower tmp)"

definition BottomNBits_128 :: "Unsigned128 \<Rightarrow> nat \<Rightarrow> Unsigned128 option" where
  "BottomNBits_128 v nbits =
     (if nbits < 64
      then map_option U128_of (BottomNBits (Lower64of128 v) nbits)
      else map_option (\<lambda>h. U128_or (U128_shl (U128_of h) 64) (U128_of (Lower64of128 v)))
             (BottomNBits (Upper64of128 v) (nbits - 64)))"

definition FloorLog2_128 :: "Unsigned128 \<Rightarrow> nat option" where
  "FloorLog2_128 v =
     (if Upper64of128 v = 0 then FloorLog2 (Lower64of128 v)
      else map_option (\<lambda>r. r + 64) (FloorLog2 (Upper64of128 v)))"

definition CountTrailingZeroBits_128 :: "Unsigned128 \<Rightarrow> nat option" where
  "CountTrailingZeroBits_128 v =
     (if Lower64of128 v \<noteq> 0 then CountTrailingZeroBits (Lower64of128 v)
      else map_option (\<lambda>r. r + 64) (CountTrailingZeroBits (Upper64of128 v)))"

definition BitsSetToOne_128 :: "Unsigned128 \<Rightarrow> nat" where
  "BitsSetToOne_128 v = BitsSetToOne (Lower64of128 v) + BitsSetToOne (Upper64of128 v)"

definition BitParity_128 :: "Unsigned128 \<Rightarrow> nat" where
  "BitParity_128 v = BitParity (Lower64of128 v XOR Upper64of128 v)"

definition EndianSwapValue_128 :: "Unsigned128 \<Rightarrow> Unsigned128" where
  "EndianSwapValue_128 v =
     U128_or (U128_shl (U128_of (EndianSwapValue (Lower64of128 v))) 64)
       (U128_of (EndianSwapValue (Upper64of128 v)))"

definition ReverseBits_128 :: "Unsigned128 \<Rightarrow> Unsigned128" where
  "ReverseBits_128 v =
     U128_or (U128_shl (U128_of (ReverseBits (Lower64of128 v))) 64)
       (U128_of (ReverseBits (Upper64of128 v)))"

definition DownwardInvolution_128 :: "Unsigned128 \<Rightarrow> Unsigned128" where
  "DownwardInvolution_128 v =
     U128_or (U128_shl (U128_of (DownwardInvolution (Upper64of128 v))) 64)
       (U128_of (DownwardInvolution (Upper64of128 v XOR Lower64of128 v)))"

definition EncodeFixed128 :: "Unsigned128 \<Rightarrow> bytes" where
  "EncodeFixed128 value = EncodeFixed64 (Lower64of128 value) @ EncodeFixed64 (Upper64of128 value)"

definition DecodeFixed128 :: "bytes \<Rightarrow> Unsigned128" where
  "DecodeFixed128 ptr =
     (let rv = U128_of (DecodeFixed64 (drop 8 ptr))
      in U128_or (U128_shl rv 64) (U128_of (DecodeFixed64 ptr)))"

section \<open>Hashes\<close>

definition Upper32of64 :: "u64 \<Rightarrow> u32" where
  "Upper32of64 v = ucast (drop_bit 32 v)"

definition Lower32of64 :: "u64 \<Rightarrow> u32" where
  "Lower32of64 v = ucast v"

text \<open>
  \<^verbatim>\<open>Hash\<close>: whole words of the input are mixed in one after the other; a rest of up to three bytes, sign
  extended, is added at the end.
\<close>

definition Hash_word :: "u32 \<Rightarrow> u32 \<Rightarrow> u32" where
  "Hash_word h w =
     (let h = h + w;
          h = h * 0xc6a4a793
      in h XOR drop_bit 16 h)"

definition Hash_tail :: "u32 \<Rightarrow> bytes \<Rightarrow> u32" where
  "Hash_tail h data =
     (let h = if length data = 3 then h + push_bit 16 (scast (data ! 2)) else h;
          h = if length data = 3 \<or> length data = 2 then h + push_bit 8 (scast (data ! 1)) else h
      in if length data = 3 \<or> length data = 2 \<or> length data = 1
         then let h = h + scast (data ! 0);
                  h = h * 0xc6a4a793
              in h XOR drop_bit 24 h
         else h)"

fun Hash_loop :: "u32 \<Rightarrow> bytes \<Rightarrow> u32" where
  "Hash_loop h data =
     (if 4 \<le> length data then Hash_loop (Hash_word h (DecodeFixed32 data)) (drop 4 data)
      else Hash_tail h data)"

declare Hash_loop.simps [simp del]

definition Hash :: "bytes \<Rightarrow> u32 \<Rightarrow> u32" where
  "Hash data seed = Hash_loop (ucast (ucast seed XOR (of_nat (length data) * 0xc6a4a793) :: u64)) data"

definition XXH3_avalanche :: "u64 \<Rightarrow> u64" where
  "XXH3_avalanche h64 =
     (let h64 = h64 XOR drop_bit 37 h64;
          h64 = h64 * 0x165667919E3779F9
      in h64 XOR drop_bit 32 h64)"

definition XXH3_unavalanche :: "u64 \<Rightarrow> u64" where
  "XXH3_unavalanche h64 =
     (let h64 = h64 XOR drop_bit 32 h64;
          h64 = h64 * 0x8da8ee41d6df849
      in h64 XOR drop_bit 37 h64)"

text \<open>The result of the two functions is the pair of the high and the low output.\<close>

definition BijectiveHash2x64 :: "u64 \<Rightarrow> u64 \<Rightarrow> u64 \<Rightarrow> u64 \<times> u64" where
  "BijectiveHash2x64 in_high64 in_low64 seed =
     (let bitflipl = 0x59973f0033362349 - seed;
          bitfliph = 0xc202797692d63d58 + seed;
          tmp128 = Multiply64to128 (in_low64 XOR in_high64 XOR bitflipl) 0x9E3779B185EBCA87;
          lo = Lower64of128 tmp128;
          hi = Upper64of128 tmp128;
          lo = lo + 0x3c0000000000000;
          in_high64 = in_high64 XOR bitfliph;
          hi = hi + (in_high64 + ucast (Lower32of64 in_high64) * 0x85EBCA76);
          lo = lo XOR EndianSwapValue hi;
          tmp128 = Multiply64to128 lo 0xC2B2AE3D27D4EB4F;
          lo = Lower64of128 tmp128;
          hi = Upper64of128 tmp128 + hi * 0xC2B2AE3D27D4EB4F
      in (XXH3_avalanche hi, XXH3_avalanche lo))"

definition BijectiveUnhash2x64 :: "u64 \<Rightarrow> u64 \<Rightarrow> u64 \<Rightarrow> u64 \<times> u64" where
  "BijectiveUnhash2x64 in_high64 in_low64 seed =
     (let bitflipl = 0x59973f0033362349 - seed;
          bitfliph = 0xc202797692d63d58 + seed;
          lo = XXH3_unavalanche in_low64;
          hi = XXH3_unavalanche in_high64;
          lo = lo * 0xba79078168d4baf;
          hi = hi - Upper64of128 (Multiply64to128 lo 0xC2B2AE3D27D4EB4F);
          hi = hi * 0xba79078168d4baf;
          lo = lo XOR EndianSwapValue hi;
          lo = lo - 0x3c0000000000000;
          lo = lo * 0x887493432badb37;
          hi = hi - Upper64of128 (Multiply64to128 lo 0x9E3779B185EBCA87);
          tmp32 = Lower32of64 hi * 0xb6c92f47;
          hi = hi - ucast tmp32;
          hi = (hi AND 0xFFFFFFFF00000000)
               - ((ucast tmp32 * 0x85EBCA76) AND 0xFFFFFFFF00000000) + ucast tmp32;
          hi = hi XOR bitfliph;
          lo = lo XOR (hi XOR bitflipl)
      in (hi, lo))"

definition BijectiveHash2x64_unseeded :: "u64 \<Rightarrow> u64 \<Rightarrow> u64 \<times> u64" where
  "BijectiveHash2x64_unseeded in_high64 in_low64 = BijectiveHash2x64 in_high64 in_low64 0"

definition BijectiveUnhash2x64_unseeded :: "u64 \<Rightarrow> u64 \<Rightarrow> u64 \<times> u64" where
  "BijectiveUnhash2x64_unseeded in_high64 in_low64 = BijectiveUnhash2x64 in_high64 in_low64 0"

section \<open>Pairs as 128-bit words\<close>

definition u128 :: "Unsigned128 \<Rightarrow> 128 word" where
  "u128 v = push_bit 64 (ucast (u_hi v)) OR ucast (u_lo v)"

lemma bit_u128: "bit (u128 v) n \<longleftrightarrow> (if n < 64 then bit (u_lo v) n else bit (u_hi v) (n - 64))"
  unfolding u128_def by (auto simp: bit_simps dest: bit_imp_le_length)

lemma u128_inject: "u128 v = u128 w \<longleftrightarrow> v = w"
proof
  assume e: "u128 v = u128 w"
  have "bit (u_lo v) n = bit (u_lo w) n" if "n < 64" for n
    using arg_cong [OF e, of "\<lambda>x. bit x n"] that by (simp add: bit_u128)
  moreover have "bit (u_hi v) n = bit (u_hi w) n" if "n < 64" for n
    using arg_cong [OF e, of "\<lambda>x. bit x (n + 64)"] that by (simp add: bit_u128)
  ultimately have "u_lo v = u_lo w" "u_hi v = u_hi w"
    by (auto intro!: bit_word_eqI)
  then show "v = w" by simp
qed simp

lemma u128_shl: "u128 (U128_shl v s) = push_bit (unat (s AND 127)) (u128 v)"
proof (rule bit_word_eqI)
  fix n
  assume "n < LENGTH(128)"
  then have n: "n < 128" by simp
  define k where "k = unat (s AND 127)"
  have m: "unat ((s AND 127) AND 63) = k mod 64"
  proof -
    have "(63 :: u32) = mask 6" by (simp add: mask_eq_exp_minus_1)
    then have "(s AND 127) AND 63 = take_bit 6 (s AND 127)" by (simp only: take_bit_eq_mask)
    then show ?thesis by (simp only: k_def unsigned_take_bit_eq take_bit_nat_def) simp
  qed
  have k: "k < 128"
  proof -
    have "s AND 127 = take_bit 7 s" by (simp add: take_bit_eq_mask mask_eq_exp_minus_1)
    then have "k = unat s mod 2 ^ 7" by (simp add: k_def unsigned_take_bit_eq take_bit_nat_def)
    then show ?thesis by simp
  qed
  have lo: "bit (u_lo (U128_shl v s)) j \<longleftrightarrow> j < 64 \<and> k \<le> j \<and> bit (u_lo v) (j - k)"
    and hi: "bit (u_hi (U128_shl v s)) j \<longleftrightarrow> j < 64 \<and> k \<le> j + 64 \<and>
      (if j + 64 - k < 64 then bit (u_lo v) (j + 64 - k) else bit (u_hi v) (j - k))" for j
  proof -
    have "k < 64 \<Longrightarrow> Suc (63 + j - k) = j + 64 - k" by simp
    then show "bit (u_lo (U128_shl v s)) j \<longleftrightarrow> j < 64 \<and> k \<le> j \<and> bit (u_lo v) (j - k)"
      and "bit (u_hi (U128_shl v s)) j \<longleftrightarrow> j < 64 \<and> k \<le> j + 64 \<and>
        (if j + 64 - k < 64 then bit (u_lo v) (j + 64 - k) else bit (u_hi v) (j - k))"
      using k unfolding U128_shl_def Let_def m k_def [symmetric]
      by (cases "k < 64"; auto simp: bit_simps mod_if [of k] dest: bit_imp_le_length)+
  qed
  show "bit (u128 (U128_shl v s)) n = bit (push_bit (unat (s AND 127)) (u128 v)) n"
    unfolding bit_u128 bit_push_bit_iff lo hi k_def [symmetric]
    using n by (auto simp: add.commute)
qed

lemma u128_bitwise:
  "u128 (U128_and v w) = u128 v AND u128 w"
  "u128 (U128_or v w) = u128 v OR u128 w"
  "u128 (U128_xor v w) = u128 v XOR u128 w"
  "u128 (U128_not v) = NOT (u128 v)"
  by (rule bit_word_eqI, auto simp: bit_u128 bit_simps U128_and_def U128_or_def U128_xor_def
      U128_not_def U128_pair_def)+

lemma unat_u128: "unat (u128 v) = unat (u_hi v) * 2 ^ 64 + unat (u_lo v)"
proof -
  have "bit (unat (u128 v)) n \<longleftrightarrow> bit (push_bit 64 (unat (u_hi v)) OR unat (u_lo v)) n" for n
  proof -
    have "bit (unat (u128 v)) n \<longleftrightarrow> bit (u128 v) n" by (simp add: bit_unsigned_iff)
    then show ?thesis
      by (auto simp: bit_u128 bit_or_iff bit_push_bit_iff bit_unsigned_iff dest: bit_imp_le_length)
  qed
  then have "unat (u128 v) = push_bit 64 (unat (u_hi v)) OR unat (u_lo v)" by (simp add: bit_eq_iff)
  also have "\<dots> = push_bit 64 (unat (u_hi v)) + unat (u_lo v)"
    by (rule disjunctive_add [symmetric])
      (auto simp: bit_push_bit_iff bit_unsigned_iff dest: bit_imp_le_length)
  finally show ?thesis by (simp add: push_bit_eq_mult)
qed

lemma two_digits_less:
  fixes l l' h h' b :: nat
  assumes "l < b" and "l' < b"
  shows "h * b + l < h' * b + l' \<longleftrightarrow> h < h' \<or> h = h' \<and> l < l'"
proof (cases h h' rule: linorder_cases)
  case less
  then have "(h + 1) * b \<le> h' * b" by (intro mult_le_mono1) simp
  with less assms(1) show ?thesis by simp
next
  case greater
  then have "(h' + 1) * b \<le> h * b" by (intro mult_le_mono1) simp
  with greater assms(2) show ?thesis by simp
qed simp

lemma u128_order:
  "U128_lt v w \<longleftrightarrow> u128 v < u128 w" "U128_gt v w \<longleftrightarrow> u128 w < u128 v"
  "U128_le v w \<longleftrightarrow> u128 v \<le> u128 w" "U128_ge v w \<longleftrightarrow> u128 w \<le> u128 v"
proof -
  have lt: "u128 v < u128 w \<longleftrightarrow> u_hi v < u_hi w \<or> u_hi v = u_hi w \<and> u_lo v < u_lo w" for v w
    unfolding word_less_nat_alt unat_u128 two_digits_less [OF unat_u64_less unat_u64_less]
    by (simp add: word_unat_eq_iff)
  show "U128_lt v w \<longleftrightarrow> u128 v < u128 w" "U128_gt v w \<longleftrightarrow> u128 w < u128 v"
    "U128_le v w \<longleftrightarrow> u128 v \<le> u128 w" "U128_ge v w \<longleftrightarrow> u128 w \<le> u128 v"
    unfolding not_less [symmetric] lt U128_lt_def U128_gt_def U128_le_def U128_ge_def by auto
qed

lemma unat_low_half: "unat (x AND 0xffffFFFF :: u64) = unat x mod 2 ^ 32"
proof -
  have "(0xffffFFFF :: u64) = mask 32" by (simp add: mask_eq_exp_minus_1)
  then have "x AND 0xffffFFFF = take_bit 32 x" by (simp only: take_bit_eq_mask)
  then show ?thesis by (simp only: unsigned_take_bit_eq take_bit_nat_def)
qed

lemma unat_high_half: "unat (drop_bit 32 x :: u64) = unat x div 2 ^ 32"
  by (simp add: unat_drop_bit_eq drop_bit_nat_def)

lemma unat_halves:
  "unat ((x AND 0xffffFFFF) OR push_bit 32 y :: u64) = unat x mod 2 ^ 32 + 2 ^ 32 * (unat y mod 2 ^ 32)"
proof -
  have "(0xffffFFFF :: u64) = mask 32" by (simp add: mask_eq_exp_minus_1)
  then have m: "x AND 0xffffFFFF = take_bit 32 x" by (simp only: take_bit_eq_mask)
  have "unat ((x AND 0xffffFFFF) OR push_bit 32 y) =
      take_bit 32 (unat x) OR push_bit 32 (take_bit 32 (unat y))"
    unfolding m by (simp add: unsigned_or_eq unsigned_take_bit_eq unsigned_push_bit_eq take_bit_push_bit)
  also have "\<dots> = take_bit 32 (unat x) + push_bit 32 (take_bit 32 (unat y))"
    by (rule disjunctive_add [symmetric]) (auto simp: bit_take_bit_iff bit_push_bit_iff)
  finally show ?thesis by (simp only: take_bit_nat_def push_bit_nat_def mult.commute)
qed

text \<open>Long multiplication in base \<open>L\<close>, in the order of the code.\<close>

lemma long_multiplication:
  fixes al ah bl bh L :: nat
  defines "t \<equiv> bl * al div L + bl * ah + bh * al mod L"
  shows "(t div L + bh * al div L + bh * ah) * (L * L) + (bl * al mod L + L * (t mod L)) =
    (ah * L + al) * (bh * L + bl)"
proof -
  have "(x + bh * al div L + bh * ah) * (L * L) + (bl * al mod L + L * y) =
      L * (x * L + y) + L * (bh * al div L * L) + bh * ah * (L * L) + bl * al mod L" for x y
    by (simp add: algebra_simps)
  then have "(t div L + bh * al div L + bh * ah) * (L * L) + (bl * al mod L + L * (t mod L)) =
      L * t + L * (bh * al div L * L) + bh * ah * (L * L) + bl * al mod L"
    by (simp only: div_mult_mod_eq)
  also have "\<dots> = (bl * al div L * L + bl * al mod L) + L * (bh * al div L * L + bh * al mod L) +
      L * (bl * ah) + bh * ah * (L * L)"
    unfolding t_def by (simp only: algebra_simps)
  also have "\<dots> = (ah * L + al) * (bh * L + bl)"
    unfolding div_mult_mod_eq by (simp add: algebra_simps)
  finally show ?thesis .
qed

lemma long_multiplication_bounds:
  fixes al ah bl bh L :: nat
  defines "t \<equiv> bl * al div L + bl * ah + bh * al mod L"
  assumes "al < L" "ah < L" "bl < L" "bh < L"
  shows "t < L * L" and "t div L + bh * al div L + bh * ah < L * L"
proof -
  have p: "x * y \<le> (L - 1) * (L - 1)" if "x < L" "y < L" for x y
    using that by (intro mult_le_mono) simp_all
  have "bl * al < L * L" using assms by (intro mult_strict_mono) auto
  then have "bl * al div L \<le> L - 1" using less_mult_imp_div_less [of "bl * al" L L] by simp
  moreover have "bh * al mod L \<le> L - 1" using assms by (simp add: Suc_leI less_Suc_eq_le [symmetric])
  moreover have "(L - 1) * (L - 1) + 2 * (L - 1) < L * L"
    using assms by (cases L) (auto simp: algebra_simps)
  ultimately show "t < L * L" using p [OF assms(4,3)] unfolding t_def by linarith
  have "(ah * L + al) < L * L" "bh * L + bl < L * L"
    using two_digits_less [of al L 0 ah L] two_digits_less [of bl L 0 bh L] assms by simp_all
  then have "(ah * L + al) * (bh * L + bl) < L * L * (L * L)"
    using assms(2) by (intro mult_strict_mono) auto
  then have "(t div L + bh * al div L + bh * ah) * (L * L) < L * L * (L * L)"
    using long_multiplication [of bl al L ah bh] unfolding t_def by linarith
  then show "t div L + bh * al div L + bh * ah < L * L" by simp
qed

lemma unat_mult_u64: "unat x * unat y < 2 ^ 64 \<Longrightarrow> unat (x * y) = unat x * unat (y :: u64)"
  by (simp add: unat_mult_lem [symmetric])

lemma unat_add_u64: "unat x + unat y < 2 ^ 64 \<Longrightarrow> unat (x + y) = unat x + unat (y :: u64)"
  by (simp add: unat_add_lem [symmetric])

lemma Multiply64to128_product:
  "unat (u_hi (Multiply64to128 a b)) * 2 ^ 64 + unat (u_lo (Multiply64to128 a b)) = unat a * unat b"
proof -
  define L where "L = (2 :: nat) ^ 32"
  have LL: "L * L = 2 ^ 64" by (simp add: L_def)
  define al where "al = a AND 0xffffFFFF"
  define ah where "ah = drop_bit 32 a"
  define bl where "bl = b AND 0xffffFFFF"
  define bh where "bh = drop_bit 32 b"
  define tmp where "tmp = drop_bit 32 (bl * al) + bl * ah + ((bh * al) AND 0xffffFFFF)"
  have less: "unat al < L" "unat ah < L" "unat bl < L" "unat bh < L"
    unfolding al_def ah_def bl_def bh_def unat_low_half unat_high_half L_def
    using unat_u64_less [of a] unat_u64_less [of b] by (simp_all add: less_mult_imp_div_less)
  have mul: "unat (x * y) = unat x * unat y" if "unat x < L" "unat y < L" for x y :: u64
    using mult_strict_mono [OF that] that LL by (intro unat_mult_u64) simp
  note bounds = long_multiplication_bounds [OF less, unfolded LL]
  have t1: "unat (drop_bit 32 (bl * al)) = unat bl * unat al div L"
    by (simp only: unat_high_half mul less L_def [symmetric])
  have t2: "unat ((bh * al) AND 0xffffFFFF) = unat bh * unat al mod L"
    by (simp only: unat_low_half mul less L_def [symmetric])
  have "unat (drop_bit 32 (bl * al) + bl * ah) = unat bl * unat al div L + unat bl * unat ah"
    using bounds(1) by (subst unat_add_u64) (simp_all add: t1 mul less)
  then have tmp: "unat tmp = unat bl * unat al div L + unat bl * unat ah + unat bh * unat al mod L"
    using bounds(1) unfolding tmp_def by (subst unat_add_u64) (simp_all add: t2)
  have lo: "unat ((bl * al) AND 0xffffFFFF OR push_bit 32 tmp) =
      unat bl * unat al mod L + L * (unat tmp mod L)"
    by (simp only: unat_halves mul less L_def [symmetric])
  have "unat (drop_bit 32 tmp + drop_bit 32 (bh * al)) = unat tmp div L + unat bh * unat al div L"
  proof -
    have "unat (drop_bit 32 tmp) = unat tmp div L" "unat (drop_bit 32 (bh * al)) = unat bh * unat al div L"
      by (simp_all only: unat_high_half mul less L_def [symmetric])
    then show ?thesis using bounds(2) unfolding tmp [symmetric] by (subst unat_add_u64) simp_all
  qed
  then have hi: "unat (drop_bit 32 tmp + drop_bit 32 (bh * al) + bh * ah) =
      unat tmp div L + unat bh * unat al div L + unat bh * unat ah"
    using bounds(2) unfolding tmp [symmetric] by (subst unat_add_u64) (simp_all add: mul less)
  have "Multiply64to128 a b = U128_pair ((bl * al) AND 0xffffFFFF OR push_bit 32 tmp)
      (drop_bit 32 tmp + drop_bit 32 (bh * al) + bh * ah)"
    unfolding Multiply64to128_def Let_def tmp_def al_def ah_def bl_def bh_def by (rule refl)
  then have "unat (u_hi (Multiply64to128 a b)) * 2 ^ 64 + unat (u_lo (Multiply64to128 a b)) =
      (unat tmp div L + unat bh * unat al div L + unat bh * unat ah) * (L * L) +
      (unat bl * unat al mod L + L * (unat tmp mod L))"
    by (simp only: U128_pair_def Unsigned128.simps lo hi LL)
  also have "\<dots> = (unat ah * L + unat al) * (unat bh * L + unat bl)"
    unfolding tmp by (rule long_multiplication)
  also have "\<dots> = unat a * unat b"
    unfolding al_def ah_def bl_def bh_def unat_low_half unat_high_half L_def [symmetric] by simp
  finally show ?thesis .
qed

lemma Multiply64to128_halves:
  shows Multiply64to128_lower: "Lower64of128 (Multiply64to128 a b) = a * b"
    and Multiply64to128_u128: "u128 (Multiply64to128 a b) = ucast a * ucast b"
proof -
  let ?p = "Multiply64to128 a b"
  have "unat (a * b) = (unat (u_hi ?p) * 2 ^ 64 + unat (u_lo ?p)) mod 2 ^ 64"
    unfolding Multiply64to128_product by (simp add: unat_word_ariths)
  also have "\<dots> = unat (u_lo ?p)" using unat_u64_less [of "u_lo ?p"] by simp
  finally show "Lower64of128 ?p = a * b" by (simp add: Lower64of128_def word_unat_eq_iff)
  have u: "unat (ucast w :: 128 word) = unat w" for w :: u64 by (rule unat_ucast_up) simp
  have "unat a * unat b < 2 ^ 128"
    using mult_strict_mono [OF unat_u64_less [of a] unat_u64_less [of b]] by simp
  then have "unat (ucast a * ucast b :: 128 word) = unat a * unat b"
    by (simp add: u unat_word_ariths)
  then show "u128 ?p = ucast a * ucast b"
    by (simp only: word_unat_eq_iff unat_u128 Multiply64to128_product)
qed

section \<open>Functions of pairs\<close>

lemma u128_concat: "u128 (U128_or (U128_shl (U128_of h) 64) (U128_of l)) = u128 (U128_pair l h)"
  by (rule bit_word_eqI) (auto simp: u128_bitwise u128_shl bit_u128 bit_simps U128_of_def U128_pair_def)

lemma U128_concat: "U128_or (U128_shl (U128_of h) 64) (U128_of l) = U128_pair l h"
  using u128_concat by (simp only: u128_inject)

lemma U128_pair_sel: "u_lo (U128_pair l h) = l" "u_hi (U128_pair l h) = h"
  by (simp_all add: U128_pair_def)

lemma U128_cases: "U128_pair (u_lo v) (u_hi v) = v"
  by (simp add: U128_pair_def)

lemma fixed128_roundtrip: "DecodeFixed128 (EncodeFixed128 v @ rest) = v"
  by (simp add: DecodeFixed128_def EncodeFixed128_def U128_concat Lower64of128_def Upper64of128_def
      DecodeFixed64_def EncodeFixed64_def kLittleEndian_def U128_cases)

lemma BottomNBits_take:
  fixes v :: "'a::len word"
  shows "n < LENGTH('a) \<Longrightarrow> BottomNBits v n = Some (take_bit n v)"
  by (simp add: BottomNBits_def take_bit_eq_mask mask_eq_exp_minus_1 push_bit_eq_mult)

lemma BottomNBits_128_take:
  assumes "n < 128"
  shows "map_option u128 (BottomNBits_128 v n) = Some (take_bit n (u128 v))"
proof (cases "n < 64")
  case True
  then have "u128 (U128_of (take_bit n (u_lo v))) = take_bit n (u128 v)"
    by - (rule bit_word_eqI, auto simp: bit_u128 U128_of_def bit_simps)
  with True show ?thesis by (simp add: BottomNBits_128_def BottomNBits_take Lower64of128_def)
next
  case False
  with assms have "u128 (U128_pair (u_lo v) (take_bit (n - 64) (u_hi v))) = take_bit n (u128 v)"
    by - (rule bit_word_eqI, auto simp: bit_u128 U128_pair_def bit_simps)
  with False assms show ?thesis
    by (simp add: BottomNBits_128_def BottomNBits_take U128_concat Lower64of128_def Upper64of128_def)
qed

lemma FloorLog2_128_bit:
  assumes "v \<noteq> U128_of 0"
  shows "\<exists>h. FloorLog2_128 v = Some h \<and> top_bit (u128 v) h"
proof (cases "u_hi v = 0")
  case True
  with assms have "u_lo v \<noteq> 0" by (auto simp: U128_of_def)
  then obtain h where h: "top_bit (u_lo v) h" "FloorLog2 (u_lo v) = Some h"
    using top_bit_clz [of "u_lo v", where 'b = 64] top_bit_the by (fastforce simp: FloorLog2_top_bit)
  then have "h < 64" by (auto simp: top_bit_def dest: bit_imp_le_length)
  with h True show ?thesis
    by (auto simp: FloorLog2_128_def Lower64of128_def Upper64of128_def top_bit_def bit_u128)
next
  case False
  then obtain h where h: "top_bit (u_hi v) h" "FloorLog2 (u_hi v) = Some h"
    using top_bit_clz [of "u_hi v", where 'b = 64] top_bit_the by (fastforce simp: FloorLog2_top_bit)
  with False show ?thesis
    by (auto simp: FloorLog2_128_def Upper64of128_def top_bit_def bit_u128)
qed

lemma DownwardInvolution_128_twice: "DownwardInvolution_128 (DownwardInvolution_128 v) = v"
proof -
  have "(h :: u64) XOR (h XOR l) = l" for h l by (simp flip: xor.assoc)
  then show ?thesis
    unfolding DownwardInvolution_128_def U128_concat Lower64of128_def Upper64of128_def U128_pair_sel
    by (simp only: DownwardInvolution_xor DownwardInvolution_twice U128_cases)
qed

lemma ReverseBits_128_bit:
  assumes "n < 128"
  shows "bit (u128 (ReverseBits_128 v)) n \<longleftrightarrow> bit (u128 v) (127 - n)"
proof -
  have "63 - (n - 64) = 127 - n" if "64 \<le> n" using that assms by simp
  then show ?thesis
    using assms unfolding ReverseBits_128_def U128_concat bit_u128 U128_pair_sel
    by (auto simp: ReverseBits_bit Lower64of128_def Upper64of128_def)
qed

lemma EndianSwapValue_128_twice: "EndianSwapValue_128 (EndianSwapValue_128 v) = v"
  unfolding EndianSwapValue_128_def U128_concat Lower64of128_def Upper64of128_def U128_pair_sel
  by (simp add: EndianSwapValue_twice [where n = 8] U128_cases)

section \<open>Inverses\<close>

lemma xorshift_inverse:
  fixes h :: "'a::len word"
  assumes "LENGTH('a) \<le> 2 * k" and "0 < k"
  shows "(h XOR drop_bit k h) XOR drop_bit k (h XOR drop_bit k h) = h"
proof (rule bit_word_eqI)
  fix n
  have "\<not> bit h (k + (k + n))" using assms by (auto dest: bit_imp_le_length)
  then show "bit ((h XOR drop_bit k h) XOR drop_bit k (h XOR drop_bit k h)) n = bit h n"
    by (auto simp: bit_simps add.assoc)
qed

lemma XXH3_unavalanche_avalanche [simp]: "XXH3_unavalanche (XXH3_avalanche h) = h"
proof -
  have x: "(h XOR drop_bit 37 h) XOR drop_bit 37 (h XOR drop_bit 37 h) = h"
      "(h XOR drop_bit 32 h) XOR drop_bit 32 (h XOR drop_bit 32 h) = h" for h :: u64
    by (rule xorshift_inverse; simp)+
  have "(0x165667919E3779F9 * 0x8da8ee41d6df849 :: u64) = 1" by code_simp
  then have "x * 0x165667919E3779F9 * 0x8da8ee41d6df849 = (x :: u64)" for x
    by (simp only: mult.assoc mult_1_right)
  then show ?thesis by (simp only: XXH3_unavalanche_def XXH3_avalanche_def Let_def x)
qed

text \<open>The step that adds the product of the lower half, undone.\<close>

lemma Lower32of64_ring:
  "Lower32of64 (a + b) = Lower32of64 a + Lower32of64 b"
  "Lower32of64 (a * b) = Lower32of64 a * Lower32of64 b"
proof -
  have u: "unat (Lower32of64 x) = unat x mod 2 ^ 32" for x
    by (simp add: Lower32of64_def unsigned_ucast_eq take_bit_nat_def)
  have m: "n mod 2 ^ 64 mod 2 ^ 32 = n mod (2 :: nat) ^ 32" for n
    by (rule mod_mod_cancel) (simp add: le_imp_power_dvd)
  show "Lower32of64 (a + b) = Lower32of64 a + Lower32of64 b"
    using m [of "unat a + unat b"] by (simp add: word_unat_eq_iff unat_word_ariths u mod_add_eq)
  show "Lower32of64 (a * b) = Lower32of64 a * Lower32of64 b"
    using m [of "unat a * unat b"] by (simp add: word_unat_eq_iff unat_word_ariths u mod_mult_eq)
qed

lemma upper_half_mask: "z AND 0xFFFFFFFF00000000 = push_bit 32 (drop_bit 32 z :: u64)"
proof -
  have m: "(0xFFFFFFFF00000000 :: u64) = NOT (mask 32)" by (simp add: mask_eq_exp_minus_1)
  show ?thesis unfolding m
    by (rule bit_word_eqI) (auto simp: bit_simps)
qed

lemma upper_half_add:
  "(push_bit 32 k + take_bit 32 l) AND 0xFFFFFFFF00000000 = push_bit 32 (k :: u64)"
proof -
  have "push_bit 32 k + take_bit 32 l = push_bit 32 k OR take_bit 32 l"
    by (rule disjunctive_add) (auto simp: bit_push_bit_iff bit_take_bit_iff)
  then have "drop_bit 32 (push_bit 32 k + take_bit 32 l) = drop_bit 32 (push_bit 32 k)"
    by (simp only: drop_bit_or drop_bit_take_bit) simp
  then show ?thesis unfolding upper_half_mask
    by (simp only:) (rule bit_word_eqI, auto simp: bit_simps)
qed

lemma lower_half_take: "ucast (Lower32of64 z) = take_bit 32 z"
  by (rule bit_word_eqI) (auto simp: Lower32of64_def bit_simps)

lemma halves_sum: "push_bit 32 (drop_bit 32 z) + ucast (Lower32of64 z) = (z :: u64)"
proof -
  have "push_bit 32 (drop_bit 32 z) + take_bit 32 z = push_bit 32 (drop_bit 32 z) OR take_bit 32 z"
    by (rule disjunctive_add) (auto simp: bit_push_bit_iff bit_take_bit_iff)
  moreover have "push_bit 32 (drop_bit 32 z) OR take_bit 32 z = z"
    by (rule bit_word_eqI) (auto simp: bit_simps)
  ultimately show ?thesis by (simp only: lower_half_take)
qed

lemma unmix_lower_half:
  fixes x :: u64
  defines "y \<equiv> x + ucast (Lower32of64 x) * 0x85EBCA76"
  shows "Lower32of64 y * 0xb6c92f47 = Lower32of64 x"
    and "((y - ucast (Lower32of64 x)) AND 0xFFFFFFFF00000000)
      - ((ucast (Lower32of64 x) * 0x85EBCA76) AND 0xFFFFFFFF00000000) + ucast (Lower32of64 x) = x"
proof -
  define L where "L = Lower32of64 x"
  define P where "P = (ucast L * 0x85EBCA76 :: u64)"
  have "Lower32of64 (ucast L) = L"
    by (rule bit_word_eqI) (auto simp: Lower32of64_def bit_simps)
  moreover have "Lower32of64 0x85EBCA76 = 0x85EBCA76" by (simp add: Lower32of64_def)
  ultimately have "Lower32of64 y = L * 0x85EBCA77"
    unfolding y_def Lower32of64_ring L_def [symmetric] by (simp add: algebra_simps)
  moreover have "(0x85EBCA77 * 0xb6c92f47 :: u32) = 1" by code_simp
  ultimately show "Lower32of64 y * 0xb6c92f47 = Lower32of64 x"
    unfolding L_def [symmetric] by (simp only: mult.assoc mult_1_right)
  have "y - ucast L = push_bit 32 (drop_bit 32 x) + P"
    using halves_sum [of x] unfolding y_def L_def [symmetric] P_def [symmetric] by (simp add: algebra_simps)
  also have "\<dots> = push_bit 32 (drop_bit 32 x + drop_bit 32 P) + ucast (Lower32of64 P)"
    using halves_sum [of P] by (simp add: push_bit_add algebra_simps)
  finally have "(y - ucast L) AND 0xFFFFFFFF00000000 = push_bit 32 (drop_bit 32 x + drop_bit 32 P)"
    by (simp only: lower_half_take upper_half_add)
  then show "((y - ucast (Lower32of64 x)) AND 0xFFFFFFFF00000000)
      - ((ucast (Lower32of64 x) * 0x85EBCA76) AND 0xFFFFFFFF00000000) + ucast (Lower32of64 x) = x"
    unfolding L_def [symmetric] P_def [symmetric] upper_half_mask [of P] push_bit_add
    using halves_sum [of x] by (simp add: L_def)
qed

lemma BijectiveUnhash2x64_Hash:
  "(case BijectiveHash2x64 h l seed of (h', l') \<Rightarrow> BijectiveUnhash2x64 h' l' seed) = (h, l)"
proof -
  define bl where "bl = 0x59973f0033362349 - seed"
  define bh where "bh = 0xc202797692d63d58 + seed"
  define x where "x = l XOR h XOR bl"
  define ih where "ih = h XOR bh"
  define m where "m = ih + ucast (Lower32of64 ih) * 0x85EBCA76"
  define A where "A = Upper64of128 (Multiply64to128 x 0x9E3779B185EBCA87)"
  define hi where "hi = A + m"
  define lo where "lo = (x * 0x9E3779B185EBCA87 + 0x3c0000000000000) XOR EndianSwapValue hi"
  define B where "B = Upper64of128 (Multiply64to128 lo 0xC2B2AE3D27D4EB4F)"
  have H: "BijectiveHash2x64 h l seed =
      (XXH3_avalanche (B + hi * 0xC2B2AE3D27D4EB4F), XXH3_avalanche (lo * 0xC2B2AE3D27D4EB4F))"
    unfolding BijectiveHash2x64_def Let_def Multiply64to128_lower
    by (simp only: B_def lo_def hi_def A_def m_def ih_def x_def bl_def bh_def add.assoc)
  have inv: "(0xC2B2AE3D27D4EB4F * 0xba79078168d4baf :: u64) = 1"
      "(0x9E3779B185EBCA87 * 0x887493432badb37 :: u64) = 1" by code_simp+
  have 1: "lo * 0xC2B2AE3D27D4EB4F * 0xba79078168d4baf = lo"
      "(B + hi * 0xC2B2AE3D27D4EB4F - B) * 0xba79078168d4baf = hi"
    by (simp_all only: add_diff_cancel_left' mult.assoc inv mult_1_right)
  have "lo XOR EndianSwapValue hi = x * 0x9E3779B185EBCA87 + 0x3c0000000000000"
    unfolding lo_def by (simp only: xor.assoc xor_self_eq xor.right_neutral)
  then have 2: "((lo XOR EndianSwapValue hi) - 0x3c0000000000000) * 0x887493432badb37 = x"
    by (simp only: add_diff_cancel_right' mult.assoc inv mult_1_right)
  have 3: "hi - A = m" unfolding hi_def by (simp only: add_diff_cancel_left')
  note 4 = unmix_lower_half [of ih, folded m_def]
  have 5: "ih XOR bh = h" "x XOR (h XOR bl) = l"
    unfolding ih_def x_def
    by (rule bit_word_eqI, auto simp: bit_simps)+
  show ?thesis
    unfolding H prod.case BijectiveUnhash2x64_def Let_def XXH3_unavalanche_avalanche
    by (simp only: 1 B_def [symmetric] 2 A_def [symmetric] 3 4 bh_def [symmetric] bl_def [symmetric] 5)
qed

lemma BijectiveHash2x64_Unhash:
  "(case BijectiveUnhash2x64 h l seed of (h', l') \<Rightarrow> BijectiveHash2x64 h' l' seed) = (h, l)"
proof -
  let ?f = "\<lambda>(h, l). BijectiveHash2x64 h l seed" and ?g = "\<lambda>(h, l). BijectiveUnhash2x64 h l seed"
  have gf: "?g (?f p) = p" for p
    using BijectiveUnhash2x64_Hash [where h = "fst p" and l = "snd p" and seed = seed]
    by (simp add: case_prod_beta)
  have "inj ?f" by (rule inj_on_inverseI [where g = ?g]) (rule gf)
  then have "surj ?f" by (rule finite_UNIV_inj_surj [OF finite])
  then obtain p where p: "(h, l) = ?f p" by (rule surjE)
  from arg_cong [OF p, of ?g] have "?g (h, l) = p" by (simp only: gf)
  then have "BijectiveUnhash2x64 h l seed = p" by (simp only: prod.case)
  then show ?thesis by (simp only: p)
qed

section \<open>The 32-bit hash\<close>

lemma xorshift_inj: "0 < k \<Longrightarrow> LENGTH('a::len) \<le> 2 * k \<Longrightarrow>
  h XOR drop_bit k h = h' XOR drop_bit k h' \<longleftrightarrow> h = (h' :: 'a word)"
  by (metis xorshift_inverse)

lemma times_odd_inj: "h * 0xc6a4a793 = h' * 0xc6a4a793 \<longleftrightarrow> h = (h' :: u32)"
proof
  have "(0xc6a4a793 * 0xd8198e9b :: u32) = 1" by code_simp
  then have inv: "x * 0xc6a4a793 * 0xd8198e9b = x" for x :: u32 by (simp only: mult.assoc mult_1_right)
  assume "h * 0xc6a4a793 = h' * 0xc6a4a793"
  from arg_cong [OF this, of "\<lambda>x. x * 0xd8198e9b"] show "h = h'" by (simp only: inv)
qed (rule arg_cong)

lemma Hash_word_inj:
  "Hash_word h w = Hash_word h' w \<longleftrightarrow> h = h'" "Hash_word h w = Hash_word h w' \<longleftrightarrow> w = w'"
  by (simp_all add: Hash_word_def Let_def xorshift_inj times_odd_inj)

lemma Hash_tail_inj: "Hash_tail h data = Hash_tail h' data \<longleftrightarrow> h = h'"
  by (simp add: Hash_tail_def Let_def xorshift_inj times_odd_inj)

lemma Hash_loop_inj: "Hash_loop h data = Hash_loop h' data \<longleftrightarrow> h = h'"
proof (induction h data arbitrary: h' rule: Hash_loop.induct)
  case (1 h data)
  then show ?case
    by (subst (1 2) Hash_loop.simps) (auto simp: Hash_tail_inj Hash_word_inj)
qed

lemma Hash_loop_words:
  "4 dvd length p \<Longrightarrow> Hash_loop h (p @ s) = Hash_loop (Hash_loop h p) s"
proof (induction h p rule: Hash_loop.induct)
  case (1 h p)
  show ?case
  proof (cases "4 \<le> length p")
    case True
    have "DecodeFixed32 (p @ s) = DecodeFixed32 p"
      using True by (simp add: DecodeFixed32_def kLittleEndian_def)
    moreover have "4 dvd length (drop 4 p)" using "1.prems" True by (simp add: dvd_minus_self)
    ultimately show ?thesis
      using True "1.IH" by (subst Hash_loop.simps, subst (2) Hash_loop.simps) simp
  next
    case False
    then have "p = []" using "1.prems" dvd_imp_le [of 4 "length p"] by auto
    then show ?thesis by (simp add: Hash_loop.simps [of h "[]"] Hash_tail_def)
  qed
qed

lemma DecodeFixed32_inj:
  assumes "length w = 4" and "length w' = 4"
  shows "DecodeFixed32 w = DecodeFixed32 w' \<longleftrightarrow> w = w'"
proof
  have bytes: "le_bytes 4 (DecodeFixed32 w) = w" if "length w = 4" for w
    using le_bytes_le_value [of w, where 'a = 32] that by (simp add: DecodeFixed32_def kLittleEndian_def)
  assume "DecodeFixed32 w = DecodeFixed32 w'"
  from arg_cong [OF this, of "le_bytes 4"] show "w = w'" by (simp only: bytes assms)
qed simp

section \<open>Properties\<close>

text \<open>
  C25. The portable 128-bit integers are 128-bit words: shifting left (by the shift modulo 128), the bitwise
  operators, the comparisons, and \<^verbatim>\<open>Multiply64to128\<close>, whose long multiplication never overflows, compute
  what the operations on 128-bit words compute.
\<close>

theorem portable_u128_is_word:
  "u128 (U128_shl v s) = push_bit (unat (s AND 127)) (u128 v) \<and>
   u128 (U128_and v w) = u128 v AND u128 w \<and> u128 (U128_or v w) = u128 v OR u128 w \<and>
   u128 (U128_xor v w) = u128 v XOR u128 w \<and> u128 (U128_not v) = NOT (u128 v) \<and>
   (U128_lt v w \<longleftrightarrow> u128 v < u128 w) \<and> (U128_le v w \<longleftrightarrow> u128 v \<le> u128 w) \<and>
   (U128_gt v w \<longleftrightarrow> u128 w < u128 v) \<and> (U128_ge v w \<longleftrightarrow> u128 w \<le> u128 v) \<and>
   (U128_eq v w \<longleftrightarrow> u128 v = u128 w) \<and> (U128_ne v w \<longleftrightarrow> u128 v \<noteq> u128 w) \<and>
   u128 (Multiply64to128 a b) = ucast a * ucast b"
  by (simp add: u128_shl u128_bitwise u128_order Multiply64to128_u128 u128_inject U128_eq_def U128_ne_def)
     (auto simp: Unsigned128.equality)

text \<open>
  C24. \<^verbatim>\<open>BijectiveUnhash2x64\<close> and \<^verbatim>\<open>BijectiveHash2x64\<close> with the same seed are inverse to each other, for
  all inputs and seeds.
\<close>

theorem bijective_hash_roundtrip:
  "(case BijectiveHash2x64 h l seed of (h', l') \<Rightarrow> BijectiveUnhash2x64 h' l' seed) = (h, l) \<and>
   (case BijectiveUnhash2x64 h l seed of (h', l') \<Rightarrow> BijectiveHash2x64 h' l' seed) = (h, l)"
  by (rule conjI [OF BijectiveUnhash2x64_Hash BijectiveHash2x64_Unhash])

lemma hash_separates:
  assumes "4 dvd length p" and "length w = 4" and "length w' = 4"
  shows "Hash (p @ w @ s) seed = Hash (p @ w' @ s) seed \<longleftrightarrow> w = w'"
    and "Hash data seed = Hash data seed' \<longleftrightarrow> seed = seed'"
proof -
  have loop: "Hash_loop h v = Hash_word h (DecodeFixed32 v)" if "length v = 4" for h v
    using that by (simp add: Hash_loop.simps [of h v] Hash_loop.simps [of _ "[]"] Hash_tail_def)
  show "Hash (p @ w @ s) seed = Hash (p @ w' @ s) seed \<longleftrightarrow> w = w'"
    using assms by (simp add: Hash_def Hash_loop_words loop Hash_loop_inj Hash_word_inj DecodeFixed32_inj)
  have "(ucast (ucast seed XOR k :: u64) :: u32) = seed XOR ucast k" for seed :: u32 and k
    by (rule bit_word_eqI) (auto simp: bit_simps)
  moreover have "seed XOR k = seed' XOR k \<longleftrightarrow> seed = seed'" for k :: u32
    by (auto simp: bit_eq_iff bit_simps)
  ultimately show "Hash data seed = Hash data seed' \<longleftrightarrow> seed = seed'"
    by (simp add: Hash_def Hash_loop_inj)
qed

end
