(* ===== verification/Xiao_Xxph3.thy ===== *)
theory Xiao_Xxph3
  imports Xiao_Hash "HOL-Library.Monad_Syntax"
begin

text \<open>
  \<^verbatim>\<open>util/xxph3.h\<close> and the 64-bit hashes of \<^verbatim>\<open>util/hash.h\<close> and \<^verbatim>\<open>util/hash.cc\<close>: the preview version of XXH3 that the store
  uses for its 64-bit hashes, in its scalar variant on a little-endian machine. A pointer is a byte string
  with an offset. A read that is not within the string and a failed \<^verbatim>\<open>XXPH_ASSERT\<close> are \<^const>\<open>None\<close>.
\<close>

section \<open>Memory and multiplication\<close>

definition XXPH_CPU_LITTLE_ENDIAN :: bool where
  "XXPH_CPU_LITTLE_ENDIAN = True"

definition XXPH_read8 :: "bytes \<Rightarrow> nat \<Rightarrow> byte option" where
  "XXPH_read8 mem p = (if p < length mem then Some (mem ! p) else None)"

definition XXPH_read32 :: "bytes \<Rightarrow> nat \<Rightarrow> u32 option" where
  "XXPH_read32 mem p = (if p + 4 \<le> length mem then Some (le_value (take 4 (drop p mem))) else None)"

definition XXPH_read64 :: "bytes \<Rightarrow> nat \<Rightarrow> u64 option" where
  "XXPH_read64 mem p = (if p + 8 \<le> length mem then Some (le_value (take 8 (drop p mem))) else None)"

definition XXPH_swap32 :: "u32 \<Rightarrow> u32" where
  "XXPH_swap32 x =
     (push_bit 24 x AND 0xff000000) OR (push_bit 8 x AND 0x00ff0000) OR
     (drop_bit 8 x AND 0x0000ff00) OR (drop_bit 24 x AND 0x000000ff)"

definition XXPH_swap64 :: "u64 \<Rightarrow> u64" where
  "XXPH_swap64 x =
     (push_bit 56 x AND 0xff00000000000000) OR (push_bit 40 x AND 0x00ff000000000000) OR
     (push_bit 24 x AND 0x0000ff0000000000) OR (push_bit 8 x AND 0x000000ff00000000) OR
     (drop_bit 8 x AND 0x00000000ff000000) OR (drop_bit 24 x AND 0x0000000000ff0000) OR
     (drop_bit 40 x AND 0x000000000000ff00) OR (drop_bit 56 x AND 0x00000000000000ff)"

definition XXPH_readLE32 :: "bytes \<Rightarrow> nat \<Rightarrow> u32 option" where
  "XXPH_readLE32 mem p =
     (if XXPH_CPU_LITTLE_ENDIAN then XXPH_read32 mem p else map_option XXPH_swap32 (XXPH_read32 mem p))"

definition XXPH_readLE64 :: "bytes \<Rightarrow> nat \<Rightarrow> u64 option" where
  "XXPH_readLE64 mem p =
     (if XXPH_CPU_LITTLE_ENDIAN then XXPH_read64 mem p else map_option XXPH_swap64 (XXPH_read64 mem p))"

definition PRIME32_1 :: u64 where "PRIME32_1 = 0x9E3779B1"
definition PRIME32_2 :: u64 where "PRIME32_2 = 0x85EBCA77"
definition PRIME32_3 :: u64 where "PRIME32_3 = 0xC2B2AE3D"
definition PRIME64_1 :: u64 where "PRIME64_1 = 0x9E3779B185EBCA87"
definition PRIME64_2 :: u64 where "PRIME64_2 = 0xC2B2AE3D27D4EB4F"
definition PRIME64_3 :: u64 where "PRIME64_3 = 0x165667B19E3779F9"
definition PRIME64_4 :: u64 where "PRIME64_4 = 0x85EBCA77C2B2AE63"
definition PRIME64_5 :: u64 where "PRIME64_5 = 0x27D4EB2F165667C5"

definition kSecret :: bytes where
  "kSecret =
     [0xb8, 0xfe, 0x6c, 0x39, 0x23, 0xa4, 0x4b, 0xbe, 0x7c, 0x01, 0x81, 0x2c, 0xf7, 0x21, 0xad, 0x1c,
      0xde, 0xd4, 0x6d, 0xe9, 0x83, 0x90, 0x97, 0xdb, 0x72, 0x40, 0xa4, 0xa4, 0xb7, 0xb3, 0x67, 0x1f,
      0xcb, 0x79, 0xe6, 0x4e, 0xcc, 0xc0, 0xe5, 0x78, 0x82, 0x5a, 0xd0, 0x7d, 0xcc, 0xff, 0x72, 0x21,
      0xb8, 0x08, 0x46, 0x74, 0xf7, 0x43, 0x24, 0x8e, 0xe0, 0x35, 0x90, 0xe6, 0x81, 0x3a, 0x26, 0x4c,
      0x3c, 0x28, 0x52, 0xbb, 0x91, 0xc3, 0x00, 0xcb, 0x88, 0xd0, 0x65, 0x8b, 0x1b, 0x53, 0x2e, 0xa3,
      0x71, 0x64, 0x48, 0x97, 0xa2, 0x0d, 0xf9, 0x4e, 0x38, 0x19, 0xef, 0x46, 0xa9, 0xde, 0xac, 0xd8,
      0xa8, 0xfa, 0x76, 0x3f, 0xe3, 0x9c, 0x34, 0x3f, 0xf9, 0xdc, 0xbb, 0xc7, 0xc7, 0x0b, 0x4f, 0x1d,
      0x8a, 0x51, 0xe0, 0x4b, 0xcd, 0xb4, 0x59, 0x31, 0xc8, 0x9f, 0x7e, 0xc9, 0xd9, 0x78, 0x73, 0x64,
      0xea, 0xc5, 0xac, 0x83, 0x34, 0xd3, 0xeb, 0xc3, 0xc5, 0x81, 0xa0, 0xff, 0xfa, 0x13, 0x63, 0xeb,
      0x17, 0x0d, 0xdd, 0x51, 0xb7, 0xf0, 0xda, 0x49, 0xd3, 0x16, 0x55, 0x26, 0x29, 0xd4, 0x68, 0x9e,
      0x2b, 0x16, 0xbe, 0x58, 0x7d, 0x47, 0xa1, 0xfc, 0x8f, 0xf8, 0xb8, 0xd1, 0x7a, 0xd0, 0x31, 0xce,
      0x45, 0xcb, 0x3a, 0x8f, 0x95, 0x16, 0x04, 0x28, 0xaf, 0xd7, 0xfb, 0xca, 0xbb, 0x4b, 0x40, 0x7e]"

definition XXPH_mult32to64 :: "u64 \<Rightarrow> u64 \<Rightarrow> u64" where
  "XXPH_mult32to64 x y = (x AND 0xFFFFFFFF) * (y AND 0xFFFFFFFF)"

text \<open>The product with the 128-bit type of the compiler, and the portable one.\<close>

definition XXPH_mult64to128 :: "u64 \<Rightarrow> u64 \<Rightarrow> Unsigned128" where
  "XXPH_mult64to128 lhs rhs =
     (let product = ucast lhs * ucast rhs :: 128 word
      in \<lparr>u_lo = ucast product, u_hi = ucast (drop_bit 64 product)\<rparr>)"

definition XXPH_mult64to128_portable :: "u64 \<Rightarrow> u64 \<Rightarrow> Unsigned128" where
  "XXPH_mult64to128_portable lhs rhs =
     (let lo_lo = XXPH_mult32to64 (lhs AND 0xFFFFFFFF) (rhs AND 0xFFFFFFFF);
          hi_lo = XXPH_mult32to64 (drop_bit 32 lhs) (rhs AND 0xFFFFFFFF);
          lo_hi = XXPH_mult32to64 (lhs AND 0xFFFFFFFF) (drop_bit 32 rhs);
          hi_hi = XXPH_mult32to64 (drop_bit 32 lhs) (drop_bit 32 rhs);
          cross = drop_bit 32 lo_lo + (hi_lo AND 0xFFFFFFFF) + lo_hi;
          upper = drop_bit 32 hi_lo + drop_bit 32 cross + hi_hi;
          lower = push_bit 32 cross OR (lo_lo AND 0xFFFFFFFF)
      in \<lparr>u_lo = lower, u_hi = upper\<rparr>)"

definition XXPH3_mul128_fold64 :: "u64 \<Rightarrow> u64 \<Rightarrow> u64" where
  "XXPH3_mul128_fold64 lhs rhs =
     (let product = XXPH_mult64to128 lhs rhs in u_lo product XOR u_hi product)"

definition XXPH3_avalanche :: "u64 \<Rightarrow> u64" where
  "XXPH3_avalanche h64 =
     (let h64 = h64 XOR drop_bit 37 h64;
          h64 = h64 * PRIME64_3
      in h64 XOR drop_bit 32 h64)"

section \<open>Short keys\<close>

definition XXPH3_len_1to3_64b :: "bytes \<Rightarrow> bytes \<Rightarrow> u64 \<Rightarrow> u64 option" where
  "XXPH3_len_1to3_64b input secret seed =
     (let len = length input
      in if 1 \<le> len \<and> len \<le> 3
         then do {
           c1 \<leftarrow> XXPH_read8 input 0;
           c2 \<leftarrow> XXPH_read8 input (len div 2);
           c3 \<leftarrow> XXPH_read8 input (len - 1);
           let combined = (ucast c1 OR push_bit 8 (ucast c2) OR push_bit 16 (ucast c3) OR
             push_bit 24 (of_nat len) :: u32);
           s \<leftarrow> XXPH_readLE32 secret 0;
           let keyed = ucast combined XOR (ucast s + seed);
           let mixed = keyed * PRIME64_1;
           Some (XXPH3_avalanche mixed)
         }
         else None)"

definition XXPH3_len_4to8_64b :: "bytes \<Rightarrow> bytes \<Rightarrow> u64 \<Rightarrow> u64 option" where
  "XXPH3_len_4to8_64b input secret seed =
     (let len = length input
      in if 4 \<le> len \<and> len \<le> 8
         then do {
           input_lo \<leftarrow> XXPH_readLE32 input 0;
           input_hi \<leftarrow> XXPH_readLE32 input (len - 4);
           let input_64 = ucast input_lo OR push_bit 32 (ucast input_hi);
           s \<leftarrow> XXPH_readLE64 secret 0;
           let keyed = input_64 XOR (s + seed);
           let mix64 = of_nat len + (keyed XOR drop_bit 51 keyed) * PRIME32_1;
           Some (XXPH3_avalanche ((mix64 XOR drop_bit 47 mix64) * PRIME64_2))
         }
         else None)"

definition XXPH3_len_9to16_64b :: "bytes \<Rightarrow> bytes \<Rightarrow> u64 \<Rightarrow> u64 option" where
  "XXPH3_len_9to16_64b input secret seed =
     (let len = length input
      in if 9 \<le> len \<and> len \<le> 16
         then do {
           lo \<leftarrow> XXPH_readLE64 input 0;
           s0 \<leftarrow> XXPH_readLE64 secret 0;
           let input_lo = lo XOR (s0 + seed);
           hi \<leftarrow> XXPH_readLE64 input (len - 8);
           s8 \<leftarrow> XXPH_readLE64 secret 8;
           let input_hi = hi XOR (s8 - seed);
           let acc = of_nat len + (input_lo + input_hi) + XXPH3_mul128_fold64 input_lo input_hi;
           Some (XXPH3_avalanche acc)
         }
         else None)"

definition XXPH3_len_0to16_64b :: "bytes \<Rightarrow> bytes \<Rightarrow> u64 \<Rightarrow> u64 option" where
  "XXPH3_len_0to16_64b input secret seed =
     (let len = length input
      in if 16 < len then None
         else if 8 < len then XXPH3_len_9to16_64b input secret seed
         else if 4 \<le> len then XXPH3_len_4to8_64b input secret seed
         else if len \<noteq> 0 then XXPH3_len_1to3_64b input secret seed
         else do {
           s \<leftarrow> XXPH_readLE64 secret 0;
           Some (XXPH3_mul128_fold64 (seed + s) PRIME64_2)
         })"

section \<open>Keys of medium length\<close>

definition XXPH3_SECRET_SIZE_MIN :: nat where "XXPH3_SECRET_SIZE_MIN = 136"

definition XXPH3_mix16B :: "bytes \<Rightarrow> nat \<Rightarrow> bytes \<Rightarrow> nat \<Rightarrow> u64 \<Rightarrow> u64 option" where
  "XXPH3_mix16B input i secret s seed64 = do {
     input_lo \<leftarrow> XXPH_readLE64 input i;
     input_hi \<leftarrow> XXPH_readLE64 input (i + 8);
     s0 \<leftarrow> XXPH_readLE64 secret s;
     s8 \<leftarrow> XXPH_readLE64 secret (s + 8);
     Some (XXPH3_mul128_fold64 (input_lo XOR (s0 + seed64)) (input_hi XOR (s8 - seed64)))
   }"

text \<open>\<^verbatim>\<open>acc += XXPH3_mix16B(...)\<close>.\<close>

definition add_mix16B :: "bytes \<Rightarrow> bytes \<Rightarrow> u64 \<Rightarrow> nat \<Rightarrow> nat \<Rightarrow> u64 \<Rightarrow> u64 option" where
  "add_mix16B input secret seed i s acc = map_option (\<lambda>m. acc + m) (XXPH3_mix16B input i secret s seed)"

definition XXPH3_len_17to128_64b :: "bytes \<Rightarrow> bytes \<Rightarrow> u64 \<Rightarrow> u64 option" where
  "XXPH3_len_17to128_64b input secret seed =
     (let len = length input; mix = add_mix16B input secret seed
      in if XXPH3_SECRET_SIZE_MIN \<le> length secret \<and> 16 < len \<and> len \<le> 128
         then do {
           let acc = of_nat len * PRIME64_1;
           acc \<leftarrow> (if 32 < len
             then do {
               acc \<leftarrow> (if 64 < len
                 then do {
                   acc \<leftarrow> (if 96 < len
                     then do {
                       acc \<leftarrow> mix 48 96 acc;
                       mix (len - 64) 112 acc
                     }
                     else Some acc);
                   acc \<leftarrow> mix 32 64 acc;
                   mix (len - 48) 80 acc
                 }
                 else Some acc);
               acc \<leftarrow> mix 16 32 acc;
               mix (len - 32) 48 acc
             }
             else Some acc);
           acc \<leftarrow> mix 0 0 acc;
           acc \<leftarrow> mix (len - 16) 16 acc;
           Some (XXPH3_avalanche acc)
         }
         else None)"

text \<open>\<^verbatim>\<open>for (i = ...) body\<close> over the list of the values of the counter.\<close>

fun for_each :: "nat list \<Rightarrow> (nat \<Rightarrow> 's \<Rightarrow> 's option) \<Rightarrow> 's \<Rightarrow> 's option" where
  "for_each [] f s = Some s"
| "for_each (i # is) f s = Option.bind (f i s) (for_each is f)"

definition XXPH3_len_129to240_64b :: "bytes \<Rightarrow> bytes \<Rightarrow> u64 \<Rightarrow> u64 option" where
  "XXPH3_len_129to240_64b input secret seed =
     (let len = length input; mix = add_mix16B input secret seed; nbRounds = len div 16
      in if XXPH3_SECRET_SIZE_MIN \<le> length secret \<and> 128 < len \<and> len \<le> 240
         then do {
           let acc = of_nat len * PRIME64_1;
           acc \<leftarrow> for_each [0..<8] (\<lambda>i. mix (16 * i) (16 * i)) acc;
           let acc = XXPH3_avalanche acc;
           acc \<leftarrow> (if 8 \<le> nbRounds
             then for_each [8..<nbRounds] (\<lambda>i. mix (16 * i) (16 * (i - 8) + 3)) acc else None);
           acc \<leftarrow> mix (len - 16) (XXPH3_SECRET_SIZE_MIN - 17) acc;
           Some (XXPH3_avalanche acc)
         }
         else None)"

section \<open>Long keys\<close>

definition STRIPE_LEN :: nat where "STRIPE_LEN = 64"
definition XXPH_SECRET_CONSUME_RATE :: nat where "XXPH_SECRET_CONSUME_RATE = 8"
definition ACC_NB :: nat where "ACC_NB = STRIPE_LEN div 8"

datatype XXPH3_accWidth_e = XXPH3_acc_64bits | XXPH3_acc_128bits

definition XXPH3_accumulate_512 ::
  "u64 list \<Rightarrow> bytes \<Rightarrow> nat \<Rightarrow> bytes \<Rightarrow> nat \<Rightarrow> XXPH3_accWidth_e \<Rightarrow> u64 list option" where
  "XXPH3_accumulate_512 acc input p secret s accWidth =
     for_each [0..<ACC_NB] (\<lambda>i xacc. do {
       data_val \<leftarrow> XXPH_readLE64 input (p + 8 * i);
       k \<leftarrow> XXPH_readLE64 secret (s + i * 8);
       let data_key = data_val XOR k;
       let xacc = (if accWidth = XXPH3_acc_64bits then xacc[i := xacc ! i + data_val]
                   else xacc[i XOR 1 := xacc ! (i XOR 1) + data_val]);
       Some (xacc[i := xacc ! i + XXPH_mult32to64 (data_key AND 0xFFFFFFFF) (drop_bit 32 data_key)])
     }) acc"

definition XXPH3_scrambleAcc :: "u64 list \<Rightarrow> bytes \<Rightarrow> nat \<Rightarrow> u64 list option" where
  "XXPH3_scrambleAcc acc secret s =
     for_each [0..<ACC_NB] (\<lambda>i xacc. do {
       key64 \<leftarrow> XXPH_readLE64 secret (s + 8 * i);
       let acc64 = xacc ! i;
       let acc64 = acc64 XOR drop_bit 47 acc64;
       let acc64 = acc64 XOR key64;
       let acc64 = acc64 * PRIME32_1;
       Some (xacc[i := acc64])
     }) acc"

definition XXPH3_accumulate ::
  "u64 list \<Rightarrow> bytes \<Rightarrow> nat \<Rightarrow> bytes \<Rightarrow> nat \<Rightarrow> XXPH3_accWidth_e \<Rightarrow> u64 list option" where
  "XXPH3_accumulate acc input p secret nbStripes accWidth =
     for_each [0..<nbStripes] (\<lambda>n acc.
       XXPH3_accumulate_512 acc input (p + n * STRIPE_LEN) secret (n * XXPH_SECRET_CONSUME_RATE) accWidth) acc"

definition XXPH3_hashLong_internal_loop ::
  "u64 list \<Rightarrow> bytes \<Rightarrow> bytes \<Rightarrow> XXPH3_accWidth_e \<Rightarrow> u64 list option" where
  "XXPH3_hashLong_internal_loop acc input secret accWidth =
     (let len = length input; secretSize = length secret;
          nb_rounds = (secretSize - STRIPE_LEN) div XXPH_SECRET_CONSUME_RATE;
          block_len = STRIPE_LEN * nb_rounds;
          nb_blocks = len div block_len
      in if XXPH3_SECRET_SIZE_MIN \<le> secretSize
         then do {
           acc \<leftarrow> for_each [0..<nb_blocks] (\<lambda>n acc. do {
             acc \<leftarrow> XXPH3_accumulate acc input (n * block_len) secret nb_rounds accWidth;
             XXPH3_scrambleAcc acc secret (secretSize - STRIPE_LEN)
           }) acc;
           let nbStripes = (len - block_len * nb_blocks) div STRIPE_LEN;
           if STRIPE_LEN < len \<and> nbStripes \<le> secretSize div XXPH_SECRET_CONSUME_RATE
           then do {
             acc \<leftarrow> XXPH3_accumulate acc input (nb_blocks * block_len) secret nbStripes accWidth;
             if len mod STRIPE_LEN \<noteq> 0
             then XXPH3_accumulate_512 acc input (len - STRIPE_LEN) secret (secretSize - STRIPE_LEN - 7) accWidth
             else Some acc
           }
           else None
         }
         else None)"

definition XXPH3_mix2Accs :: "u64 list \<Rightarrow> nat \<Rightarrow> bytes \<Rightarrow> nat \<Rightarrow> u64 option" where
  "XXPH3_mix2Accs acc a secret s = do {
     s0 \<leftarrow> XXPH_readLE64 secret s;
     s8 \<leftarrow> XXPH_readLE64 secret (s + 8);
     Some (XXPH3_mul128_fold64 (acc ! a XOR s0) (acc ! (a + 1) XOR s8))
   }"

definition XXPH3_mergeAccs :: "u64 list \<Rightarrow> bytes \<Rightarrow> nat \<Rightarrow> u64 \<Rightarrow> u64 option" where
  "XXPH3_mergeAccs acc secret s start = do {
     let result64 = start;
     m \<leftarrow> XXPH3_mix2Accs acc 0 secret s;
     let result64 = result64 + m;
     m \<leftarrow> XXPH3_mix2Accs acc 2 secret (s + 16);
     let result64 = result64 + m;
     m \<leftarrow> XXPH3_mix2Accs acc 4 secret (s + 32);
     let result64 = result64 + m;
     m \<leftarrow> XXPH3_mix2Accs acc 6 secret (s + 48);
     let result64 = result64 + m;
     Some (XXPH3_avalanche result64)
   }"

definition XXPH3_INIT_ACC :: "u64 list" where
  "XXPH3_INIT_ACC = [PRIME32_3, PRIME64_1, PRIME64_2, PRIME64_3, PRIME64_4, PRIME32_2, PRIME64_5, PRIME32_1]"

definition XXPH3_hashLong_internal :: "bytes \<Rightarrow> bytes \<Rightarrow> u64 option" where
  "XXPH3_hashLong_internal input secret = do {
     acc \<leftarrow> XXPH3_hashLong_internal_loop XXPH3_INIT_ACC input secret XXPH3_acc_64bits;
     if 64 + 11 \<le> length secret
     then XXPH3_mergeAccs acc secret 11 (of_nat (length input) * PRIME64_1)
     else None
   }"

definition XXPH3_hashLong_64b_defaultSecret :: "bytes \<Rightarrow> u64 option" where
  "XXPH3_hashLong_64b_defaultSecret input = XXPH3_hashLong_internal input kSecret"

definition XXPH3_hashLong_64b_withSecret :: "bytes \<Rightarrow> bytes \<Rightarrow> u64 option" where
  "XXPH3_hashLong_64b_withSecret input secret = XXPH3_hashLong_internal input secret"

definition XXPH_writeLE64 :: "bytes \<Rightarrow> nat \<Rightarrow> u64 \<Rightarrow> bytes option" where
  "XXPH_writeLE64 dst p v64 =
     (let v64 = if \<not> XXPH_CPU_LITTLE_ENDIAN then XXPH_swap64 v64 else v64
      in if p + 8 \<le> length dst then Some (take p dst @ le_bytes 8 v64 @ drop (p + 8) dst) else None)"

definition XXPH3_initCustomSecret :: "bytes \<Rightarrow> u64 \<Rightarrow> bytes option" where
  "XXPH3_initCustomSecret customSecret seed64 =
     (let nbRounds = length kSecret div 16
      in for_each [0..<nbRounds] (\<lambda>i customSecret. do {
           lo \<leftarrow> XXPH_readLE64 kSecret (16 * i);
           customSecret \<leftarrow> XXPH_writeLE64 customSecret (16 * i) (lo + seed64);
           hi \<leftarrow> XXPH_readLE64 kSecret (16 * i + 8);
           XXPH_writeLE64 customSecret (16 * i + 8) (hi - seed64)
         }) customSecret)"

text \<open>The local array is not initialized; \<open>garbage\<close> is what it happens to hold.\<close>

definition XXPH3_hashLong_64b_withSeed :: "bytes \<Rightarrow> bytes \<Rightarrow> u64 \<Rightarrow> u64 option" where
  "XXPH3_hashLong_64b_withSeed garbage input seed =
     (if seed = 0 then XXPH3_hashLong_64b_defaultSecret input
      else do {
        secret \<leftarrow> XXPH3_initCustomSecret garbage seed;
        XXPH3_hashLong_internal input secret
      })"

section \<open>Entry points\<close>

definition XXPH3_64bits :: "bytes \<Rightarrow> u64 option" where
  "XXPH3_64bits input =
     (let len = length input
      in if len \<le> 16 then XXPH3_len_0to16_64b input kSecret 0
         else if len \<le> 128 then XXPH3_len_17to128_64b input kSecret 0
         else if len \<le> 240 then XXPH3_len_129to240_64b input kSecret 0
         else XXPH3_hashLong_64b_defaultSecret input)"

definition XXPH3_64bits_withSecret :: "bytes \<Rightarrow> bytes \<Rightarrow> u64 option" where
  "XXPH3_64bits_withSecret input secret =
     (let len = length input
      in if \<not> XXPH3_SECRET_SIZE_MIN \<le> length secret then None
         else if len \<le> 16 then XXPH3_len_0to16_64b input secret 0
         else if len \<le> 128 then XXPH3_len_17to128_64b input secret 0
         else if len \<le> 240 then XXPH3_len_129to240_64b input secret 0
         else XXPH3_hashLong_64b_withSecret input secret)"

definition XXPH3_64bits_withSeed :: "bytes \<Rightarrow> bytes \<Rightarrow> u64 \<Rightarrow> u64 option" where
  "XXPH3_64bits_withSeed garbage input seed =
     (let len = length input
      in if len \<le> 16 then XXPH3_len_0to16_64b input kSecret seed
         else if len \<le> 128 then XXPH3_len_17to128_64b input kSecret seed
         else if len \<le> 240 then XXPH3_len_129to240_64b input kSecret seed
         else XXPH3_hashLong_64b_withSeed garbage input seed)"

definition Hash64 :: "bytes \<Rightarrow> bytes \<Rightarrow> u64 \<Rightarrow> u64 option" where
  "Hash64 garbage data seed = XXPH3_64bits_withSeed garbage data seed"

definition Hash64_unseeded :: "bytes \<Rightarrow> u64 option" where
  "Hash64_unseeded data = XXPH3_64bits data"

definition GetSliceHash64 :: "bytes \<Rightarrow> u64 option" where
  "GetSliceHash64 key = Hash64_unseeded key"

definition GetSliceRangedNPHash :: "bytes \<Rightarrow> u64 \<Rightarrow> u64 option" where
  "GetSliceRangedNPHash s rng = map_option (\<lambda>h. FastRange64 h rng) (Hash64_unseeded s)"

section \<open>Every read is within bounds\<close>

lemma readLE_some:
  "p + 4 \<le> length mem \<Longrightarrow> XXPH_readLE32 mem p = Some (le_value (take 4 (drop p mem)))"
  "p + 8 \<le> length mem \<Longrightarrow> XXPH_readLE64 mem p = Some (le_value (take 8 (drop p mem)))"
  by (simp_all add: XXPH_readLE32_def XXPH_readLE64_def XXPH_read32_def XXPH_read64_def
      XXPH_CPU_LITTLE_ENDIAN_def)

lemma read8_some: "p < length mem \<Longrightarrow> XXPH_read8 mem p = Some (mem ! p)"
  by (simp add: XXPH_read8_def)

lemma length_kSecret: "length kSecret = 192"
  by (simp add: kSecret_def)

lemma for_each_append: "for_each (xs @ ys) f s = Option.bind (for_each xs f s) (for_each ys f)"
proof (induction xs arbitrary: s)
  case (Cons i xs)
  then show ?case by (cases "f i s") simp_all
qed simp

lemma for_each_ok:
  assumes "\<And>i s. i \<in> set is \<Longrightarrow> \<exists>s'. f i s = Some s'"
  shows "\<exists>s'. for_each is f s = Some s'"
  using assms
proof (induction "is" arbitrary: s)
  case (Cons i "is")
  obtain s1 where "f i s = Some s1" using Cons.prems by fastforce
  moreover obtain s' where "for_each is f s1 = Some s'" using Cons by fastforce
  ultimately show ?case by simp
qed simp

lemma XXPH3_len_0to16_ok:
  assumes "length input \<le> 16" and "16 \<le> length secret"
  shows "\<exists>h. XXPH3_len_0to16_64b input secret seed = Some h"
  using assms
  by (simp add: XXPH3_len_0to16_64b_def XXPH3_len_9to16_64b_def XXPH3_len_4to8_64b_def
      XXPH3_len_1to3_64b_def Let_def readLE_some read8_some Suc_le_eq)

lemma add_mix16B_some:
  assumes "i + 16 \<le> length input" and "s + 16 \<le> length secret"
  shows "add_mix16B input secret seed i s acc = Some (acc + the (XXPH3_mix16B input i secret s seed))"
proof -
  have "\<exists>m. XXPH3_mix16B input i secret s seed = Some m"
    using assms by (simp add: XXPH3_mix16B_def readLE_some)
  then show ?thesis by (auto simp: add_mix16B_def)
qed

lemma XXPH3_len_17to128_ok:
  assumes "16 < length input" and "length input \<le> 128" and "136 \<le> length secret"
  shows "\<exists>h. XXPH3_len_17to128_64b input secret seed = Some h"
  using assms by (simp add: XXPH3_len_17to128_64b_def Let_def XXPH3_SECRET_SIZE_MIN_def add_mix16B_some)

lemma XXPH3_len_129to240_ok:
  assumes "128 < length input" and "length input \<le> 240" and "136 \<le> length secret"
  shows "\<exists>h. XXPH3_len_129to240_64b input secret seed = Some h"
proof -
  let ?mix = "add_mix16B input secret seed" and ?n = "length input div 16"
  have n: "8 \<le> ?n" using assms by simp
  obtain a1 where a1: "for_each [0..<8] (\<lambda>i. ?mix (16 * i) (16 * i)) (of_nat (length input) * PRIME64_1) = Some a1"
    using assms for_each_ok [of "[0..<8]" "\<lambda>i. ?mix (16 * i) (16 * i)"] by (auto simp: add_mix16B_some)
  have "\<exists>a2. for_each [8..<?n] (\<lambda>i. ?mix (16 * i) (16 * (i - 8) + 3)) (XXPH3_avalanche a1) = Some a2"
  proof (rule for_each_ok)
    fix i acc
    assume "i \<in> set [8..<?n]"
    then have "16 * i + 16 \<le> length input" "16 * (i - 8) + 3 + 16 \<le> length secret" using assms by auto
    then show "\<exists>acc'. ?mix (16 * i) (16 * (i - 8) + 3) acc = Some acc'" by (simp add: add_mix16B_some)
  qed
  then obtain a2 where
    a2: "for_each [8..<?n] (\<lambda>i. ?mix (16 * i) (16 * (i - 8) + 3)) (XXPH3_avalanche a1) = Some a2" ..
  show ?thesis
    using assms n by (simp add: XXPH3_len_129to240_64b_def Let_def XXPH3_SECRET_SIZE_MIN_def a1 a2 add_mix16B_some)
qed

lemma XXPH3_accumulate_512_ok:
  assumes "p + 64 \<le> length input" and "s + 64 \<le> length secret"
  shows "\<exists>acc'. XXPH3_accumulate_512 acc input p secret s accWidth = Some acc'"
  unfolding XXPH3_accumulate_512_def
  using assms by (intro for_each_ok) (simp add: readLE_some ACC_NB_def STRIPE_LEN_def Let_def)

lemma XXPH3_scrambleAcc_ok:
  assumes "s + 64 \<le> length secret"
  shows "\<exists>acc'. XXPH3_scrambleAcc acc secret s = Some acc'"
  unfolding XXPH3_scrambleAcc_def
  using assms by (intro for_each_ok) (simp add: readLE_some ACC_NB_def STRIPE_LEN_def Let_def)

lemma XXPH3_accumulate_ok:
  assumes "p + n * 64 \<le> length input" and "(n - 1) * 8 + 64 \<le> length secret"
  shows "\<exists>acc'. XXPH3_accumulate acc input p secret n accWidth = Some acc'"
  unfolding XXPH3_accumulate_def STRIPE_LEN_def XXPH_SECRET_CONSUME_RATE_def
proof (intro for_each_ok XXPH3_accumulate_512_ok)
  fix i
  assume "i \<in> set [0..<n]"
  then have "i \<le> n - 1" "(i + 1) * 64 \<le> n * 64" by auto
  then show "p + i * 64 + 64 \<le> length input" "i * 8 + 64 \<le> length secret"
    using assms by auto
qed

lemma XXPH3_hashLong_internal_loop_ok:
  assumes "64 < length input" and "136 \<le> length secret"
  shows "\<exists>acc'. XXPH3_hashLong_internal_loop acc input secret accWidth = Some acc'"
proof -
  let ?len = "length input" and ?size = "length secret"
  define r where "r = (?size - 64) div 8"
  define m where "m = ?len div (64 * r)"
  define q where "q = (?len - 64 * r * m) div 64"
  have r: "9 \<le> r" "r * 8 + 64 \<le> ?size" using assms(2) unfolding r_def by auto
  have block: "m * (64 * r) \<le> ?len" "?len - 64 * r * m < 64 * r"
    using r(1) by (auto simp: m_def mult.commute minus_mult_div_eq_mod)
  have q: "q < r" using block(2) by (simp add: q_def less_mult_imp_div_less mult.commute)
  have mid: "m * (64 * r) + q * 64 \<le> ?len"
  proof -
    have "q * 64 \<le> ?len - 64 * r * m" unfolding q_def by simp
    with block(1) show ?thesis by (simp add: mult.commute)
  qed
  have step: "\<exists>acc'. Option.bind (XXPH3_accumulate acc input (n * (64 * r)) secret r accWidth)
      (\<lambda>acc. XXPH3_scrambleAcc acc secret (?size - 64)) = Some acc'" if "n \<in> set [0..<m]" for n acc
  proof -
    have "(n + 1) * (64 * r) \<le> m * (64 * r)" using that by (intro mult_le_mono1) simp
    then have "n * (64 * r) + r * 64 \<le> ?len" using block(1) by (simp add: algebra_simps)
    moreover have "(r - 1) * 8 + 64 \<le> ?size" using r by simp
    ultimately obtain a1 where "XXPH3_accumulate acc input (n * (64 * r)) secret r accWidth = Some a1"
      using XXPH3_accumulate_ok by blast
    moreover obtain a2 where "XXPH3_scrambleAcc a1 secret (?size - 64) = Some a2"
      using XXPH3_scrambleAcc_ok [of "?size - 64" secret a1] r by auto
    ultimately show ?thesis by simp
  qed
  obtain a1 where a1: "for_each [0..<m] (\<lambda>n acc. Option.bind (XXPH3_accumulate acc input (n * (64 * r)) secret r accWidth)
      (\<lambda>acc. XXPH3_scrambleAcc acc secret (?size - 64))) acc = Some a1"
    using for_each_ok [of "[0..<m]" "\<lambda>n acc. Option.bind (XXPH3_accumulate acc input (n * (64 * r)) secret r accWidth)
      (\<lambda>acc. XXPH3_scrambleAcc acc secret (?size - 64))" acc] step by blast
  obtain a2 where a2: "XXPH3_accumulate a1 input (m * (64 * r)) secret q accWidth = Some a2"
  proof -
    have "(q - 1) * 8 \<le> r * 8" using q by (intro mult_le_mono1) simp
    then have "(q - 1) * 8 + 64 \<le> ?size" using r(2) by linarith
    from XXPH3_accumulate_ok [OF mid this] that show thesis by blast
  qed
  obtain a3 where a3: "XXPH3_accumulate_512 a2 input (?len - 64) secret (?size - 64 - 7) accWidth = Some a3"
    using XXPH3_accumulate_512_ok [of "?len - 64" input "?size - 64 - 7" secret a2 accWidth] assms by auto
  have "q \<le> ?size div 8" using q r by simp
  then show ?thesis
    using assms a1 a2 a3
    unfolding XXPH3_hashLong_internal_loop_def Let_def STRIPE_LEN_def XXPH_SECRET_CONSUME_RATE_def
      XXPH3_SECRET_SIZE_MIN_def r_def [symmetric] m_def [symmetric] q_def [symmetric]
    by simp
qed

lemma XXPH3_hashLong_internal_ok:
  assumes "64 < length input" and "136 \<le> length secret"
  shows "\<exists>h. XXPH3_hashLong_internal input secret = Some h"
proof -
  have "\<exists>h. XXPH3_mergeAccs acc secret 11 start = Some h" for acc start
    using assms(2) by (simp add: XXPH3_mergeAccs_def XXPH3_mix2Accs_def Let_def readLE_some)
  moreover obtain acc where "XXPH3_hashLong_internal_loop XXPH3_INIT_ACC input secret XXPH3_acc_64bits = Some acc"
    using XXPH3_hashLong_internal_loop_ok [OF assms] by blast
  ultimately show ?thesis using assms(2) by (simp add: XXPH3_hashLong_internal_def)
qed

text \<open>The secret derived from a seed does not depend on what the array held.\<close>

definition secret_round :: "u64 \<Rightarrow> nat \<Rightarrow> bytes" where
  "secret_round seed i =
     le_bytes 8 (le_value (take 8 (drop (16 * i) kSecret)) + seed) @
     le_bytes 8 (le_value (take 8 (drop (16 * i + 8) kSecret)) - seed)"

lemma length_secret_rounds: "length (concat (map (secret_round seed) is)) = 16 * length is"
  by (induction "is") (simp_all add: secret_round_def)

lemma writeLE64_some:
  "length xs + 8 \<le> length (xs @ ys) \<Longrightarrow>
   XXPH_writeLE64 (xs @ ys) (length xs) v = Some (xs @ le_bytes 8 v @ drop 8 ys)"
  by (simp add: XXPH_writeLE64_def XXPH_CPU_LITTLE_ENDIAN_def)

lemma initCustomSecret_value:
  assumes "length garbage = 192"
  shows "XXPH3_initCustomSecret garbage seed = Some (concat (map (secret_round seed) [0..<12]))"
proof -
  define f where "f = (\<lambda>i customSecret. do {
      lo \<leftarrow> XXPH_readLE64 kSecret (16 * i);
      customSecret \<leftarrow> XXPH_writeLE64 customSecret (16 * i) (lo + seed);
      hi \<leftarrow> XXPH_readLE64 kSecret (16 * i + 8);
      XXPH_writeLE64 customSecret (16 * i + 8) (hi - seed)
    })"
  have "for_each [0..<k] f garbage = Some (concat (map (secret_round seed) [0..<k]) @ drop (16 * k) garbage)"
    if "k \<le> 12" for k
    using that
  proof (induction k)
    case (Suc k)
    let ?xs = "concat (map (secret_round seed) [0..<k])" and ?ys = "drop (16 * k) garbage"
    let ?lo = "le_value (take 8 (drop (16 * k) kSecret)) + seed :: u64"
    let ?hi = "le_value (take 8 (drop (16 * k + 8) kSecret)) - seed :: u64"
    have xs: "length ?xs = 16 * k" by (simp add: length_secret_rounds)
    have w1: "XXPH_writeLE64 (?xs @ ?ys) (16 * k) ?lo = Some (?xs @ le_bytes 8 ?lo @ drop 8 ?ys)"
      using writeLE64_some [of ?xs ?ys ?lo] xs Suc.prems assms by simp
    have w2: "XXPH_writeLE64 (?xs @ le_bytes 8 ?lo @ drop 8 ?ys) (16 * k + 8) ?hi =
        Some (?xs @ le_bytes 8 ?lo @ le_bytes 8 ?hi @ drop 8 (drop 8 ?ys))"
      using writeLE64_some [of "?xs @ le_bytes 8 ?lo" "drop 8 ?ys" ?hi] xs Suc.prems assms by simp
    have "16 * k + 8 \<le> length kSecret" "16 * k + 8 + 8 \<le> length kSecret"
      using Suc.prems by (simp_all add: length_kSecret)
    then have "f k (?xs @ ?ys) = Some (?xs @ secret_round seed k @ drop (16 * Suc k) garbage)"
      unfolding f_def using w1 w2 by (simp add: readLE_some secret_round_def)
    then show ?case using Suc by (simp add: for_each_append)
  qed simp
  from this [of 12] assms show ?thesis
    by (simp add: XXPH3_initCustomSecret_def length_kSecret f_def)
qed

lemma length_custom_secret: "length (concat (map (secret_round seed) [0..<12])) = 192"
  by (subst length_secret_rounds) simp

section \<open>Short keys are kept apart\<close>

lemma odd_factor_inj:
  fixes c d :: u64
  assumes "c * d = 1"
  shows "x * c = y * c \<longleftrightarrow> x = y"
proof
  have inv: "z * c * d = z" for z by (simp only: mult.assoc assms mult_1_right)
  assume "x * c = y * c"
  from arg_cong [OF this, of "\<lambda>z. z * d"] show "x = y" by (simp only: inv)
qed simp

lemma XXPH3_avalanche_inj: "XXPH3_avalanche x = XXPH3_avalanche y \<longleftrightarrow> x = y"
proof -
  have "PRIME64_3 * 0xe9e9f4c41d6df849 = 1" unfolding PRIME64_3_def by code_simp
  then show ?thesis by (simp add: XXPH3_avalanche_def Let_def xorshift_inj odd_factor_inj)
qed

lemma xor_same_inj: "x XOR k = y XOR k \<longleftrightarrow> x = y" for x y k :: "'a::len word"
  by (auto simp: bit_eq_iff bit_simps)

lemma word_of_halves_inj:
  fixes a b c d :: u32
  assumes "ucast a OR push_bit 32 (ucast b) = (ucast c OR push_bit 32 (ucast d) :: u64)"
  shows "a = c \<and> b = d"
proof
  have "bit a n = bit c n" if "n < 32" for n
    using arg_cong [OF assms, of "\<lambda>w. bit w n"] that by (simp add: bit_simps)
  then show "a = c" by (intro bit_word_eqI) simp
  have "bit b n = bit d n" if "n < 32" for n
    using arg_cong [OF assms, of "\<lambda>w. bit w (n + 32)"] that by (auto simp: bit_simps dest: bit_imp_le_length)
  then show "b = d" by (intro bit_word_eqI) simp
qed

lemma le_value_inj_4:
  "length v = 4 \<Longrightarrow> length w = 4 \<Longrightarrow> (le_value v :: u32) = le_value w \<longleftrightarrow> v = w"
  using DecodeFixed32_inj [of v w] by (simp add: DecodeFixed32_def kLittleEndian_def)

lemma XXPH3_len_4to8_inj:
  assumes "length x = length y" and "4 \<le> length x" and "length x \<le> 8" and "8 \<le> length secret"
    and eq: "XXPH3_len_4to8_64b x secret seed = XXPH3_len_4to8_64b y secret seed"
  shows "x = y"
proof -
  have "PRIME32_1 * 0xcfa4a56b0e8b2f51 = 1" "PRIME64_2 * 0xba79078168d4baf = 1"
    unfolding PRIME32_1_def PRIME64_2_def by code_simp+
  note inj = XXPH3_avalanche_inj xorshift_inj odd_factor_inj [OF this(1)] odd_factor_inj [OF this(2)] xor_same_inj
  let ?k = "length y - 4"
  have "ucast (le_value (take 4 x) :: u32) OR push_bit 32 (ucast (le_value (take 4 (drop ?k x)) :: u32)) =
      (ucast (le_value (take 4 y) :: u32) OR push_bit 32 (ucast (le_value (take 4 (drop ?k y)) :: u32)) :: u64)"
    using assms by (simp add: XXPH3_len_4to8_64b_def Let_def readLE_some inj del: drop_bit_xor drop_bit_or)
  from word_of_halves_inj [OF this] assms
  have "take 4 x = take 4 y" "take 4 (drop ?k x) = take 4 (drop ?k y)"
    by (simp_all add: le_value_inj_4)
  moreover have "take 4 (drop ?k z) = drop ?k z" if "length z = length y" for z :: bytes
    using that assms(1,2) by simp
  ultimately have "drop (8 - length y) (drop ?k x) = drop (8 - length y) (drop ?k y)" using assms(1) by simp
  then have "drop 4 x = drop 4 y" using assms(1-3) by simp
  with \<open>take 4 x = take 4 y\<close> show ?thesis by (metis append_take_drop_id)
qed

lemma bit_ucast_lower: "n < 32 \<Longrightarrow> bit (ucast (w :: u32) :: u64) n = bit w n"
  by (simp add: bit_simps)

lemma XXPH3_len_1to3_inj:
  assumes "length x = length y" and "1 \<le> length x" and "length x \<le> 3" and "8 \<le> length secret"
    and eq: "XXPH3_len_1to3_64b x secret seed = XXPH3_len_1to3_64b y secret seed"
  shows "x = y"
proof -
  have "PRIME64_1 * 0x887493432badb37 = 1" unfolding PRIME64_1_def by code_simp
  note inj = XXPH3_avalanche_inj odd_factor_inj [OF this] xor_same_inj
  have ne: "y \<noteq> []" using assms(1,2) by auto
  let ?c = "\<lambda>z. ucast (z ! 0) OR push_bit 8 (ucast (z ! (length y div 2))) OR
    push_bit 16 (ucast (z ! (length y - 1))) OR push_bit 24 (of_nat (length y)) :: u32"
  have "(ucast (?c x) :: u64) = ucast (?c y)"
    using assms ne by (simp add: XXPH3_len_1to3_64b_def Let_def readLE_some read8_some inj)
  then have c: "bit (?c x) n = bit (?c y) n" if "n < 32" for n
    using that by (metis bit_ucast_lower)
  have byte: "x ! i = y ! i"
    if "\<And>n. n < 8 \<Longrightarrow> bit (?c x) (k + n) = bit (x ! i) n" "\<And>n. n < 8 \<Longrightarrow> bit (?c y) (k + n) = bit (y ! i) n"
      "k \<le> 16" for i k
    using that c by (intro bit_word_eqI) (simp flip: that(1,2))
  have "x ! 0 = y ! 0" by (rule byte [of 0]) (auto simp: bit_simps dest: bit_imp_le_length)
  moreover have "x ! (length y div 2) = y ! (length y div 2)"
    by (rule byte [of 8]) (auto simp: bit_simps dest: bit_imp_le_length)
  moreover have "x ! (length y - 1) = y ! (length y - 1)"
    by (rule byte [of 16]) (auto simp: bit_simps dest: bit_imp_le_length)
  moreover have "i = 0 \<or> i = length y div 2 \<or> i = length y - 1" if "i < length y" for i
    using that assms(1-3) by auto
  ultimately show ?thesis using assms(1) by (metis nth_equalityI)
qed

section \<open>The two multiplications\<close>

lemma mult32to64_halves:
  "XXPH_mult32to64 (a AND 0xFFFFFFFF) b = (a AND 0xFFFFFFFF) * (b AND 0xFFFFFFFF)"
  "XXPH_mult32to64 (drop_bit 32 a) b = drop_bit 32 a * (b AND 0xFFFFFFFF)"
  "(drop_bit 32 c :: u64) AND 0xFFFFFFFF = drop_bit 32 c"
proof -
  have "(0xFFFFFFFF :: u64) = mask 32" by (simp add: mask_eq_exp_minus_1)
  then have m: "z AND 0xFFFFFFFF = take_bit 32 z" for z :: u64 by (simp only: take_bit_eq_mask)
  have d: "take_bit 32 (drop_bit 32 z) = drop_bit 32 (z :: u64)" for z
    by (rule bit_word_eqI) (auto simp: bit_simps dest: bit_imp_le_length)
  show "XXPH_mult32to64 (a AND 0xFFFFFFFF) b = (a AND 0xFFFFFFFF) * (b AND 0xFFFFFFFF)"
    by (simp only: XXPH_mult32to64_def m take_bit_take_bit) simp
  show "XXPH_mult32to64 (drop_bit 32 a) b = drop_bit 32 a * (b AND 0xFFFFFFFF)"
    by (simp only: XXPH_mult32to64_def m d)
  show "(drop_bit 32 c :: u64) AND 0xFFFFFFFF = drop_bit 32 c" by (simp only: m d)
qed

lemma and_low_twice: "(z AND 0xFFFFFFFF) AND 0xFFFFFFFF = z AND (0xFFFFFFFF :: u64)"
  by (simp only: and.assoc and.idem)

lemma portable_multiplication: "XXPH_mult64to128_portable lhs rhs = XXPH_mult64to128 lhs rhs"
proof -
  have "XXPH_mult64to128_portable lhs rhs = Multiply64to128 rhs lhs"
    unfolding XXPH_mult64to128_portable_def Multiply64to128_def Let_def mult32to64_halves and_low_twice
      U128_pair_def
    by (simp only: ac_simps)
  moreover have "u128 (XXPH_mult64to128 lhs rhs) = ucast lhs * ucast rhs"
    by (rule bit_word_eqI) (auto simp: XXPH_mult64to128_def Let_def bit_u128 bit_simps)
  ultimately show ?thesis
    by (simp add: u128_inject [symmetric] Multiply64to128_u128 mult.commute)
qed

section \<open>Properties\<close>

lemma entry_points_ok:
  assumes "length garbage = 192"
  shows "\<exists>h. XXPH3_64bits_withSeed garbage input seed = Some h"
  using assms XXPH3_len_0to16_ok [of input kSecret seed] XXPH3_len_17to128_ok [of input kSecret seed]
    XXPH3_len_129to240_ok [of input kSecret seed] XXPH3_hashLong_internal_ok [of input kSecret]
    XXPH3_hashLong_internal_ok [of input "concat (map (secret_round seed) [0..<12])"]
  by (simp add: XXPH3_64bits_withSeed_def Let_def length_kSecret XXPH3_hashLong_64b_withSeed_def
      XXPH3_hashLong_64b_defaultSecret_def initCustomSecret_value length_custom_secret)

text \<open>
  C23. The 64-bit hash reads only within its input and its secret, for inputs of every length: with a seed,
  without one and with a secret of at least 136 bytes no read leaves the bounds and no assertion fails.
  The result does not depend on what the uninitialized secret array held; with seed 0 it is the unseeded
  hash, as is the one with the default secret; and the portable 64 by 64 bit multiplication is the one of
  the compiler.
\<close>

theorem hash64_memory_safe:
  assumes "length garbage = 192" and "length garbage' = 192" and "136 \<le> length secret"
  shows "(\<exists>h. XXPH3_64bits_withSeed garbage input seed = Some h) \<and>
    (\<exists>h. XXPH3_64bits_withSecret input secret = Some h) \<and>
    XXPH3_64bits_withSeed garbage input seed = XXPH3_64bits_withSeed garbage' input seed \<and>
    XXPH3_64bits_withSeed garbage input 0 = XXPH3_64bits input \<and>
    XXPH3_64bits_withSecret input kSecret = XXPH3_64bits input \<and>
    XXPH_mult64to128_portable a b = XXPH_mult64to128 a b"
proof (intro conjI)
  show "\<exists>h. XXPH3_64bits_withSeed garbage input seed = Some h" by (rule entry_points_ok) fact
  show "\<exists>h. XXPH3_64bits_withSecret input secret = Some h"
    using assms(3) XXPH3_len_0to16_ok [of input secret 0] XXPH3_len_17to128_ok [of input secret 0]
      XXPH3_len_129to240_ok [of input secret 0] XXPH3_hashLong_internal_ok [of input secret]
    by (simp add: XXPH3_64bits_withSecret_def Let_def XXPH3_SECRET_SIZE_MIN_def
        XXPH3_hashLong_64b_withSecret_def)
  show "XXPH3_64bits_withSeed garbage input seed = XXPH3_64bits_withSeed garbage' input seed"
    using assms by (simp add: Let_def XXPH3_64bits_withSeed_def XXPH3_hashLong_64b_withSeed_def initCustomSecret_value)
  show "XXPH3_64bits_withSeed garbage input 0 = XXPH3_64bits input"
    by (simp add: Let_def XXPH3_64bits_withSeed_def XXPH3_64bits_def XXPH3_hashLong_64b_withSeed_def)
  show "XXPH3_64bits_withSecret input kSecret = XXPH3_64bits input"
    by (simp add: Let_def XXPH3_64bits_withSecret_def XXPH3_64bits_def length_kSecret XXPH3_SECRET_SIZE_MIN_def
        XXPH3_hashLong_64b_withSecret_def XXPH3_hashLong_64b_defaultSecret_def)
qed (rule portable_multiplication)

theorem hash64_memory_safe_witness:
  "length (replicate 192 (7 :: byte)) = 192 \<and> 136 \<le> length (replicate 140 (1 :: byte)) \<and>
   (\<exists>h. XXPH3_64bits_withSeed (replicate 192 7) (replicate 1000 5) 3 = Some h)"
  using conjunct1 [OF hash64_memory_safe
      [of "replicate 192 7" "replicate 192 9" "replicate 140 1" "replicate 1000 5" 3 0 0]]
  by simp

lemma Hash64_short_inj:
  assumes "length x = length y" and "length x \<le> 8"
  shows "Hash64 garbage x seed = Hash64 garbage y seed \<longleftrightarrow> x = y"
proof
  assume "Hash64 garbage x seed = Hash64 garbage y seed"
  then have eq: "XXPH3_len_0to16_64b x kSecret seed = XXPH3_len_0to16_64b y kSecret seed"
    using assms by (simp add: Hash64_def XXPH3_64bits_withSeed_def Let_def)
  show "x = y"
  proof (cases "4 \<le> length x")
    case True
    with eq assms XXPH3_len_4to8_inj [of x y kSecret seed] show ?thesis
      by (simp add: XXPH3_len_0to16_64b_def length_kSecret)
  next
    case False
    with eq assms XXPH3_len_1to3_inj [of x y kSecret seed] show ?thesis
      by (cases "length x = 0") (simp_all add: XXPH3_len_0to16_64b_def length_kSecret)
  qed
qed simp

text \<open>The value that callers of \<^verbatim>\<open>Hash64\<close> get.\<close>

definition hash64_of :: "bytes \<Rightarrow> bytes \<Rightarrow> u64 \<Rightarrow> u64" where
  "hash64_of garbage data seed = the (Hash64 garbage data seed)"

lemma hash64_of_inj:
  assumes "length garbage = 192" and "length x = length y" and "length x \<le> 8"
  shows "hash64_of garbage x seed = hash64_of garbage y seed \<longleftrightarrow> x = y"
proof -
  obtain h h' where "Hash64 garbage x seed = Some h" "Hash64 garbage y seed = Some h'"
    using entry_points_ok [OF assms(1)] by (metis Hash64_def)
  with Hash64_short_inj [OF assms(2,3), of garbage seed] show ?thesis by (simp add: hash64_of_def)
qed

end
