(* ===== verification/Xiao_Status.thy ===== *)
theory Xiao_Status
  imports Xiao_Prelude
begin

text \<open>
  \<^verbatim>\<open>include/xiaodb/status.h\<close>: the result type of every fallible operation. A status
  carries a code, a subcode, a severity and flags; the message text is kept as the pair of
  slices the constructor was given, because the constructor that joins them is not part of the
  sources.
\<close>

datatype Code =
    kOk | kNotFound | kCorruption | kNotSupported | kInvalidArgument | kIOError
  | kMergeInProgress | kIncomplete | kShutdownInProgress | kTimedOut | kAborted | kBusy
  | kExpired | kTryAgain | kCompactionTooLarge | kColumnFamilyDropped | kMaxCode

datatype SubCode =
    kNone | kMutexTimeout | kLockTimeout | kLockLimit | kNoSpace | kDeadlock | kStaleFile
  | kMemoryLimit | kSpaceLimit | kPathNotFound | KMergeOperandsInsufficientCapacity
  | kManualCompactionPaused | kOverwritten | kTxnNotPrepared | kIOFenced
  | kMergeOperatorFailed | kMergeOperandThresholdExceeded | kMaxSubCode

datatype Severity =
    kNoError | kSoftError | kHardError | kFatalError | kUnrecoverableError | kMaxSeverity

record Status =
  st_code :: Code
  st_subcode :: SubCode
  st_sev :: Severity
  st_retryable :: bool
  st_data_loss :: bool
  st_scope :: byte
  st_state :: "(string \<times> string) option"

definition Status_sub :: "Code \<Rightarrow> SubCode \<Rightarrow> Status" where
  "Status_sub c sc = \<lparr>st_code = c, st_subcode = sc, st_sev = kNoError, st_retryable = False,
     st_data_loss = False, st_scope = 0, st_state = None\<rparr>"

definition Status_msg :: "Code \<Rightarrow> SubCode \<Rightarrow> string \<Rightarrow> string \<Rightarrow> Status" where
  "Status_msg c sc m m2 = (Status_sub c sc)\<lparr>st_state := Some (m, m2)\<rparr>"

definition Status_OK :: Status where
  "Status_OK = Status_sub kOk kNone"

definition Status_OkOverwritten :: Status where
  "Status_OkOverwritten = Status_sub kOk kOverwritten"

definition Status_NotFound :: Status where
  "Status_NotFound = Status_sub kNotFound kNone"

definition Status_Corruption :: "string \<Rightarrow> string \<Rightarrow> Status" where
  "Status_Corruption m m2 = Status_msg kCorruption kNone m m2"

definition Status_NotSupported :: "string \<Rightarrow> Status" where
  "Status_NotSupported m = Status_msg kNotSupported kNone m ''''"

definition Status_NotSupported_none :: Status where
  "Status_NotSupported_none = Status_sub kNotSupported kNone"

definition Status_InvalidArgument :: "string \<Rightarrow> Status" where
  "Status_InvalidArgument m = Status_msg kInvalidArgument kNone m ''''"

definition Status_TryAgain :: Status where
  "Status_TryAgain = Status_sub kTryAgain kNone"

definition Status_MemoryLimit :: Status where
  "Status_MemoryLimit = Status_sub kAborted kMemoryLimit"

definition Status_MemoryLimit_msg :: "string \<Rightarrow> Status" where
  "Status_MemoryLimit_msg m = Status_msg kAborted kMemoryLimit m ''''"

definition ok :: "Status \<Rightarrow> bool" where
  "ok s \<longleftrightarrow> st_code s = kOk"

definition IsOkOverwritten :: "Status \<Rightarrow> bool" where
  "IsOkOverwritten s \<longleftrightarrow> st_code s = kOk \<and> st_subcode s = kOverwritten"

definition IsNotFound :: "Status \<Rightarrow> bool" where
  "IsNotFound s \<longleftrightarrow> st_code s = kNotFound"

definition IsCorruption :: "Status \<Rightarrow> bool" where
  "IsCorruption s \<longleftrightarrow> st_code s = kCorruption"

definition IsNotSupported :: "Status \<Rightarrow> bool" where
  "IsNotSupported s \<longleftrightarrow> st_code s = kNotSupported"

definition IsInvalidArgument :: "Status \<Rightarrow> bool" where
  "IsInvalidArgument s \<longleftrightarrow> st_code s = kInvalidArgument"

definition IsTryAgain :: "Status \<Rightarrow> bool" where
  "IsTryAgain s \<longleftrightarrow> st_code s = kTryAgain"

definition IsMemoryLimit :: "Status \<Rightarrow> bool" where
  "IsMemoryLimit s \<longleftrightarrow> st_code s = kAborted \<and> st_subcode s = kMemoryLimit"

definition UpdateIfOk :: "Status \<Rightarrow> Status \<Rightarrow> Status" where
  "UpdateIfOk this s = (if st_code this = kOk then s else this)"

definition Status_eq :: "Status \<Rightarrow> Status \<Rightarrow> bool" where
  "Status_eq a b \<longleftrightarrow> st_code a = st_code b"

lemmas status_defs = Status_sub_def Status_msg_def Status_OK_def Status_OkOverwritten_def
  Status_NotFound_def Status_Corruption_def Status_NotSupported_def Status_NotSupported_none_def
  Status_InvalidArgument_def Status_TryAgain_def Status_MemoryLimit_def Status_MemoryLimit_msg_def
  ok_def IsOkOverwritten_def IsNotFound_def IsCorruption_def IsNotSupported_def
  IsInvalidArgument_def IsTryAgain_def IsMemoryLimit_def

lemma ok_simps [simp, status_simps]:
  "ok Status_OK" "ok Status_OkOverwritten" "\<not> ok Status_NotFound" "\<not> ok (Status_Corruption m m2)"
  "\<not> ok (Status_NotSupported m)" "\<not> ok Status_NotSupported_none"
  "\<not> ok (Status_InvalidArgument m)" "\<not> ok Status_TryAgain" "\<not> ok Status_MemoryLimit"
  "\<not> ok (Status_MemoryLimit_msg m)"
  by (simp_all add: status_defs)

lemma IsTryAgain_simps [simp, status_simps]:
  "\<not> IsTryAgain Status_OK" "\<not> IsTryAgain Status_OkOverwritten" "\<not> IsTryAgain Status_NotFound"
  "\<not> IsTryAgain (Status_Corruption m m2)" "\<not> IsTryAgain (Status_NotSupported m)"
  "\<not> IsTryAgain Status_NotSupported_none" "\<not> IsTryAgain (Status_InvalidArgument m)"
  "IsTryAgain Status_TryAgain" "\<not> IsTryAgain Status_MemoryLimit"
  "\<not> IsTryAgain (Status_MemoryLimit_msg m)"
  by (simp_all add: status_defs)

lemma IsCorruption_simps [simp, status_simps]:
  "IsCorruption (Status_Corruption m m2)" "\<not> IsCorruption Status_OK"
  "\<not> IsCorruption Status_NotFound" "\<not> IsCorruption (Status_InvalidArgument m)"
  "\<not> IsCorruption Status_MemoryLimit" "\<not> IsCorruption (Status_NotSupported m)"
  by (simp_all add: status_defs)

lemma Status_distinct [simp]:
  "Status_Corruption m m2 \<noteq> Status_OK" "Status_OK \<noteq> Status_Corruption m m2"
  "Status_InvalidArgument m \<noteq> Status_OK" "Status_OK \<noteq> Status_InvalidArgument m"
  "Status_NotFound \<noteq> Status_OK" "Status_OK \<noteq> Status_NotFound"
  "Status_MemoryLimit \<noteq> Status_OK" "Status_OK \<noteq> Status_MemoryLimit"
  "Status_NotSupported m \<noteq> Status_OK" "Status_OK \<noteq> Status_NotSupported m"
  by (simp_all add: status_defs)

lemma ok_not_TryAgain: "ok s \<Longrightarrow> \<not> IsTryAgain s"
  by (simp add: status_defs)

lemma UpdateIfOk_ok [simp]: "ok a \<Longrightarrow> UpdateIfOk a b = b" "\<not> ok a \<Longrightarrow> UpdateIfOk a b = a"
  by (simp_all add: UpdateIfOk_def ok_def)

end
