(* ===== verification/Db_Format.thy ===== *)
theory Db_Format
  imports Coding Xiao_Status Xiao_Slice
begin

text \<open>
  \<^verbatim>\<open>db/dbformat.h\<close>: value types, the packing of a sequence number and a type into the
  eight-byte footer of an internal key, the routines that take internal keys apart, the internal
  key comparator and the predecessor-WAL record. A slice is the list of its bytes.

  The user comparator (\<^verbatim>\<open>Comparator::Compare\<close>, reached through a \<^verbatim>\<open>UserComparatorWrapper\<close> whose
  \<^verbatim>\<open>Compare\<close> has no body in the sources) and \<^verbatim>\<open>ParsedInternalKey::DebugString\<close> are parameters.
  The assertions of \<^verbatim>\<open>PackSequenceAndType\<close> are the predicate \<open>packable\<close>; the one of \<^verbatim>\<open>ParseInternalKey\<close> is
  part of its definition. The remaining asserts state that a key is long enough for its footer and
  timestamp; there the definitions give the bytes that are left.
\<close>

section \<open>Value types\<close>

text \<open>
  The enumeration has \<^verbatim>\<open>unsigned char\<close> as its underlying type, and the code casts bytes read
  from disk to it, so a value type is a byte.
\<close>

type_synonym ValueType = byte
type_synonym SequenceNumber = u64

abbreviation kTypeDeletion :: ValueType where "kTypeDeletion \<equiv> 0x00"
abbreviation kTypeValue :: ValueType where "kTypeValue \<equiv> 0x01"
abbreviation kTypeMerge :: ValueType where "kTypeMerge \<equiv> 0x02"
abbreviation kTypeLogData :: ValueType where "kTypeLogData \<equiv> 0x03"
abbreviation kTypeColumnFamilyDeletion :: ValueType where "kTypeColumnFamilyDeletion \<equiv> 0x04"
abbreviation kTypeColumnFamilyValue :: ValueType where "kTypeColumnFamilyValue \<equiv> 0x05"
abbreviation kTypeColumnFamilyMerge :: ValueType where "kTypeColumnFamilyMerge \<equiv> 0x06"
abbreviation kTypeSingleDeletion :: ValueType where "kTypeSingleDeletion \<equiv> 0x07"
abbreviation kTypeColumnFamilySingleDeletion :: ValueType
  where "kTypeColumnFamilySingleDeletion \<equiv> 0x08"
abbreviation kTypeBeginPrepareXID :: ValueType where "kTypeBeginPrepareXID \<equiv> 0x09"
abbreviation kTypeEndPrepareXID :: ValueType where "kTypeEndPrepareXID \<equiv> 0x0A"
abbreviation kTypeCommitXID :: ValueType where "kTypeCommitXID \<equiv> 0x0B"
abbreviation kTypeRollbackXID :: ValueType where "kTypeRollbackXID \<equiv> 0x0C"
abbreviation kTypeNoop :: ValueType where "kTypeNoop \<equiv> 0x0D"
abbreviation kTypeColumnFamilyRangeDeletion :: ValueType
  where "kTypeColumnFamilyRangeDeletion \<equiv> 0x0E"
abbreviation kTypeRangeDeletion :: ValueType where "kTypeRangeDeletion \<equiv> 0x0F"
abbreviation kTypeColumnFamilyBlobIndex :: ValueType where "kTypeColumnFamilyBlobIndex \<equiv> 0x10"
abbreviation kTypeBlobIndex :: ValueType where "kTypeBlobIndex \<equiv> 0x11"
abbreviation kTypeBeginPersistedPrepareXID :: ValueType
  where "kTypeBeginPersistedPrepareXID \<equiv> 0x12"
abbreviation kTypeBeginUnprepareXID :: ValueType where "kTypeBeginUnprepareXID \<equiv> 0x13"
abbreviation kTypeDeletionWithTimestamp :: ValueType where "kTypeDeletionWithTimestamp \<equiv> 0x14"
abbreviation kTypeCommitXIDAndTimestamp :: ValueType where "kTypeCommitXIDAndTimestamp \<equiv> 0x15"
abbreviation kTypeWideColumnEntity :: ValueType where "kTypeWideColumnEntity \<equiv> 0x16"
abbreviation kTypeColumnFamilyWideColumnEntity :: ValueType
  where "kTypeColumnFamilyWideColumnEntity \<equiv> 0x17"
abbreviation kTypeValuePreferredSeqno :: ValueType where "kTypeValuePreferredSeqno \<equiv> 0x18"
abbreviation kTypeColumnFamilyValuePreferredSeqno :: ValueType
  where "kTypeColumnFamilyValuePreferredSeqno \<equiv> 0x19"
abbreviation kTypeMaxValid :: ValueType where "kTypeMaxValid \<equiv> 0x1A"
abbreviation kMaxValue :: ValueType where "kMaxValue \<equiv> 0x7F"

definition IsValueType :: "ValueType \<Rightarrow> bool" where
  "IsValueType t \<longleftrightarrow> t \<le> kTypeMerge \<or> kTypeSingleDeletion = t \<or> kTypeBlobIndex = t \<or>
     kTypeDeletionWithTimestamp = t \<or> kTypeWideColumnEntity = t \<or> kTypeValuePreferredSeqno = t"

definition IsExtendedValueType :: "ValueType \<Rightarrow> bool" where
  "IsExtendedValueType t \<longleftrightarrow> IsValueType t \<or> t = kTypeRangeDeletion \<or> t = kTypeMaxValid"

definition kMaxSequenceNumber :: SequenceNumber where
  "kMaxSequenceNumber = push_bit 56 1 - 1"

definition kDisableGlobalSequenceNumber :: SequenceNumber where
  "kDisableGlobalSequenceNumber = - 1"

definition kNumInternalBytes :: nat where
  "kNumInternalBytes = 8"

section \<open>Internal keys\<close>

record ParsedInternalKey =
  pk_user_key :: bytes
  pk_sequence :: SequenceNumber
  pk_type :: ValueType

definition ParsedInternalKey_default :: ParsedInternalKey where
  "ParsedInternalKey_default =
     \<lparr>pk_user_key = [], pk_sequence = kMaxSequenceNumber, pk_type = kTypeDeletion\<rparr>"

definition ParsedInternalKey_clear :: "ParsedInternalKey \<Rightarrow> ParsedInternalKey" where
  "ParsedInternalKey_clear k =
     k\<lparr>pk_user_key := [], pk_sequence := 0, pk_type := kTypeDeletion\<rparr>"

definition SetTimestamp :: "ParsedInternalKey \<Rightarrow> bytes \<Rightarrow> ParsedInternalKey" where
  "SetTimestamp k ts =
     k\<lparr>pk_user_key := take (length (pk_user_key k) - length ts) (pk_user_key k) @ ts\<rparr>"

definition GetTimestamp :: "ParsedInternalKey \<Rightarrow> nat \<Rightarrow> bytes" where
  "GetTimestamp k ts_sz = drop (length (pk_user_key k) - ts_sz) (pk_user_key k)"

definition InternalKeyEncodingLength :: "ParsedInternalKey \<Rightarrow> nat" where
  "InternalKeyEncodingLength key = length (pk_user_key key) + kNumInternalBytes"

text \<open>The assertions of \<^verbatim>\<open>PackSequenceAndType\<close>; \<^verbatim>\<open>kTypeMaxValid\<close> is the value behind the last valid type.\<close>

definition packable :: "u64 \<Rightarrow> ValueType \<Rightarrow> bool" where
  "packable seq t \<longleftrightarrow> seq \<le> kMaxSequenceNumber \<and> (IsExtendedValueType t \<or> t = kTypeMaxValid)"

definition PackSequenceAndType :: "u64 \<Rightarrow> ValueType \<Rightarrow> u64" where
  "PackSequenceAndType seq t = push_bit 8 seq OR ucast t"

definition UnPackSequenceAndType :: "u64 \<Rightarrow> u64 \<times> ValueType" where
  "UnPackSequenceAndType packed = (drop_bit 8 packed, ucast (packed AND 0xff))"

definition kRangeTombstoneSentinel :: u64 where
  "kRangeTombstoneSentinel = PackSequenceAndType kMaxSequenceNumber kTypeRangeDeletion"

definition ExtractUserKey :: "bytes \<Rightarrow> bytes" where
  "ExtractUserKey internal_key = take (length internal_key - kNumInternalBytes) internal_key"

definition ExtractUserKeyAndStripTimestamp :: "bytes \<Rightarrow> nat \<Rightarrow> bytes" where
  "ExtractUserKeyAndStripTimestamp internal_key ts_sz =
     take (length internal_key - (kNumInternalBytes + ts_sz)) internal_key"

definition StripTimestampFromUserKey :: "bytes \<Rightarrow> nat \<Rightarrow> bytes" where
  "StripTimestampFromUserKey user_key ts_sz = take (length user_key - ts_sz) user_key"

definition ExtractTimestampFromUserKey :: "bytes \<Rightarrow> nat \<Rightarrow> bytes" where
  "ExtractTimestampFromUserKey user_key ts_sz =
     take ts_sz (drop (length user_key - ts_sz) user_key)"

definition ExtractTimestampFromKey :: "bytes \<Rightarrow> nat \<Rightarrow> bytes" where
  "ExtractTimestampFromKey internal_key ts_sz =
     take ts_sz (drop (length internal_key - ts_sz - kNumInternalBytes) internal_key)"

definition ExtractInternalKeyFooter :: "bytes \<Rightarrow> u64" where
  "ExtractInternalKeyFooter internal_key =
     DecodeFixed64 (drop (length internal_key - kNumInternalBytes) internal_key)"

definition ExtractValueType :: "bytes \<Rightarrow> ValueType" where
  "ExtractValueType internal_key = ucast (ExtractInternalKeyFooter internal_key AND 0xff)"

text \<open>
  \<^verbatim>\<open>ParseInternalKey\<close>: \<open>None\<close> is the failed assertion on the type byte, and the inner option the result that
  is left untouched when the key is too short.
\<close>

definition ParseInternalKey ::
  "(ParsedInternalKey \<Rightarrow> bool \<Rightarrow> bool \<Rightarrow> string) \<Rightarrow> bytes \<Rightarrow> bool \<Rightarrow>
   (Status \<times> ParsedInternalKey option) option" where
  "ParseInternalKey DebugString internal_key log_err_key =
     (let n = length internal_key
      in if n < kNumInternalBytes
         then Some (Status_Corruption (''Corrupted Key: Internal Key too small. Size='' @
                 to_string n @ ''. '') [], None)
         else
           let num = DecodeFixed64 (drop (n - kNumInternalBytes) internal_key);
               c = (ucast (num AND 0xff) :: byte);
               result = \<lparr>pk_user_key = take (n - kNumInternalBytes) internal_key,
                         pk_sequence = drop_bit 8 num, pk_type = c\<rparr>
           in if kMaxValue < pk_type result then None
              else if IsExtendedValueType (pk_type result) then Some (Status_OK, Some result)
              else Some (Status_Corruption ''Corrupted Key'' (DebugString result log_err_key True),
                    Some result))"

definition UpdateInternalKey :: "bytes \<Rightarrow> u64 \<Rightarrow> ValueType \<Rightarrow> bytes" where
  "UpdateInternalKey ikey seq t =
     (let newval = push_bit 8 seq OR ucast t
      in take (length ikey - kNumInternalBytes) ikey @ EncodeFixed64 newval)"

definition GetInternalKeySeqno :: "bytes \<Rightarrow> u64" where
  "GetInternalKeySeqno internal_key =
     (let num = DecodeFixed64 (drop (length internal_key - kNumInternalBytes) internal_key)
      in drop_bit 8 num)"

section \<open>The internal key comparator\<close>

type_synonym comparator = "bytes \<Rightarrow> bytes \<Rightarrow> int"

definition Compare :: "comparator \<Rightarrow> bytes \<Rightarrow> bytes \<Rightarrow> int" where
  "Compare ucmp akey bkey =
     (let r = ucmp (ExtractUserKey akey) (ExtractUserKey bkey)
      in if r = 0 then
           let anum = DecodeFixed64 (drop (length akey - kNumInternalBytes) akey);
               bnum = DecodeFixed64 (drop (length bkey - kNumInternalBytes) bkey)
           in if bnum < anum then - 1 else if anum < bnum then 1 else r
         else r)"

definition Compare_Equal :: "comparator \<Rightarrow> bytes \<Rightarrow> bytes \<Rightarrow> bool" where
  "Compare_Equal ucmp a b \<longleftrightarrow> Compare ucmp a b = 0"

definition CompareKeySeq :: "comparator \<Rightarrow> bytes \<Rightarrow> bytes \<Rightarrow> int" where
  "CompareKeySeq ucmp akey bkey =
     (let r = ucmp (ExtractUserKey akey) (ExtractUserKey bkey)
      in if r = 0 then
           let anum = drop_bit 8 (DecodeFixed64 (drop (length akey - kNumInternalBytes) akey));
               bnum = drop_bit 8 (DecodeFixed64 (drop (length bkey - kNumInternalBytes) bkey))
           in if bnum < anum then - 1 else if anum < bnum then 1 else r
         else r)"

definition CompareKeySeq_parsed :: "comparator \<Rightarrow> ParsedInternalKey \<Rightarrow> bytes \<Rightarrow> int" where
  "CompareKeySeq_parsed ucmp a b =
     (let r = ucmp (pk_user_key a) (ExtractUserKey b)
      in if r = 0 then
           let anum = pk_sequence a;
               bnum = drop_bit 8 (DecodeFixed64 (drop (length b - kNumInternalBytes) b))
           in if bnum < anum then - 1 else if anum < bnum then 1 else r
         else r)"

definition Compare_global ::
  "comparator \<Rightarrow> bytes \<Rightarrow> SequenceNumber \<Rightarrow> bytes \<Rightarrow> SequenceNumber \<Rightarrow> int" where
  "Compare_global ucmp a a_global_seqno b b_global_seqno =
     (let r = ucmp (ExtractUserKey a) (ExtractUserKey b)
      in if r = 0 then
           let a_footer =
                 (if a_global_seqno = kDisableGlobalSequenceNumber
                  then ExtractInternalKeyFooter a
                  else PackSequenceAndType a_global_seqno (ExtractValueType a));
               b_footer =
                 (if b_global_seqno = kDisableGlobalSequenceNumber
                  then ExtractInternalKeyFooter b
                  else PackSequenceAndType b_global_seqno (ExtractValueType b))
           in if b_footer < a_footer then - 1 else if a_footer < b_footer then 1 else r
         else r)"

section \<open>Predecessor WAL info\<close>

record PredecessorWALInfo =
  pw_log_number :: u64
  pw_size_bytes :: u64
  pw_last_seqno_recorded :: SequenceNumber
  pw_initialized :: bool

definition PredecessorWALInfo_default :: PredecessorWALInfo where
  "PredecessorWALInfo_default =
     \<lparr>pw_log_number = 0, pw_size_bytes = 0, pw_last_seqno_recorded = 0, pw_initialized = False\<rparr>"

definition PredecessorWALInfo_make :: "u64 \<Rightarrow> u64 \<Rightarrow> SequenceNumber \<Rightarrow> PredecessorWALInfo" where
  "PredecessorWALInfo_make log_number size_bytes last_seqno_recorded =
     \<lparr>pw_log_number = log_number, pw_size_bytes = size_bytes,
      pw_last_seqno_recorded = last_seqno_recorded, pw_initialized = True\<rparr>"

definition PredecessorWALInfo_EncodeTo :: "PredecessorWALInfo \<Rightarrow> bytes \<Rightarrow> bytes" where
  "PredecessorWALInfo_EncodeTo p dst =
     PutFixed64 (PutFixed64 (PutFixed64 dst (pw_log_number p)) (pw_size_bytes p))
       (pw_last_seqno_recorded p)"

text \<open>A failed read leaves the fields read before it updated and the input advanced past them.\<close>

definition PredecessorWALInfo_DecodeFrom ::
  "PredecessorWALInfo \<Rightarrow> bytes \<Rightarrow> Status \<times> PredecessorWALInfo \<times> bytes" where
  "PredecessorWALInfo_DecodeFrom p src =
     (case GetFixed64 src of
        None \<Rightarrow> (Status_Corruption ''Error decoding log number'' [], p, src)
      | Some (n, src) \<Rightarrow>
          let p = p\<lparr>pw_log_number := n\<rparr>
          in case GetFixed64 src of
               None \<Rightarrow> (Status_Corruption ''Error decoding size bytes'' [], p, src)
             | Some (n, src) \<Rightarrow>
                 let p = p\<lparr>pw_size_bytes := n\<rparr>
                 in case GetFixed64 src of
                      None \<Rightarrow> (Status_Corruption ''Error decoding last seqno recorded'' [], p, src)
                    | Some (n, src) \<Rightarrow>
                        (Status_OK, p\<lparr>pw_last_seqno_recorded := n, pw_initialized := True\<rparr>, src))"

section \<open>The footer\<close>

text \<open>The serialized form of an internal key, as the comments of the header give it.\<close>

definition EncodeInternalKey :: "bytes \<Rightarrow> SequenceNumber \<Rightarrow> ValueType \<Rightarrow> bytes" where
  "EncodeInternalKey uk seq t = uk @ EncodeFixed64 (PackSequenceAndType seq t)"

lemma length_kNumInternalBytes: "kNumInternalBytes = 8"
  by (simp add: kNumInternalBytes_def)

lemma kMax_eq: "kMaxSequenceNumber = 2 ^ 56 - 1"
  by (simp add: kMaxSequenceNumber_def push_bit_eq_mult)

lemma le_kMax_iff: "seq \<le> kMaxSequenceNumber \<longleftrightarrow> seq < 2 ^ 56"
  by (simp add: kMax_eq word_le_nat_alt word_less_nat_alt, arith)

lemma bit_Pack: "bit (PackSequenceAndType seq t) n \<longleftrightarrow> n < 64 \<and> (if n < 8 then bit t n else bit seq (n - 8))"
  by (auto simp: PackSequenceAndType_def bit_simps dest: bit_imp_le_length)

lemma UnPack_Pack:
  assumes "seq \<le> kMaxSequenceNumber"
  shows "UnPackSequenceAndType (PackSequenceAndType seq t) = (seq, t)"
proof -
  have "bit seq n \<Longrightarrow> n < 56" for n
    using assms by (intro less_exp_bit [of seq 56]) (simp_all add: le_kMax_iff)
  then have "drop_bit 8 (PackSequenceAndType seq t) = seq"
    by (intro bit_word_eqI) (auto simp: bit_drop_bit_eq bit_Pack)
  moreover have "ucast (PackSequenceAndType seq t AND 0xff) = t"
    by (rule bit_word_eqI) (auto simp: ucast_and_255 bit_simps bit_Pack)
  ultimately show ?thesis by (simp add: UnPackSequenceAndType_def)
qed

lemma Pack_UnPack:
  "PackSequenceAndType (fst (UnPackSequenceAndType p)) (snd (UnPackSequenceAndType p)) = p"
  by (rule bit_word_eqI) (auto simp: UnPackSequenceAndType_def bit_Pack ucast_and_255 bit_simps)

lemma unat_Pack:
  assumes "seq \<le> kMaxSequenceNumber"
  shows "unat (PackSequenceAndType seq t) = 256 * unat seq + unat t"
proof -
  let ?p = "PackSequenceAndType seq t"
  have u: "drop_bit 8 ?p = seq" "ucast ?p = t"
    using UnPack_Pack [OF assms, of t] by (simp_all add: UnPackSequenceAndType_def ucast_and_255)
  have "unat ?p = 256 * (unat ?p div 256) + unat ?p mod 256" by simp
  also have "unat ?p div 256 = unat (drop_bit 8 ?p)"
    by (simp add: unat_drop_bit_eq drop_bit_nat_def)
  also have "unat ?p mod 256 = unat (ucast ?p :: byte)"
    by (simp add: unsigned_ucast_eq take_bit_nat_def)
  finally show ?thesis using u by simp
qed

lemma Pack_less_iff:
  assumes "s1 \<le> kMaxSequenceNumber" "s2 \<le> kMaxSequenceNumber"
  shows "PackSequenceAndType s1 t1 < PackSequenceAndType s2 t2 \<longleftrightarrow> s1 < s2 \<or> s1 = s2 \<and> t1 < t2"
proof -
  have "unat t1 < 256" "unat t2 < 256"
    using unsigned_less [of t1] unsigned_less [of t2] by simp_all
  then have "256 * unat s1 + unat t1 < 256 * unat s2 + unat t2
      \<longleftrightarrow> unat s1 < unat s2 \<or> unat s1 = unat s2 \<and> unat t1 < unat t2"
    by arith
  then show ?thesis using assms
    by (simp add: word_less_nat_alt unat_Pack word_unat_eq_iff)
qed


lemma EncodeInternalKey_parts [simp]:
  "ExtractUserKey (EncodeInternalKey uk seq t) = uk"
  "ExtractInternalKeyFooter (EncodeInternalKey uk seq t) = PackSequenceAndType seq t"
  "length (EncodeInternalKey uk seq t) = length uk + 8"
  using DecodeFixed_Encode(3) [of "PackSequenceAndType seq t" "[]"]
  by (simp_all add: EncodeInternalKey_def ExtractUserKey_def ExtractInternalKeyFooter_def
      kNumInternalBytes_def)

lemma EncodeInternalKey_surj:
  assumes "8 \<le> length k"
  shows "EncodeInternalKey (ExtractUserKey k) (GetInternalKeySeqno k) (ExtractValueType k) = k"
proof -
  have "PackSequenceAndType (GetInternalKeySeqno k) (ExtractValueType k) =
      DecodeFixed64 (drop (length k - 8) k)"
    using Pack_UnPack [of "DecodeFixed64 (drop (length k - 8) k)"]
    by (simp add: GetInternalKeySeqno_def ExtractValueType_def ExtractInternalKeyFooter_def
        UnPackSequenceAndType_def kNumInternalBytes_def)
  then show ?thesis using assms
    by (simp add: EncodeInternalKey_def ExtractUserKey_def kNumInternalBytes_def EncodeFixed64_Decode)
qed

section \<open>The order on internal keys\<close>

text \<open>The comparator in terms of the footers, whose larger value comes first.\<close>

lemma Compare_footer:
  "Compare ucmp a b =
     (if ucmp (ExtractUserKey a) (ExtractUserKey b) \<noteq> 0
      then ucmp (ExtractUserKey a) (ExtractUserKey b)
      else if ExtractInternalKeyFooter b < ExtractInternalKeyFooter a then - 1
      else if ExtractInternalKeyFooter a < ExtractInternalKeyFooter b then 1 else 0)"
  by (simp add: Compare_def ExtractInternalKeyFooter_def Let_def)

lemma Compare_le_0:
  "Compare ucmp a b \<le> 0 \<longleftrightarrow>
     ucmp (ExtractUserKey a) (ExtractUserKey b) < 0 \<or>
     ucmp (ExtractUserKey a) (ExtractUserKey b) = 0 \<and>
       ExtractInternalKeyFooter b \<le> ExtractInternalKeyFooter a"
  by (auto simp: Compare_footer)

lemma CompareKeySeq_seqno:
  "CompareKeySeq ucmp a b =
     (if ucmp (ExtractUserKey a) (ExtractUserKey b) \<noteq> 0
      then ucmp (ExtractUserKey a) (ExtractUserKey b)
      else if GetInternalKeySeqno b < GetInternalKeySeqno a then - 1
      else if GetInternalKeySeqno a < GetInternalKeySeqno b then 1 else 0)"
  by (simp add: CompareKeySeq_def GetInternalKeySeqno_def Let_def)

context key_comparator
begin

lemma Compare_comparator: "key_comparator (Compare cmp)"
proof
  show "Compare cmp a a = 0" for a by (simp add: Compare_footer cmp_refl)
  show "Compare cmp a b < 0 \<longleftrightarrow> 0 < Compare cmp b a" for a b
    using cmp_flip cmp_zero_sym by (auto simp: Compare_footer)
  fix a b c
  let ?u = "cmp (ExtractUserKey a) (ExtractUserKey b)"
    and ?v = "cmp (ExtractUserKey b) (ExtractUserKey c)"
    and ?w = "cmp (ExtractUserKey a) (ExtractUserKey c)"
  assume ab: "Compare cmp a b \<le> 0" and bc: "Compare cmp b c \<le> 0"
  consider "?u < 0" "?v \<le> 0" | "?u \<le> 0" "?v < 0" | "?u = 0" "?v = 0"
    using ab bc by (fastforce simp: Compare_le_0)
  then show "Compare cmp a c \<le> 0"
  proof cases
    case 3
    then have "?w = 0" by (rule cmp_zero_trans)
    with 3 show ?thesis using ab bc by (simp add: Compare_le_0)
  qed (use cmp_less_trans cmp_le_less_trans in \<open>auto simp: Compare_le_0\<close>)
qed

end

lemma GetInternalKeySeqno_Encode:
  "seq \<le> kMaxSequenceNumber \<Longrightarrow> GetInternalKeySeqno (EncodeInternalKey uk seq t) = seq"
  and ExtractValueType_Encode:
  "seq \<le> kMaxSequenceNumber \<Longrightarrow> ExtractValueType (EncodeInternalKey uk seq t) = t"
  using UnPack_Pack [of seq t] EncodeInternalKey_parts(2) [of uk seq t]
  by (simp_all add: GetInternalKeySeqno_def ExtractValueType_def ExtractInternalKeyFooter_def
      UnPackSequenceAndType_def)

lemma ParseInternalKey_parts:
  "8 \<le> length raw \<Longrightarrow> ParseInternalKey dbg raw log_err =
     (let k = \<lparr>pk_user_key = ExtractUserKey raw, pk_sequence = GetInternalKeySeqno raw,
        pk_type = ExtractValueType raw\<rparr>
      in if kMaxValue < pk_type k then None
         else Some (if IsExtendedValueType (pk_type k) then Status_OK
           else Status_Corruption ''Corrupted Key'' (dbg k log_err True), Some k))"
  by (simp add: ParseInternalKey_def ExtractUserKey_def GetInternalKeySeqno_def ExtractValueType_def
      ExtractInternalKeyFooter_def kNumInternalBytes_def Let_def)

lemma UpdateInternalKey_eq:
  "UpdateInternalKey k seq t = EncodeInternalKey (ExtractUserKey k) seq t"
  by (simp add: UpdateInternalKey_def EncodeInternalKey_def PackSequenceAndType_def ExtractUserKey_def)

lemma PutFixed64_eq: "PutFixed64 dst v = dst @ EncodeFixed64 v"
  by (simp add: PutFixed64_def kLittleEndian_def EncodeFixed64_le)

section \<open>Properties\<close>

text \<open>
  C29. Internal keys round-trip in both directions. Under the assertions of
  \<^verbatim>\<open>PackSequenceAndType\<close>, parsing the serialized key gives back the user key, the sequence number and
  the type, with an OK status. Of an arbitrary byte string, fewer than eight bytes are
  reported as corruption; otherwise the assertion on the type fails for a type byte above \<^verbatim>\<open>kMaxValue\<close>, a byte
  below that is no value type is reported as corruption, and the parts serialize to the same string again.
\<close>

theorem internal_key_roundtrip:
  assumes "packable seq t"
  shows "ParseInternalKey dbg (EncodeInternalKey uk seq t) log_err =
      Some (Status_OK, Some \<lparr>pk_user_key = uk, pk_sequence = seq, pk_type = t\<rparr>)
    \<and> UnPackSequenceAndType (PackSequenceAndType seq t) = (seq, t)
    \<and> (if length raw < 8 then \<exists>s. ParseInternalKey dbg raw log_err = Some (s, None) \<and> IsCorruption s
       else
         let k = \<lparr>pk_user_key = ExtractUserKey raw, pk_sequence = GetInternalKeySeqno raw,
           pk_type = ExtractValueType raw\<rparr>
         in ParseInternalKey dbg raw log_err =
             (if kMaxValue < pk_type k then None
              else Some (if IsExtendedValueType (pk_type k) then Status_OK
                else Status_Corruption ''Corrupted Key'' (dbg k log_err True), Some k))
           \<and> EncodeInternalKey (pk_user_key k) (pk_sequence k) (pk_type k) = raw)"
proof -
  have t: "seq \<le> kMaxSequenceNumber" "\<not> kMaxValue < t" "IsExtendedValueType t"
    using assms
    by (auto simp: packable_def IsExtendedValueType_def IsValueType_def word_less_nat_alt word_le_nat_alt)
  have "ParseInternalKey dbg (EncodeInternalKey uk seq t) log_err =
      Some (Status_OK, Some \<lparr>pk_user_key = uk, pk_sequence = seq, pk_type = t\<rparr>)"
    using t by (simp add: ParseInternalKey_parts GetInternalKeySeqno_Encode ExtractValueType_Encode Let_def)
  moreover have "\<exists>s. ParseInternalKey dbg raw log_err = Some (s, None) \<and> IsCorruption s" if "length raw < 8"
    using that by (simp add: ParseInternalKey_def kNumInternalBytes_def)
  ultimately show ?thesis
    using UnPack_Pack [OF t(1), of t] by (simp add: ParseInternalKey_parts EncodeInternalKey_surj Let_def)
qed

theorem internal_key_roundtrip_witness:
  "ParseInternalKey (\<lambda>_ _ _. []) (EncodeInternalKey [107] 9 kTypeValue) False =
     Some (Status_OK, Some \<lparr>pk_user_key = [107], pk_sequence = 9, pk_type = kTypeValue\<rparr>)
   \<and> (\<exists>s. ParseInternalKey (\<lambda>_ _ _. []) [1, 2, 3] False = Some (s, None) \<and> IsCorruption s)"
  using internal_key_roundtrip [of 9 kTypeValue "\<lambda>_ _ _. []" "[107]" False "[1, 2, 3]"]
  by (simp add: packable_def kMax_eq IsExtendedValueType_def IsValueType_def)

text \<open>
  C28. For any user comparator that is a total preorder the internal key comparator is one too,
  and it orders keys by user key, then by decreasing sequence number, then by decreasing type.
\<close>

theorem internal_key_order:
  assumes "key_comparator ucmp"
    and "s1 \<le> kMaxSequenceNumber" and "s2 \<le> kMaxSequenceNumber"
  shows "key_comparator (Compare ucmp)
    \<and> (Compare ucmp (EncodeInternalKey k1 s1 t1) (EncodeInternalKey k2 s2 t2) < 0 \<longleftrightarrow>
        ucmp k1 k2 < 0 \<or> ucmp k1 k2 = 0 \<and> (s2 < s1 \<or> s1 = s2 \<and> t2 < t1))
    \<and> (CompareKeySeq ucmp (EncodeInternalKey k1 s1 t1) (EncodeInternalKey k2 s2 t2) < 0 \<longleftrightarrow>
        ucmp k1 k2 < 0 \<or> ucmp k1 k2 = 0 \<and> s2 < s1)"
  using key_comparator.Compare_comparator [OF assms(1)] assms(2,3)
  by (auto simp: Compare_footer CompareKeySeq_seqno Pack_less_iff GetInternalKeySeqno_Encode)

theorem internal_key_order_witness:
  "key_comparator (Compare Slice_compare)
   \<and> Compare Slice_compare (EncodeInternalKey [1] 5 kTypeValue) (EncodeInternalKey [1] 4 kTypeMerge) < 0"
  using internal_key_order [OF bytewise.key_comparator_axioms, of 5 4 "[1]" kTypeValue "[1]" kTypeMerge]
  by (simp add: kMax_eq)

text \<open>
  Comparing with global sequence numbers is comparing the keys whose footers have been
  rewritten by \<^verbatim>\<open>UpdateInternalKey\<close> with the overriding sequence number and the key's own type, and
  \<^verbatim>\<open>kDisableGlobalSequenceNumber\<close> leaves a key as it is.
\<close>

theorem Compare_global_is_Compare_updated:
  "Compare_global ucmp a sa b sb =
     Compare ucmp
       (if sa = kDisableGlobalSequenceNumber then a else UpdateInternalKey a sa (ExtractValueType a))
       (if sb = kDisableGlobalSequenceNumber then b else UpdateInternalKey b sb (ExtractValueType b))"
  by (auto simp: Compare_global_def Compare_footer UpdateInternalKey_eq Let_def)

text \<open>
  A predecessor-WAL record is decoded to what was encoded, leaving the rest of the input, and
  decoding fails with corruption exactly when fewer than 24 bytes are left.
\<close>

theorem predecessor_wal_roundtrip:
  "PredecessorWALInfo_DecodeFrom p (PredecessorWALInfo_EncodeTo (PredecessorWALInfo_make n sz sq) [] @ rest)
     = (Status_OK, PredecessorWALInfo_make n sz sq, rest)
   \<and> (IsCorruption (fst (PredecessorWALInfo_DecodeFrom p src)) \<longleftrightarrow> length src < 24)"
proof
  show "PredecessorWALInfo_DecodeFrom p
      (PredecessorWALInfo_EncodeTo (PredecessorWALInfo_make n sz sq) [] @ rest)
    = (Status_OK, PredecessorWALInfo_make n sz sq, rest)"
    by (simp add: PredecessorWALInfo_DecodeFrom_def PredecessorWALInfo_EncodeTo_def
        PredecessorWALInfo_make_def PutFixed64_eq fixed64.dec_enc)
  show "IsCorruption (fst (PredecessorWALInfo_DecodeFrom p src)) \<longleftrightarrow> length src < 24"
    by (simp add: PredecessorWALInfo_DecodeFrom_def GetFixed64_def) arith
qed

end
