(* ===== verification/Kv_Checksum.thy ===== *)
theory Kv_Checksum
  imports Db_Format
begin

text \<open>
  \<^verbatim>\<open>db/kv_checksum.h\<close>: per-entry protection information. A value accumulates, by exclusive or, the
  seeded 64-bit hashes of the key, the value, the operation type, the column family id and the
  sequence number; the class of the object says which of them it covers. The hash
  (\<^verbatim>\<open>Hash64\<close>, \<^verbatim>\<open>util/hash.cc\<close>) is the parameter \<open>H\<close> of every definition; what the hash of the store adds
  to the algebra of this theory is in \<^verbatim>\<open>Spec2Isabelle\<close>.
\<close>

type_synonym hash64 = "bytes \<Rightarrow> u64 \<Rightarrow> u64"
type_synonym ColumnFamilyId = u32

definition NPHash64 :: "hash64 \<Rightarrow> bytes \<Rightarrow> u64 \<Rightarrow> u64" where
  "NPHash64 H data seed = H data seed"

definition GetSliceNPHash64 :: "hash64 \<Rightarrow> bytes \<Rightarrow> u64 \<Rightarrow> u64" where
  "GetSliceNPHash64 H s seed = NPHash64 H s seed"

definition GetSlicePartsNPHash64 :: "hash64 \<Rightarrow> bytes list \<Rightarrow> u64 \<Rightarrow> u64" where
  "GetSlicePartsNPHash64 H data seed = NPHash64 H (foldl (@) [] data) seed"

section \<open>Protection information\<close>

datatype ProtectionInfo = ProtectionInfo (info_val: u64)
datatype ProtectionInfoKV = ProtectionInfoKV (kv_val: u64)
datatype ProtectionInfoKVO = ProtectionInfoKVO (kvo_val: u64)
datatype ProtectionInfoKVOC = ProtectionInfoKVOC (kvoc_val: u64)
datatype ProtectionInfoKVOS = ProtectionInfoKVOS (kvos_val: u64)

definition kSeedK :: u64 where "kSeedK = 0"
definition kSeedV :: u64 where "kSeedV = 0xD28AAD72F49BD50B"
definition kSeedO :: u64 where "kSeedO = 0xA5155AE5E937AA16"
definition kSeedS :: u64 where "kSeedS = 0x77A00858DDD37F21"
definition kSeedC :: u64 where "kSeedC = 0x4A2AB5CBD26F542C"

definition ProtectionInfo_Encode :: "u64 \<Rightarrow> nat \<Rightarrow> bytes" where
  "ProtectionInfo_Encode val len =
     (if len = 1 then [ucast val]
      else if len = 2 then EncodeFixed16 (ucast val)
      else if len = 4 then EncodeFixed32 (ucast val)
      else if len = 8 then EncodeFixed64 val
      else [])"

definition ProtectionInfo_Verify :: "u64 \<Rightarrow> nat \<Rightarrow> bytes \<Rightarrow> bool" where
  "ProtectionInfo_Verify val len checksum_ptr =
     (if len = 1 then checksum_ptr ! 0 = ucast val
      else if len = 2 then DecodeFixed16 checksum_ptr = ucast val
      else if len = 4 then DecodeFixed32 checksum_ptr = ucast val
      else if len = 8 then DecodeFixed64 checksum_ptr = val
      else False)"

definition GetStatus :: "ProtectionInfo \<Rightarrow> Status" where
  "GetStatus p =
     (if info_val p \<noteq> 0 then Status_Corruption ''ProtectionInfo mismatch'' [] else Status_OK)"

definition ProtectKVO :: "hash64 \<Rightarrow> ProtectionInfo \<Rightarrow> bytes \<Rightarrow> bytes \<Rightarrow> ValueType \<Rightarrow> ProtectionInfoKVO" where
  "ProtectKVO H p key value op_type =
     (let val = info_val p;
          val = val XOR GetSliceNPHash64 H key kSeedK;
          val = val XOR GetSliceNPHash64 H value kSeedV;
          val = val XOR NPHash64 H [op_type] kSeedO
      in ProtectionInfoKVO val)"

definition ProtectKVO_parts ::
  "hash64 \<Rightarrow> ProtectionInfo \<Rightarrow> bytes list \<Rightarrow> bytes list \<Rightarrow> ValueType \<Rightarrow> ProtectionInfoKVO" where
  "ProtectKVO_parts H p key value op_type =
     (let val = info_val p;
          val = val XOR GetSlicePartsNPHash64 H key kSeedK;
          val = val XOR GetSlicePartsNPHash64 H value kSeedV;
          val = val XOR NPHash64 H [op_type] kSeedO
      in ProtectionInfoKVO val)"

definition ProtectKV :: "hash64 \<Rightarrow> ProtectionInfo \<Rightarrow> bytes \<Rightarrow> bytes \<Rightarrow> ProtectionInfoKV" where
  "ProtectKV H p key value =
     (let val = info_val p;
          val = val XOR GetSliceNPHash64 H key kSeedK;
          val = val XOR GetSliceNPHash64 H value kSeedV
      in ProtectionInfoKV val)"

definition UpdateK :: "hash64 \<Rightarrow> ProtectionInfoKVO \<Rightarrow> bytes \<Rightarrow> bytes \<Rightarrow> ProtectionInfoKVO" where
  "UpdateK H p old_key new_key =
     (let val = kvo_val p;
          val = val XOR GetSliceNPHash64 H old_key kSeedK;
          val = val XOR GetSliceNPHash64 H new_key kSeedK
      in ProtectionInfoKVO val)"

definition UpdateK_parts ::
  "hash64 \<Rightarrow> ProtectionInfoKVO \<Rightarrow> bytes list \<Rightarrow> bytes list \<Rightarrow> ProtectionInfoKVO" where
  "UpdateK_parts H p old_key new_key =
     (let val = kvo_val p;
          val = val XOR GetSlicePartsNPHash64 H old_key kSeedK;
          val = val XOR GetSlicePartsNPHash64 H new_key kSeedK
      in ProtectionInfoKVO val)"

definition UpdateV :: "hash64 \<Rightarrow> ProtectionInfoKVO \<Rightarrow> bytes \<Rightarrow> bytes \<Rightarrow> ProtectionInfoKVO" where
  "UpdateV H p old_value new_value =
     (let val = kvo_val p;
          val = val XOR GetSliceNPHash64 H old_value kSeedV;
          val = val XOR GetSliceNPHash64 H new_value kSeedV
      in ProtectionInfoKVO val)"

definition UpdateV_parts ::
  "hash64 \<Rightarrow> ProtectionInfoKVO \<Rightarrow> bytes list \<Rightarrow> bytes list \<Rightarrow> ProtectionInfoKVO" where
  "UpdateV_parts H p old_value new_value =
     (let val = kvo_val p;
          val = val XOR GetSlicePartsNPHash64 H old_value kSeedV;
          val = val XOR GetSlicePartsNPHash64 H new_value kSeedV
      in ProtectionInfoKVO val)"

definition UpdateO :: "hash64 \<Rightarrow> ProtectionInfoKVO \<Rightarrow> ValueType \<Rightarrow> ValueType \<Rightarrow> ProtectionInfoKVO" where
  "UpdateO H p old_op_type new_op_type =
     (let val = kvo_val p;
          val = val XOR NPHash64 H [old_op_type] kSeedO;
          val = val XOR NPHash64 H [new_op_type] kSeedO
      in ProtectionInfoKVO val)"

definition StripKVO :: "hash64 \<Rightarrow> ProtectionInfoKVO \<Rightarrow> bytes \<Rightarrow> bytes \<Rightarrow> ValueType \<Rightarrow> ProtectionInfo" where
  "StripKVO H p key value op_type =
     (let val = kvo_val p;
          val = val XOR GetSliceNPHash64 H key kSeedK;
          val = val XOR GetSliceNPHash64 H value kSeedV;
          val = val XOR NPHash64 H [op_type] kSeedO
      in ProtectionInfo val)"

definition StripKVO_parts ::
  "hash64 \<Rightarrow> ProtectionInfoKVO \<Rightarrow> bytes list \<Rightarrow> bytes list \<Rightarrow> ValueType \<Rightarrow> ProtectionInfo" where
  "StripKVO_parts H p key value op_type =
     (let val = kvo_val p;
          val = val XOR GetSlicePartsNPHash64 H key kSeedK;
          val = val XOR GetSlicePartsNPHash64 H value kSeedV;
          val = val XOR NPHash64 H [op_type] kSeedO
      in ProtectionInfo val)"

text \<open>The column family id and the sequence number are hashed as they lie in memory.\<close>

definition ProtectC :: "hash64 \<Rightarrow> ProtectionInfoKVO \<Rightarrow> ColumnFamilyId \<Rightarrow> ProtectionInfoKVOC" where
  "ProtectC H p column_family_id =
     (let val = kvo_val p;
          val = val XOR NPHash64 H (le_bytes 4 column_family_id) kSeedC
      in ProtectionInfoKVOC val)"

definition StripC :: "hash64 \<Rightarrow> ProtectionInfoKVOC \<Rightarrow> ColumnFamilyId \<Rightarrow> ProtectionInfoKVO" where
  "StripC H p column_family_id =
     (let val = kvoc_val p;
          val = val XOR NPHash64 H (le_bytes 4 column_family_id) kSeedC
      in ProtectionInfoKVO val)"

definition UpdateC ::
  "hash64 \<Rightarrow> ProtectionInfoKVOC \<Rightarrow> ColumnFamilyId \<Rightarrow> ColumnFamilyId \<Rightarrow> ProtectionInfoKVOC" where
  "UpdateC H p old_column_family_id new_column_family_id =
     (let val = kvoc_val p;
          val = val XOR NPHash64 H (le_bytes 4 old_column_family_id) kSeedC;
          val = val XOR NPHash64 H (le_bytes 4 new_column_family_id) kSeedC
      in ProtectionInfoKVOC val)"

definition ProtectS :: "hash64 \<Rightarrow> ProtectionInfoKVO \<Rightarrow> SequenceNumber \<Rightarrow> ProtectionInfoKVOS" where
  "ProtectS H p sequence_number =
     (let val = kvo_val p;
          val = val XOR NPHash64 H (le_bytes 8 sequence_number) kSeedS
      in ProtectionInfoKVOS val)"

definition StripS :: "hash64 \<Rightarrow> ProtectionInfoKVOS \<Rightarrow> SequenceNumber \<Rightarrow> ProtectionInfoKVO" where
  "StripS H p sequence_number =
     (let val = kvos_val p;
          val = val XOR NPHash64 H (le_bytes 8 sequence_number) kSeedS
      in ProtectionInfoKVO val)"

definition UpdateS ::
  "hash64 \<Rightarrow> ProtectionInfoKVOS \<Rightarrow> SequenceNumber \<Rightarrow> SequenceNumber \<Rightarrow> ProtectionInfoKVOS" where
  "UpdateS H p old_sequence_number new_sequence_number =
     (let val = kvos_val p;
          val = val XOR NPHash64 H (le_bytes 8 old_sequence_number) kSeedS;
          val = val XOR NPHash64 H (le_bytes 8 new_sequence_number) kSeedS
      in ProtectionInfoKVOS val)"

text \<open>The forwarding members of \<^verbatim>\<open>ProtectionInfoKVOC\<close> and \<^verbatim>\<open>ProtectionInfoKVOS\<close> that the write batch uses.\<close>

definition KVOC_UpdateK :: "hash64 \<Rightarrow> ProtectionInfoKVOC \<Rightarrow> bytes \<Rightarrow> bytes \<Rightarrow> ProtectionInfoKVOC" where
  "KVOC_UpdateK H p old_key new_key =
     ProtectionInfoKVOC (kvo_val (UpdateK H (ProtectionInfoKVO (kvoc_val p)) old_key new_key))"

definition KVOC_UpdateV :: "hash64 \<Rightarrow> ProtectionInfoKVOC \<Rightarrow> bytes \<Rightarrow> bytes \<Rightarrow> ProtectionInfoKVOC" where
  "KVOC_UpdateV H p old_value new_value =
     ProtectionInfoKVOC (kvo_val (UpdateV H (ProtectionInfoKVO (kvoc_val p)) old_value new_value))"

definition KVOC_UpdateO :: "hash64 \<Rightarrow> ProtectionInfoKVOC \<Rightarrow> ValueType \<Rightarrow> ValueType \<Rightarrow> ProtectionInfoKVOC" where
  "KVOC_UpdateO H p old_op_type new_op_type =
     ProtectionInfoKVOC (kvo_val (UpdateO H (ProtectionInfoKVO (kvoc_val p)) old_op_type new_op_type))"

section \<open>Lemmas\<close>

lemmas kv_checksum_defs = NPHash64_def GetSliceNPHash64_def GetSlicePartsNPHash64_def
  ProtectKVO_def ProtectKVO_parts_def ProtectKV_def UpdateK_def UpdateK_parts_def UpdateV_def
  UpdateV_parts_def UpdateO_def StripKVO_def StripKVO_parts_def ProtectC_def StripC_def UpdateC_def
  ProtectS_def StripS_def UpdateS_def KVOC_UpdateK_def KVOC_UpdateV_def KVOC_UpdateO_def

lemma foldl_append_concat: "foldl (@) acc xss = acc @ concat xss"
  by (induction xss arbitrary: acc) simp_all

lemma ProtectKVO_parts_concat:
  "ProtectKVO_parts H p ks vs t = ProtectKVO H p (concat ks) (concat vs) t"
  "StripKVO_parts H q ks vs t = StripKVO H q (concat ks) (concat vs) t"
  by (simp_all add: kv_checksum_defs foldl_append_concat)

lemma xor_cancel [simp]: "(a XOR b) XOR b = (a :: 'a::len word)" "a XOR (a XOR b) = b"
  by (simp_all add: xor.assoc xor.assoc [symmetric])

lemma xor_eq_0: "a XOR b = 0 \<longleftrightarrow> a = (b :: 'a::len word)"
  by (metis xor_cancel(2) xor.right_neutral xor_self_eq)

lemma EncodeFixed16_bytes: "EncodeFixed16 v = [ucast v, ucast (drop_bit 8 v)]"
  by (simp add: EncodeFixed16_le eval_nat_numeral)

lemma Verify_Encode_iff:
  assumes "len = 1 \<or> len = 2 \<or> len = 4 \<or> len = 8" and "len \<le> length ptr"
  shows "ProtectionInfo_Verify val len ptr \<longleftrightarrow> take len ptr = ProtectionInfo_Encode val len"
proof -
  have le: "le_value (take n ptr) = (w :: 'a::len word) \<longleftrightarrow> take n ptr = le_bytes n w"
    if "n \<le> length ptr" "LENGTH('a) = 8 * n" for n and w :: "'a::len word"
    using that le_bytes_le_value [of "take n ptr", where 'a = 'a] by auto
  from assms(2) have one: "len = 1 \<Longrightarrow> take 1 ptr = [ptr ! 0]"
    by (cases ptr) auto
  show ?thesis using assms(1,2) one le [of 2 "ucast val :: u16"] le [of 4 "ucast val :: u32"]
      le [of 8 "val"]
    by (auto simp: ProtectionInfo_Verify_def ProtectionInfo_Encode_def DecodeFixed16_def
        DecodeFixed32_def DecodeFixed64_def EncodeFixed16_le EncodeFixed32_le EncodeFixed64_le
        kLittleEndian_def)
qed

section \<open>Properties\<close>

text \<open>
  C30. For every hash function: stripping what was protected, through the column family or the
  sequence number, gives the original information back; updating the key, the value, the
  operation type and the column family of an entry's protection gives the protection of the
  changed entry; and an entry whose key was altered behind the protection's back passes the
  status check only if the altered key has the same hash.
\<close>

theorem protection_algebra:
  "StripKVO H (StripC H (ProtectC H (ProtectKVO H p k v t) c) c) k v t = p
   \<and> StripKVO H (StripS H (ProtectS H (ProtectKVO H p k v t) s) s) k v t = p
   \<and> UpdateC H (KVOC_UpdateO H (KVOC_UpdateV H (KVOC_UpdateK H
        (ProtectC H (ProtectKVO H p k v t) c) k k') v v') t t') c c' =
      ProtectC H (ProtectKVO H p k' v' t') c'
   \<and> (ok (GetStatus (StripKVO H (StripC H (ProtectC H (ProtectKVO H (ProtectionInfo 0) k v t) c) c) k' v t))
        \<longleftrightarrow> H k kSeedK = H k' kSeedK)"
proof -
  have "x XOR y = 0 \<longleftrightarrow> x = y" for x y :: u64 by (rule xor_eq_0)
  then show ?thesis
    by (cases p) (simp add: kv_checksum_defs GetStatus_def ac_simps)
qed

text \<open>
  \<^verbatim>\<open>Verify\<close> accepts a stored checksum of one, two, four or eight bytes exactly when it is what
  \<^verbatim>\<open>Encode\<close> writes for the value.
\<close>

theorem verify_iff_encoded:
  assumes "len \<in> {1, 2, 4, 8}" and "len \<le> length ptr"
  shows "ProtectionInfo_Verify val len ptr \<longleftrightarrow> take len ptr = ProtectionInfo_Encode val len"
  using assms by (intro Verify_Encode_iff) auto

theorem verify_iff_encoded_witness:
  "ProtectionInfo_Verify 0x0102030405060708 2 [8, 7, 99]
   \<and> \<not> ProtectionInfo_Verify 0x0102030405060708 2 [8, 6, 99]"
  using verify_iff_encoded [of 2 "[8, 7, 99]" "0x0102030405060708"]
    verify_iff_encoded [of 2 "[8, 6, 99]" "0x0102030405060708"]
  by (simp add: ProtectionInfo_Encode_def EncodeFixed16_bytes)

end
