(* ===== verification/Write_Batch.thy ===== *)
theory Write_Batch
  imports Kv_Checksum
begin

text \<open>
  \<^verbatim>\<open>db/write_batch.cc\<close>, \<^verbatim>\<open>db/write_batch_internal.h\<close> and \<^verbatim>\<open>include/xiaodb/write_batch.h\<close>: the state
  of a write batch and every operation that builds or edits one. An operation takes the batch
  and returns its status with the new batch. A size is a natural number.

  The hash of the protection information is the parameter \<open>H\<close>. \<^verbatim>\<open>WideColumnsHelper\<close> and
  \<^verbatim>\<open>WideColumnSerialization\<close> are not part of the sources: the operations that store wide columns
  take them as the fields of a record. A column family handle is what the batch asks of it: its
  id and the timestamp size of its comparator, if it has a comparator.
\<close>

section \<open>Packed values of TimedPut (seqno_to_time_mapping.cc)\<close>

text \<open>
  The parsers require a value of at least eight bytes, as their asserts say; on a shorter one the
  C++ code reads outside the slice and the definitions return a default.
\<close>

definition PackValueAndWriteTime :: "bytes \<Rightarrow> u64 \<Rightarrow> bytes" where
  "PackValueAndWriteTime value unix_write_time = (let buf = value in PutFixed64 buf unix_write_time)"

definition PackValueAndSeqno :: "bytes \<Rightarrow> SequenceNumber \<Rightarrow> bytes" where
  "PackValueAndSeqno value seqno = (let buf = value in PutFixed64 buf seqno)"

definition ParsePackedValueForWriteTime :: "bytes \<Rightarrow> u64" where
  "ParsePackedValueForWriteTime value =
     (let write_time_slice = drop (length value - 8) value
      in case GetFixed64 write_time_slice of Some (write_time, _) \<Rightarrow> write_time | None \<Rightarrow> 0)"

definition ParsePackedValueWithWriteTime :: "bytes \<Rightarrow> bytes \<times> u64" where
  "ParsePackedValueWithWriteTime value =
     (take (length value - 8) value, ParsePackedValueForWriteTime value)"

definition ParsePackedValueForSeqno :: "bytes \<Rightarrow> SequenceNumber" where
  "ParsePackedValueForSeqno value =
     (let seqno_slice = drop (length value - 8) value
      in case GetFixed64 seqno_slice of Some (seqno, _) \<Rightarrow> seqno | None \<Rightarrow> 0)"

definition ParsePackedValueWithSeqno :: "bytes \<Rightarrow> bytes \<times> SequenceNumber" where
  "ParsePackedValueWithSeqno value =
     (take (length value - 8) value, ParsePackedValueForSeqno value)"

definition ParsePackedValueForValue :: "bytes \<Rightarrow> bytes" where
  "ParsePackedValueForValue value = take (length value - 8) value"

section \<open>State\<close>

abbreviation DEFERRED :: u32 where "DEFERRED \<equiv> 0x1"
abbreviation HAS_PUT :: u32 where "HAS_PUT \<equiv> 0x2"
abbreviation HAS_DELETE :: u32 where "HAS_DELETE \<equiv> 0x4"
abbreviation HAS_SINGLE_DELETE :: u32 where "HAS_SINGLE_DELETE \<equiv> 0x8"
abbreviation HAS_MERGE :: u32 where "HAS_MERGE \<equiv> 0x10"
abbreviation HAS_BEGIN_PREPARE :: u32 where "HAS_BEGIN_PREPARE \<equiv> 0x20"
abbreviation HAS_END_PREPARE :: u32 where "HAS_END_PREPARE \<equiv> 0x40"
abbreviation HAS_COMMIT :: u32 where "HAS_COMMIT \<equiv> 0x80"
abbreviation HAS_ROLLBACK :: u32 where "HAS_ROLLBACK \<equiv> 0x100"
abbreviation HAS_DELETE_RANGE :: u32 where "HAS_DELETE_RANGE \<equiv> 0x200"
abbreviation HAS_BLOB_INDEX :: u32 where "HAS_BLOB_INDEX \<equiv> 0x400"
abbreviation HAS_BEGIN_UNPREPARE :: u32 where "HAS_BEGIN_UNPREPARE \<equiv> 0x800"
abbreviation HAS_PUT_ENTITY :: u32 where "HAS_PUT_ENTITY \<equiv> 0x1000"
abbreviation HAS_TIMED_PUT :: u32 where "HAS_TIMED_PUT \<equiv> 0x2000"

record SavePoint =
  sp_size :: nat
  sp_count :: u32
  sp_content_flags :: u32

definition SavePoint_cleared :: SavePoint where
  "SavePoint_cleared = \<lparr>sp_size = 0, sp_count = 0, sp_content_flags = 0\<rparr>"

definition is_cleared :: "SavePoint \<Rightarrow> bool" where
  "is_cleared sp \<longleftrightarrow> (sp_size sp OR unat (sp_count sp)) OR unat (sp_content_flags sp) = 0"

text \<open>A stack of save points has its top first; a null pointer is \<^const>\<open>None\<close>.\<close>

record WriteBatch =
  wb_save_points :: "SavePoint list option"
  wb_wal_term_point :: SavePoint
  wb_is_latest_persistent_state :: bool
  wb_needs_in_place_update_ts :: bool
  wb_has_key_with_ts :: bool
  wb_content_flags :: u32
  wb_max_bytes :: nat
  wb_prot_info :: "ProtectionInfoKVOC list option"
  wb_default_cf_ts_sz :: nat
  wb_track_timestamp_size :: bool
  wb_cf_id_to_ts_sz :: "u32 \<Rightarrow> nat option"
  wb_rep :: bytes

record ColumnFamilyHandle =
  cfh_id :: u32
  cfh_ts_sz :: "nat option"

record wide_column_ext =
  SortColumns :: "(bytes \<times> bytes) list \<Rightarrow> (bytes \<times> bytes) list"
  Serialize :: "(bytes \<times> bytes) list \<Rightarrow> Status \<times> bytes"

definition kHeader :: nat where
  "kHeader = 12"

definition uint32_max :: nat where
  "uint32_max = 0xFFFFFFFF"

definition WriteBatch_new :: "nat \<Rightarrow> nat \<Rightarrow> nat \<Rightarrow> nat \<Rightarrow> WriteBatch" where
  "WriteBatch_new reserved_bytes max_bytes protection_bytes_per_key default_cf_ts_sz =
     \<lparr>wb_save_points = None, wb_wal_term_point = SavePoint_cleared,
      wb_is_latest_persistent_state = False, wb_needs_in_place_update_ts = False,
      wb_has_key_with_ts = False, wb_content_flags = 0, wb_max_bytes = max_bytes,
      wb_prot_info = (if protection_bytes_per_key \<noteq> 0 then Some [] else None),
      wb_default_cf_ts_sz = default_cf_ts_sz, wb_track_timestamp_size = False,
      wb_cf_id_to_ts_sz = (\<lambda>_. None), wb_rep = replicate kHeader 0\<rparr>"

definition WriteBatch_of_rep :: "bytes \<Rightarrow> WriteBatch" where
  "WriteBatch_of_rep rep = (WriteBatch_new 0 0 0 0)\<lparr>wb_content_flags := DEFERRED, wb_rep := rep\<rparr>"

definition WriteBatch_copy :: "WriteBatch \<Rightarrow> WriteBatch" where
  "WriteBatch_copy src = (WriteBatch_new 0 0 0 0)
     \<lparr>wb_save_points := wb_save_points src, wb_wal_term_point := wb_wal_term_point src,
      wb_content_flags := wb_content_flags src, wb_max_bytes := wb_max_bytes src,
      wb_prot_info := wb_prot_info src, wb_default_cf_ts_sz := wb_default_cf_ts_sz src,
      wb_rep := wb_rep src\<rparr>"

section \<open>Header fields\<close>

definition GetDataSize :: "WriteBatch \<Rightarrow> nat" where
  "GetDataSize b = length (wb_rep b)"

definition Count :: "WriteBatch \<Rightarrow> u32" where
  "Count b = DecodeFixed32 (drop 8 (wb_rep b))"

definition SetCount :: "WriteBatch \<Rightarrow> u32 \<Rightarrow> WriteBatch" where
  "SetCount b n = b\<lparr>wb_rep := take 8 (wb_rep b) @ EncodeFixed32 n @ drop 12 (wb_rep b)\<rparr>"

definition Sequence :: "WriteBatch \<Rightarrow> SequenceNumber" where
  "Sequence b = DecodeFixed64 (wb_rep b)"

definition SetSequence :: "WriteBatch \<Rightarrow> SequenceNumber \<Rightarrow> WriteBatch" where
  "SetSequence b seq = b\<lparr>wb_rep := EncodeFixed64 seq @ drop 8 (wb_rep b)\<rparr>"

definition GetFirstOffset :: "WriteBatch \<Rightarrow> nat" where
  "GetFirstOffset b = kHeader"

definition SetAsLatestPersistentState :: "WriteBatch \<Rightarrow> WriteBatch" where
  "SetAsLatestPersistentState b = b\<lparr>wb_is_latest_persistent_state := True\<rparr>"

definition IsLatestPersistentState :: "WriteBatch \<Rightarrow> bool" where
  "IsLatestPersistentState b = wb_is_latest_persistent_state b"

definition SetDefaultColumnFamilyTimestampSize :: "WriteBatch \<Rightarrow> nat \<Rightarrow> WriteBatch" where
  "SetDefaultColumnFamilyTimestampSize b default_cf_ts_sz =
     b\<lparr>wb_default_cf_ts_sz := default_cf_ts_sz\<rparr>"

definition SetMaxBytes :: "WriteBatch \<Rightarrow> nat \<Rightarrow> WriteBatch" where
  "SetMaxBytes b max_bytes = b\<lparr>wb_max_bytes := max_bytes\<rparr>"

definition SetTrackTimestampSize :: "WriteBatch \<Rightarrow> bool \<Rightarrow> WriteBatch" where
  "SetTrackTimestampSize b track = b\<lparr>wb_track_timestamp_size := track\<rparr>"

definition MaybeTrackTimestampSize :: "WriteBatch \<Rightarrow> u32 \<Rightarrow> nat \<Rightarrow> WriteBatch" where
  "MaybeTrackTimestampSize b column_family_id ts_sz =
     (if \<not> wb_track_timestamp_size b then b
      else case wb_cf_id_to_ts_sz b column_family_id of
        None \<Rightarrow> b\<lparr>wb_cf_id_to_ts_sz := (wb_cf_id_to_ts_sz b)(column_family_id \<mapsto> ts_sz)\<rparr>
      | Some _ \<Rightarrow> b)"

definition MarkWalTerminationPoint :: "WriteBatch \<Rightarrow> WriteBatch" where
  "MarkWalTerminationPoint b =
     b\<lparr>wb_wal_term_point := \<lparr>sp_size = GetDataSize b, sp_count = Count b,
        sp_content_flags = wb_content_flags b\<rparr>\<rparr>"

definition GetProtectionBytesPerKey :: "WriteBatch \<Rightarrow> nat" where
  "GetProtectionBytesPerKey b = (if wb_prot_info b \<noteq> None then 8 else 0)"

definition Clear :: "WriteBatch \<Rightarrow> WriteBatch" where
  "Clear b =
     b\<lparr>wb_rep := replicate kHeader 0, wb_content_flags := 0,
       wb_save_points := map_option (\<lambda>_. []) (wb_save_points b),
       wb_prot_info := map_option (\<lambda>_. []) (wb_prot_info b),
       wb_wal_term_point := SavePoint_cleared, wb_default_cf_ts_sz := 0\<rparr>"

definition Release :: "WriteBatch \<Rightarrow> bytes \<times> WriteBatch" where
  "Release b = (wb_rep b, Clear b)"

section \<open>Local save points\<close>

text \<open>\<^verbatim>\<open>resize\<close> of the vector of protection entries: truncation, or padding with default entries.\<close>

definition resize_entries :: "nat \<Rightarrow> ProtectionInfoKVOC list \<Rightarrow> ProtectionInfoKVOC list" where
  "resize_entries n entries =
     take n entries @ replicate (n - length entries) (ProtectionInfoKVOC 0)"

definition resize_rep :: "nat \<Rightarrow> bytes \<Rightarrow> bytes" where
  "resize_rep n rep = take n rep @ replicate (n - length rep) 0"

definition LocalSavePoint :: "WriteBatch \<Rightarrow> SavePoint" where
  "LocalSavePoint b =
     \<lparr>sp_size = GetDataSize b, sp_count = Count b, sp_content_flags = wb_content_flags b\<rparr>"

definition commit :: "SavePoint \<Rightarrow> WriteBatch \<Rightarrow> Status \<times> WriteBatch" where
  "commit savepoint b =
     (if wb_max_bytes b \<noteq> 0 \<and> wb_max_bytes b < length (wb_rep b) then
        let b = b\<lparr>wb_rep := resize_rep (sp_size savepoint) (wb_rep b)\<rparr>;
            b = SetCount b (sp_count savepoint);
            b = b\<lparr>wb_prot_info :=
                    map_option (resize_entries (unat (sp_count savepoint))) (wb_prot_info b)\<rparr>;
            b = b\<lparr>wb_content_flags := sp_content_flags savepoint\<rparr>
        in (Status_MemoryLimit, b)
      else (Status_OK, b))"

section \<open>Pieces shared by the builders\<close>

definition push_tag :: "WriteBatch \<Rightarrow> ValueType \<Rightarrow> WriteBatch" where
  "push_tag b tag = b\<lparr>wb_rep := wb_rep b @ [tag]\<rparr>"

definition push_cf_tag :: "WriteBatch \<Rightarrow> u32 \<Rightarrow> ValueType \<Rightarrow> ValueType \<Rightarrow> WriteBatch" where
  "push_cf_tag b column_family_id tag cf_tag =
     (if column_family_id = 0 then push_tag b tag
      else let b = push_tag b cf_tag in b\<lparr>wb_rep := PutVarint32 (wb_rep b) column_family_id\<rparr>)"

definition push_slice :: "WriteBatch \<Rightarrow> bytes \<Rightarrow> WriteBatch" where
  "push_slice b s = b\<lparr>wb_rep := PutLengthPrefixedSlice (wb_rep b) s\<rparr>"

definition push_parts :: "WriteBatch \<Rightarrow> bytes list \<Rightarrow> WriteBatch" where
  "push_parts b parts = b\<lparr>wb_rep := PutLengthPrefixedSliceParts (wb_rep b) parts\<rparr>"

definition or_flags :: "WriteBatch \<Rightarrow> u32 \<Rightarrow> WriteBatch" where
  "or_flags b flag = b\<lparr>wb_content_flags := wb_content_flags b OR flag\<rparr>"

definition emplace_prot :: "WriteBatch \<Rightarrow> ProtectionInfoKVOC \<Rightarrow> WriteBatch" where
  "emplace_prot b p = b\<lparr>wb_prot_info := map_option (\<lambda>entries. entries @ [p]) (wb_prot_info b)\<rparr>"

section \<open>Column families and timestamps\<close>

definition GetColumnFamilyID :: "ColumnFamilyHandle option \<Rightarrow> u32" where
  "GetColumnFamilyID column_family =
     (case column_family of None \<Rightarrow> 0 | Some cfh \<Rightarrow> cfh_id cfh)"

definition GetColumnFamilyIdAndTimestampSize ::
  "WriteBatch \<Rightarrow> ColumnFamilyHandle option \<Rightarrow> Status \<times> u32 \<times> nat" where
  "GetColumnFamilyIdAndTimestampSize b column_family =
     (let cf_id = GetColumnFamilyID column_family
      in case column_family of
           Some cfh \<Rightarrow>
             (case cfh_ts_sz cfh of
                Some ts_sz \<Rightarrow>
                  if 0 = cf_id \<and> wb_default_cf_ts_sz b \<noteq> ts_sz
                  then (Status_InvalidArgument ''Default cf timestamp size mismatch'', cf_id, ts_sz)
                  else (Status_OK, cf_id, ts_sz)
              | None \<Rightarrow> (Status_OK, cf_id, 0))
         | None \<Rightarrow>
             (Status_OK, cf_id, if 0 < wb_default_cf_ts_sz b then wb_default_cf_ts_sz b else 0))"

text \<open>The comparator of the handle is asserted to be there.\<close>

definition CheckColumnFamilyTimestampSize :: "ColumnFamilyHandle option \<Rightarrow> bytes \<Rightarrow> Status" where
  "CheckColumnFamilyTimestampSize column_family ts =
     (case column_family of
        None \<Rightarrow> Status_InvalidArgument ''column family handle cannot be null''
      | Some cfh \<Rightarrow>
          let cf_ts_sz = the (cfh_ts_sz cfh)
          in if 0 = cf_ts_sz then Status_InvalidArgument ''timestamp disabled''
             else if cf_ts_sz \<noteq> length ts then Status_InvalidArgument ''timestamp size mismatch''
             else Status_OK)"

definition CheckSlicePartsLength :: "bytes list \<Rightarrow> bytes list \<Rightarrow> Status" where
  "CheckSlicePartsLength key value =
     (if uint32_max \<le> sum_list (map length key) then Status_InvalidArgument ''key is too large''
      else if uint32_max \<le> sum_list (map length value)
      then Status_InvalidArgument ''value is too large''
      else Status_OK)"

section \<open>WriteBatchInternal builders\<close>

definition WBI_Put :: "hash64 \<Rightarrow> WriteBatch \<Rightarrow> u32 \<Rightarrow> bytes \<Rightarrow> bytes \<Rightarrow> Status \<times> WriteBatch" where
  "WBI_Put H b column_family_id key value =
     (if uint32_max < length key then (Status_InvalidArgument ''key is too large'', b)
      else if uint32_max < length value then (Status_InvalidArgument ''value is too large'', b)
      else
        let save = LocalSavePoint b;
            b = SetCount b (Count b + 1);
            b = push_cf_tag b column_family_id kTypeValue kTypeColumnFamilyValue;
            b = push_slice b key;
            b = push_slice b value;
            b = or_flags b HAS_PUT;
            b = emplace_prot b
                  (ProtectC H (ProtectKVO H (ProtectionInfo 0) key value kTypeValue) column_family_id)
        in commit save b)"

definition WBI_TimedPut ::
  "hash64 \<Rightarrow> WriteBatch \<Rightarrow> u32 \<Rightarrow> bytes \<Rightarrow> bytes \<Rightarrow> u64 \<Rightarrow> Status \<times> WriteBatch" where
  "WBI_TimedPut H b column_family_id key value write_unix_time =
     (if uint32_max < length key then (Status_InvalidArgument ''key is too large'', b)
      else if uint32_max < length value then (Status_InvalidArgument ''value is too large'', b)
      else if - 1 = write_unix_time then WBI_Put H b column_family_id key value
      else
        let save = LocalSavePoint b;
            b = SetCount b (Count b + 1);
            b = push_cf_tag b column_family_id kTypeValuePreferredSeqno
                  kTypeColumnFamilyValuePreferredSeqno;
            packed_value = PackValueAndWriteTime value write_unix_time;
            b = push_slice b key;
            b = push_slice b packed_value;
            b = or_flags b HAS_TIMED_PUT;
            b = emplace_prot b
                  (ProtectC H (ProtectKVO H (ProtectionInfo 0) key packed_value
                     kTypeValuePreferredSeqno) column_family_id)
        in commit save b)"

definition WBI_Put_parts ::
  "hash64 \<Rightarrow> WriteBatch \<Rightarrow> u32 \<Rightarrow> bytes list \<Rightarrow> bytes list \<Rightarrow> Status \<times> WriteBatch" where
  "WBI_Put_parts H b column_family_id key value =
     (let s = CheckSlicePartsLength key value
      in if \<not> ok s then (s, b)
         else
           let save = LocalSavePoint b;
               b = SetCount b (Count b + 1);
               b = push_cf_tag b column_family_id kTypeValue kTypeColumnFamilyValue;
               b = push_parts b key;
               b = push_parts b value;
               b = or_flags b HAS_PUT;
               b = emplace_prot b
                     (ProtectC H (ProtectKVO_parts H (ProtectionInfo 0) key value kTypeValue)
                        column_family_id)
           in commit save b)"

definition WBI_PutEntity ::
  "hash64 \<Rightarrow> wide_column_ext \<Rightarrow> WriteBatch \<Rightarrow> u32 \<Rightarrow> bytes \<Rightarrow> (bytes \<times> bytes) list \<Rightarrow>
   Status \<times> WriteBatch" where
  "WBI_PutEntity H W b column_family_id key columns =
     (if uint32_max < length key then (Status_InvalidArgument ''key is too large'', b)
      else
        let sorted_columns = SortColumns W columns;
            (s, entity) = Serialize W sorted_columns
        in if \<not> ok s then (s, b)
           else if uint32_max < length entity
           then (Status_InvalidArgument ''wide column entity is too large'', b)
           else
             let save = LocalSavePoint b;
                 b = SetCount b (Count b + 1);
                 b = push_cf_tag b column_family_id kTypeWideColumnEntity
                       kTypeColumnFamilyWideColumnEntity;
                 b = push_slice b key;
                 b = push_slice b entity;
                 b = or_flags b HAS_PUT_ENTITY;
                 b = emplace_prot b
                       (ProtectC H (ProtectKVO H (ProtectionInfo 0) key entity
                          kTypeWideColumnEntity) column_family_id)
             in commit save b)"

definition InsertNoop :: "WriteBatch \<Rightarrow> Status \<times> WriteBatch" where
  "InsertNoop b = (Status_OK, push_tag b kTypeNoop)"

definition GetBeginPrepareType :: "bool \<Rightarrow> bool \<Rightarrow> ValueType" where
  "GetBeginPrepareType write_after_commit unprepared_batch =
     (if write_after_commit then kTypeBeginPrepareXID
      else if unprepared_batch then kTypeBeginUnprepareXID else kTypeBeginPersistedPrepareXID)"

definition InsertBeginPrepare :: "WriteBatch \<Rightarrow> bool \<Rightarrow> bool \<Rightarrow> Status \<times> WriteBatch" where
  "InsertBeginPrepare b write_after_commit unprepared_batch =
     (let b = push_tag b (GetBeginPrepareType write_after_commit unprepared_batch);
          b = or_flags b HAS_BEGIN_PREPARE
      in (Status_OK, b))"

definition InsertEndPrepare :: "WriteBatch \<Rightarrow> bytes \<Rightarrow> Status \<times> WriteBatch" where
  "InsertEndPrepare b xid =
     (let b = push_tag b kTypeEndPrepareXID;
          b = push_slice b xid;
          b = or_flags b HAS_END_PREPARE
      in (Status_OK, b))"

definition WBI_MarkEndPrepare :: "WriteBatch \<Rightarrow> bytes \<Rightarrow> bool \<Rightarrow> bool \<Rightarrow> Status \<times> WriteBatch" where
  "WBI_MarkEndPrepare b xid write_after_commit unprepared_batch =
     (let b = b\<lparr>wb_save_points := map_option (\<lambda>_. []) (wb_save_points b)\<rparr>;
          b = b\<lparr>wb_rep := (wb_rep b)[12 := GetBeginPrepareType write_after_commit unprepared_batch]\<rparr>;
          b = or_flags b HAS_BEGIN_PREPARE;
          b = (if unprepared_batch then or_flags b HAS_BEGIN_UNPREPARE else b)
      in InsertEndPrepare b xid)"

definition WBI_MarkCommit :: "WriteBatch \<Rightarrow> bytes \<Rightarrow> Status \<times> WriteBatch" where
  "WBI_MarkCommit b xid =
     (let b = push_tag b kTypeCommitXID;
          b = push_slice b xid;
          b = or_flags b HAS_COMMIT
      in (Status_OK, b))"

text \<open>The commit timestamp is asserted not to be empty; \<^verbatim>\<open>Iterate\<close> asserts the same when it reads the record.\<close>

definition WBI_MarkCommitWithTimestamp :: "WriteBatch \<Rightarrow> bytes \<Rightarrow> bytes \<Rightarrow> Status \<times> WriteBatch" where
  "WBI_MarkCommitWithTimestamp b xid commit_ts =
     (let b = push_tag b kTypeCommitXIDAndTimestamp;
          b = push_slice b commit_ts;
          b = push_slice b xid;
          b = or_flags b HAS_COMMIT
      in (Status_OK, b))"

definition WBI_MarkRollback :: "WriteBatch \<Rightarrow> bytes \<Rightarrow> Status \<times> WriteBatch" where
  "WBI_MarkRollback b xid =
     (let b = push_tag b kTypeRollbackXID;
          b = push_slice b xid;
          b = or_flags b HAS_ROLLBACK
      in (Status_OK, b))"

definition WBI_Delete :: "hash64 \<Rightarrow> WriteBatch \<Rightarrow> u32 \<Rightarrow> bytes \<Rightarrow> Status \<times> WriteBatch" where
  "WBI_Delete H b column_family_id key =
     (let save = LocalSavePoint b;
          b = SetCount b (Count b + 1);
          b = push_cf_tag b column_family_id kTypeDeletion kTypeColumnFamilyDeletion;
          b = push_slice b key;
          b = or_flags b HAS_DELETE;
          b = emplace_prot b
                (ProtectC H (ProtectKVO H (ProtectionInfo 0) key [] kTypeDeletion) column_family_id)
      in commit save b)"

definition WBI_Delete_parts :: "hash64 \<Rightarrow> WriteBatch \<Rightarrow> u32 \<Rightarrow> bytes list \<Rightarrow> Status \<times> WriteBatch" where
  "WBI_Delete_parts H b column_family_id key =
     (let save = LocalSavePoint b;
          b = SetCount b (Count b + 1);
          b = push_cf_tag b column_family_id kTypeDeletion kTypeColumnFamilyDeletion;
          b = push_parts b key;
          b = or_flags b HAS_DELETE;
          b = emplace_prot b
                (ProtectC H (ProtectKVO_parts H (ProtectionInfo 0) key [] kTypeDeletion)
                   column_family_id)
      in commit save b)"

definition WBI_SingleDelete :: "hash64 \<Rightarrow> WriteBatch \<Rightarrow> u32 \<Rightarrow> bytes \<Rightarrow> Status \<times> WriteBatch" where
  "WBI_SingleDelete H b column_family_id key =
     (let save = LocalSavePoint b;
          b = SetCount b (Count b + 1);
          b = push_cf_tag b column_family_id kTypeSingleDeletion kTypeColumnFamilySingleDeletion;
          b = push_slice b key;
          b = or_flags b HAS_SINGLE_DELETE;
          b = emplace_prot b
                (ProtectC H (ProtectKVO H (ProtectionInfo 0) key [] kTypeSingleDeletion)
                   column_family_id)
      in commit save b)"

definition WBI_SingleDelete_parts ::
  "hash64 \<Rightarrow> WriteBatch \<Rightarrow> u32 \<Rightarrow> bytes list \<Rightarrow> Status \<times> WriteBatch" where
  "WBI_SingleDelete_parts H b column_family_id key =
     (let save = LocalSavePoint b;
          b = SetCount b (Count b + 1);
          b = push_cf_tag b column_family_id kTypeSingleDeletion kTypeColumnFamilySingleDeletion;
          b = push_parts b key;
          b = or_flags b HAS_SINGLE_DELETE;
          b = emplace_prot b
                (ProtectC H (ProtectKVO_parts H (ProtectionInfo 0) key [] kTypeSingleDeletion)
                   column_family_id)
      in commit save b)"

definition WBI_DeleteRange ::
  "hash64 \<Rightarrow> WriteBatch \<Rightarrow> u32 \<Rightarrow> bytes \<Rightarrow> bytes \<Rightarrow> Status \<times> WriteBatch" where
  "WBI_DeleteRange H b column_family_id begin_key end_key =
     (let save = LocalSavePoint b;
          b = SetCount b (Count b + 1);
          b = push_cf_tag b column_family_id kTypeRangeDeletion kTypeColumnFamilyRangeDeletion;
          b = push_slice b begin_key;
          b = push_slice b end_key;
          b = or_flags b HAS_DELETE_RANGE;
          b = emplace_prot b
                (ProtectC H (ProtectKVO H (ProtectionInfo 0) begin_key end_key kTypeRangeDeletion)
                   column_family_id)
      in commit save b)"

definition WBI_DeleteRange_parts ::
  "hash64 \<Rightarrow> WriteBatch \<Rightarrow> u32 \<Rightarrow> bytes list \<Rightarrow> bytes list \<Rightarrow> Status \<times> WriteBatch" where
  "WBI_DeleteRange_parts H b column_family_id begin_key end_key =
     (let save = LocalSavePoint b;
          b = SetCount b (Count b + 1);
          b = push_cf_tag b column_family_id kTypeRangeDeletion kTypeColumnFamilyRangeDeletion;
          b = push_parts b begin_key;
          b = push_parts b end_key;
          b = or_flags b HAS_DELETE_RANGE;
          b = emplace_prot b
                (ProtectC H (ProtectKVO_parts H (ProtectionInfo 0) begin_key end_key
                   kTypeRangeDeletion) column_family_id)
      in commit save b)"

definition WBI_Merge :: "hash64 \<Rightarrow> WriteBatch \<Rightarrow> u32 \<Rightarrow> bytes \<Rightarrow> bytes \<Rightarrow> Status \<times> WriteBatch" where
  "WBI_Merge H b column_family_id key value =
     (if uint32_max < length key then (Status_InvalidArgument ''key is too large'', b)
      else if uint32_max < length value then (Status_InvalidArgument ''value is too large'', b)
      else
        let save = LocalSavePoint b;
            b = SetCount b (Count b + 1);
            b = push_cf_tag b column_family_id kTypeMerge kTypeColumnFamilyMerge;
            b = push_slice b key;
            b = push_slice b value;
            b = or_flags b HAS_MERGE;
            b = emplace_prot b
                  (ProtectC H (ProtectKVO H (ProtectionInfo 0) key value kTypeMerge) column_family_id)
        in commit save b)"

definition WBI_Merge_parts ::
  "hash64 \<Rightarrow> WriteBatch \<Rightarrow> u32 \<Rightarrow> bytes list \<Rightarrow> bytes list \<Rightarrow> Status \<times> WriteBatch" where
  "WBI_Merge_parts H b column_family_id key value =
     (let s = CheckSlicePartsLength key value
      in if \<not> ok s then (s, b)
         else
           let save = LocalSavePoint b;
               b = SetCount b (Count b + 1);
               b = push_cf_tag b column_family_id kTypeMerge kTypeColumnFamilyMerge;
               b = push_parts b key;
               b = push_parts b value;
               b = or_flags b HAS_MERGE;
               b = emplace_prot b
                     (ProtectC H (ProtectKVO_parts H (ProtectionInfo 0) key value kTypeMerge)
                        column_family_id)
           in commit save b)"

definition WBI_PutBlobIndex ::
  "hash64 \<Rightarrow> WriteBatch \<Rightarrow> u32 \<Rightarrow> bytes \<Rightarrow> bytes \<Rightarrow> Status \<times> WriteBatch" where
  "WBI_PutBlobIndex H b column_family_id key value =
     (let save = LocalSavePoint b;
          b = SetCount b (Count b + 1);
          b = push_cf_tag b column_family_id kTypeBlobIndex kTypeColumnFamilyBlobIndex;
          b = push_slice b key;
          b = push_slice b value;
          b = or_flags b HAS_BLOB_INDEX;
          b = emplace_prot b
                (ProtectC H (ProtectKVO H (ProtectionInfo 0) key value kTypeBlobIndex)
                   column_family_id)
      in commit save b)"

definition PutLogData :: "WriteBatch \<Rightarrow> bytes \<Rightarrow> Status \<times> WriteBatch" where
  "PutLogData b blob =
     (let save = LocalSavePoint b;
          b = push_tag b kTypeLogData;
          b = push_slice b blob
      in commit save b)"

section \<open>WriteBatch members\<close>

text \<open>
  The members that take a column family handle share two shapes in the code: one that decides
  between a plain key and a key with a dummy timestamp, and one that takes the timestamp.
\<close>

definition WB_Put ::
  "hash64 \<Rightarrow> WriteBatch \<Rightarrow> ColumnFamilyHandle option \<Rightarrow> bytes \<Rightarrow> bytes \<Rightarrow> Status \<times> WriteBatch" where
  "WB_Put H b column_family key value =
     (let (s, cf_id, ts_sz) = GetColumnFamilyIdAndTimestampSize b column_family
      in if \<not> ok s then (s, b)
         else
           let (s, b) =
             (if 0 = ts_sz then WBI_Put H b cf_id key value
              else
                let b = b\<lparr>wb_needs_in_place_update_ts := True, wb_has_key_with_ts := True\<rparr>;
                    dummy_ts = replicate ts_sz 0
                in WBI_Put_parts H b cf_id [key, dummy_ts] [value])
           in (s, if ok s then MaybeTrackTimestampSize b cf_id ts_sz else b))"

definition WB_TimedPut ::
  "hash64 \<Rightarrow> WriteBatch \<Rightarrow> ColumnFamilyHandle option \<Rightarrow> bytes \<Rightarrow> bytes \<Rightarrow> u64 \<Rightarrow>
   Status \<times> WriteBatch" where
  "WB_TimedPut H b column_family key value write_unix_time =
     (let (s, cf_id, ts_sz) = GetColumnFamilyIdAndTimestampSize b column_family
      in if \<not> ok s then (s, b)
         else if ts_sz \<noteq> 0
         then (Status_NotSupported
                 ''TimedPut is not supported in combination with user-defined timestamps.'', b)
         else WBI_TimedPut H b cf_id key value write_unix_time)"

definition WB_Put_ts ::
  "hash64 \<Rightarrow> WriteBatch \<Rightarrow> ColumnFamilyHandle option \<Rightarrow> bytes \<Rightarrow> bytes \<Rightarrow> bytes \<Rightarrow>
   Status \<times> WriteBatch" where
  "WB_Put_ts H b column_family key ts value =
     (let s = CheckColumnFamilyTimestampSize column_family ts
      in if \<not> ok s then (s, b)
         else
           let b = b\<lparr>wb_has_key_with_ts := True\<rparr>;
               cf_id = cfh_id (the column_family);
               (s, b) = WBI_Put_parts H b cf_id [key, ts] [value]
           in (s, if ok s then MaybeTrackTimestampSize b cf_id (length ts) else b))"

definition WB_Put_parts ::
  "hash64 \<Rightarrow> WriteBatch \<Rightarrow> ColumnFamilyHandle option \<Rightarrow> bytes list \<Rightarrow> bytes list \<Rightarrow>
   Status \<times> WriteBatch" where
  "WB_Put_parts H b column_family key value =
     (let (s, cf_id, ts_sz) = GetColumnFamilyIdAndTimestampSize b column_family
      in if \<not> ok s then (s, b)
         else if ts_sz = 0 then
           let (s, b) = WBI_Put_parts H b cf_id key value
           in (s, if ok s then MaybeTrackTimestampSize b cf_id ts_sz else b)
         else (Status_InvalidArgument
                 ''Cannot call this method on column family enabling timestamp'', b))"

definition WB_PutEntity ::
  "hash64 \<Rightarrow> wide_column_ext \<Rightarrow> WriteBatch \<Rightarrow> ColumnFamilyHandle option \<Rightarrow> bytes \<Rightarrow>
   (bytes \<times> bytes) list \<Rightarrow> Status \<times> WriteBatch" where
  "WB_PutEntity H W b column_family key columns =
     (if column_family = None
      then (Status_InvalidArgument ''Cannot call this method without a column family handle'', b)
      else
        let (s, cf_id, ts_sz) = GetColumnFamilyIdAndTimestampSize b column_family
        in if \<not> ok s then (s, b)
           else if ts_sz \<noteq> 0
           then (Status_InvalidArgument
                   ''Cannot call this method on column family enabling timestamp'', b)
           else WBI_PutEntity H W b cf_id key columns)"

fun PutEntity_groups_loop ::
  "hash64 \<Rightarrow> wide_column_ext \<Rightarrow> WriteBatch \<Rightarrow> bytes \<Rightarrow> Status \<Rightarrow>
   (ColumnFamilyHandle option \<times> (bytes \<times> bytes) list) list \<Rightarrow> Status \<times> WriteBatch" where
  "PutEntity_groups_loop H W b key s [] = (s, b)"
| "PutEntity_groups_loop H W b key s ((cf, columns) # groups) =
     (let (s, b) = WB_PutEntity H W b cf key columns
      in if \<not> ok s then (s, b) else PutEntity_groups_loop H W b key s groups)"

definition WB_PutEntity_groups ::
  "hash64 \<Rightarrow> wide_column_ext \<Rightarrow> WriteBatch \<Rightarrow> bytes \<Rightarrow>
   (ColumnFamilyHandle option \<times> (bytes \<times> bytes) list) list \<Rightarrow> Status \<times> WriteBatch" where
  "WB_PutEntity_groups H W b key attribute_groups =
     (if attribute_groups = []
      then (Status_InvalidArgument ''Cannot call this method with empty attribute groups'', b)
      else PutEntity_groups_loop H W b key Status_OK attribute_groups)"

definition WB_Delete ::
  "hash64 \<Rightarrow> WriteBatch \<Rightarrow> ColumnFamilyHandle option \<Rightarrow> bytes \<Rightarrow> Status \<times> WriteBatch" where
  "WB_Delete H b column_family key =
     (let (s, cf_id, ts_sz) = GetColumnFamilyIdAndTimestampSize b column_family
      in if \<not> ok s then (s, b)
         else
           let (s, b) =
             (if 0 = ts_sz then WBI_Delete H b cf_id key
              else
                let b = b\<lparr>wb_needs_in_place_update_ts := True, wb_has_key_with_ts := True\<rparr>;
                    dummy_ts = replicate ts_sz 0
                in WBI_Delete_parts H b cf_id [key, dummy_ts])
           in (s, if ok s then MaybeTrackTimestampSize b cf_id ts_sz else b))"

definition WB_Delete_ts ::
  "hash64 \<Rightarrow> WriteBatch \<Rightarrow> ColumnFamilyHandle option \<Rightarrow> bytes \<Rightarrow> bytes \<Rightarrow> Status \<times> WriteBatch" where
  "WB_Delete_ts H b column_family key ts =
     (let s = CheckColumnFamilyTimestampSize column_family ts
      in if \<not> ok s then (s, b)
         else
           let b = b\<lparr>wb_has_key_with_ts := True\<rparr>;
               cf_id = cfh_id (the column_family);
               (s, b) = WBI_Delete_parts H b cf_id [key, ts]
           in (s, if ok s then MaybeTrackTimestampSize b cf_id (length ts) else b))"

definition WB_Delete_parts ::
  "hash64 \<Rightarrow> WriteBatch \<Rightarrow> ColumnFamilyHandle option \<Rightarrow> bytes list \<Rightarrow> Status \<times> WriteBatch" where
  "WB_Delete_parts H b column_family key =
     (let (s, cf_id, ts_sz) = GetColumnFamilyIdAndTimestampSize b column_family
      in if \<not> ok s then (s, b)
         else if 0 = ts_sz then
           let (s, b) = WBI_Delete_parts H b cf_id key
           in (s, if ok s then MaybeTrackTimestampSize b cf_id ts_sz else b)
         else (Status_InvalidArgument
                 ''Cannot call this method on column family enabling timestamp'', b))"

definition WB_SingleDelete ::
  "hash64 \<Rightarrow> WriteBatch \<Rightarrow> ColumnFamilyHandle option \<Rightarrow> bytes \<Rightarrow> Status \<times> WriteBatch" where
  "WB_SingleDelete H b column_family key =
     (let (s, cf_id, ts_sz) = GetColumnFamilyIdAndTimestampSize b column_family
      in if \<not> ok s then (s, b)
         else
           let (s, b) =
             (if 0 = ts_sz then WBI_SingleDelete H b cf_id key
              else
                let b = b\<lparr>wb_needs_in_place_update_ts := True, wb_has_key_with_ts := True\<rparr>;
                    dummy_ts = replicate ts_sz 0
                in WBI_SingleDelete_parts H b cf_id [key, dummy_ts])
           in (s, if ok s then MaybeTrackTimestampSize b cf_id ts_sz else b))"

definition WB_SingleDelete_ts ::
  "hash64 \<Rightarrow> WriteBatch \<Rightarrow> ColumnFamilyHandle option \<Rightarrow> bytes \<Rightarrow> bytes \<Rightarrow> Status \<times> WriteBatch" where
  "WB_SingleDelete_ts H b column_family key ts =
     (let s = CheckColumnFamilyTimestampSize column_family ts
      in if \<not> ok s then (s, b)
         else
           let b = b\<lparr>wb_has_key_with_ts := True\<rparr>;
               cf_id = cfh_id (the column_family);
               (s, b) = WBI_SingleDelete_parts H b cf_id [key, ts]
           in (s, if ok s then MaybeTrackTimestampSize b cf_id (length ts) else b))"

definition WB_SingleDelete_parts ::
  "hash64 \<Rightarrow> WriteBatch \<Rightarrow> ColumnFamilyHandle option \<Rightarrow> bytes list \<Rightarrow> Status \<times> WriteBatch" where
  "WB_SingleDelete_parts H b column_family key =
     (let (s, cf_id, ts_sz) = GetColumnFamilyIdAndTimestampSize b column_family
      in if \<not> ok s then (s, b)
         else if 0 = ts_sz then
           let (s, b) = WBI_SingleDelete_parts H b cf_id key
           in (s, if ok s then MaybeTrackTimestampSize b cf_id ts_sz else b)
         else (Status_InvalidArgument
                 ''Cannot call this method on column family enabling timestamp'', b))"

definition WB_DeleteRange ::
  "hash64 \<Rightarrow> WriteBatch \<Rightarrow> ColumnFamilyHandle option \<Rightarrow> bytes \<Rightarrow> bytes \<Rightarrow> Status \<times> WriteBatch" where
  "WB_DeleteRange H b column_family begin_key end_key =
     (let (s, cf_id, ts_sz) = GetColumnFamilyIdAndTimestampSize b column_family
      in if \<not> ok s then (s, b)
         else
           let (s, b) =
             (if 0 = ts_sz then WBI_DeleteRange H b cf_id begin_key end_key
              else
                let b = b\<lparr>wb_needs_in_place_update_ts := True, wb_has_key_with_ts := True\<rparr>;
                    dummy_ts = replicate ts_sz 0
                in WBI_DeleteRange_parts H b cf_id [begin_key, dummy_ts] [end_key, dummy_ts])
           in (s, if ok s then MaybeTrackTimestampSize b cf_id ts_sz else b))"

definition WB_DeleteRange_ts ::
  "hash64 \<Rightarrow> WriteBatch \<Rightarrow> ColumnFamilyHandle option \<Rightarrow> bytes \<Rightarrow> bytes \<Rightarrow> bytes \<Rightarrow>
   Status \<times> WriteBatch" where
  "WB_DeleteRange_ts H b column_family begin_key end_key ts =
     (let s = CheckColumnFamilyTimestampSize column_family ts
      in if \<not> ok s then (s, b)
         else
           let b = b\<lparr>wb_has_key_with_ts := True\<rparr>;
               cf_id = cfh_id (the column_family);
               (s, b) = WBI_DeleteRange_parts H b cf_id [begin_key, ts] [end_key, ts]
           in (s, if ok s then MaybeTrackTimestampSize b cf_id (length ts) else b))"

definition WB_DeleteRange_parts ::
  "hash64 \<Rightarrow> WriteBatch \<Rightarrow> ColumnFamilyHandle option \<Rightarrow> bytes list \<Rightarrow> bytes list \<Rightarrow>
   Status \<times> WriteBatch" where
  "WB_DeleteRange_parts H b column_family begin_key end_key =
     (let (s, cf_id, ts_sz) = GetColumnFamilyIdAndTimestampSize b column_family
      in if \<not> ok s then (s, b)
         else if 0 = ts_sz then
           let (s, b) = WBI_DeleteRange_parts H b cf_id begin_key end_key
           in (s, if ok s then MaybeTrackTimestampSize b cf_id ts_sz else b)
         else (Status_InvalidArgument
                 ''Cannot call this method on column family enabling timestamp'', b))"

definition WB_Merge ::
  "hash64 \<Rightarrow> WriteBatch \<Rightarrow> ColumnFamilyHandle option \<Rightarrow> bytes \<Rightarrow> bytes \<Rightarrow> Status \<times> WriteBatch" where
  "WB_Merge H b column_family key value =
     (let (s, cf_id, ts_sz) = GetColumnFamilyIdAndTimestampSize b column_family
      in if \<not> ok s then (s, b)
         else
           let (s, b) =
             (if 0 = ts_sz then WBI_Merge H b cf_id key value
              else
                let b = b\<lparr>wb_needs_in_place_update_ts := True, wb_has_key_with_ts := True\<rparr>;
                    dummy_ts = replicate ts_sz 0
                in WBI_Merge_parts H b cf_id [key, dummy_ts] [value])
           in (s, if ok s then MaybeTrackTimestampSize b cf_id ts_sz else b))"

definition WB_Merge_ts ::
  "hash64 \<Rightarrow> WriteBatch \<Rightarrow> ColumnFamilyHandle option \<Rightarrow> bytes \<Rightarrow> bytes \<Rightarrow> bytes \<Rightarrow>
   Status \<times> WriteBatch" where
  "WB_Merge_ts H b column_family key ts value =
     (let s = CheckColumnFamilyTimestampSize column_family ts
      in if \<not> ok s then (s, b)
         else
           let b = b\<lparr>wb_has_key_with_ts := True\<rparr>;
               cf_id = cfh_id (the column_family);
               (s, b) = WBI_Merge_parts H b cf_id [key, ts] [value]
           in (s, if ok s then MaybeTrackTimestampSize b cf_id (length ts) else b))"

definition WB_Merge_parts ::
  "hash64 \<Rightarrow> WriteBatch \<Rightarrow> ColumnFamilyHandle option \<Rightarrow> bytes list \<Rightarrow> bytes list \<Rightarrow>
   Status \<times> WriteBatch" where
  "WB_Merge_parts H b column_family key value =
     (let (s, cf_id, ts_sz) = GetColumnFamilyIdAndTimestampSize b column_family
      in if \<not> ok s then (s, b)
         else if 0 = ts_sz then
           let (s, b) = WBI_Merge_parts H b cf_id key value
           in (s, if ok s then MaybeTrackTimestampSize b cf_id ts_sz else b)
         else (Status_InvalidArgument
                 ''Cannot call this method on column family enabling timestamp'', b))"

section \<open>Save points\<close>

definition SetSavePoint :: "WriteBatch \<Rightarrow> WriteBatch" where
  "SetSavePoint b =
     (let stack = (case wb_save_points b of None \<Rightarrow> [] | Some stack \<Rightarrow> stack)
      in b\<lparr>wb_save_points := Some (\<lparr>sp_size = GetDataSize b, sp_count = Count b,
             sp_content_flags = wb_content_flags b\<rparr> # stack)\<rparr>)"

definition RollbackToSavePoint :: "WriteBatch \<Rightarrow> Status \<times> WriteBatch" where
  "RollbackToSavePoint b =
     (case wb_save_points b of
        None \<Rightarrow> (Status_NotFound, b)
      | Some [] \<Rightarrow> (Status_NotFound, b)
      | Some (savepoint # stack) \<Rightarrow>
          let b = b\<lparr>wb_save_points := Some stack\<rparr>
          in if sp_size savepoint = length (wb_rep b) then (Status_OK, b)
             else if sp_size savepoint = 0 then (Status_OK, Clear b)
             else
               let b = b\<lparr>wb_rep := resize_rep (sp_size savepoint) (wb_rep b)\<rparr>;
                   b = b\<lparr>wb_prot_info := map_option
                           (resize_entries (unat (sp_count savepoint))) (wb_prot_info b)\<rparr>;
                   b = SetCount b (sp_count savepoint);
                   b = b\<lparr>wb_content_flags := sp_content_flags savepoint\<rparr>
               in (Status_OK, b))"

definition PopSavePoint :: "WriteBatch \<Rightarrow> Status \<times> WriteBatch" where
  "PopSavePoint b =
     (case wb_save_points b of
        None \<Rightarrow> (Status_NotFound, b)
      | Some [] \<Rightarrow> (Status_NotFound, b)
      | Some (_ # stack) \<Rightarrow> (Status_OK, b\<lparr>wb_save_points := Some stack\<rparr>))"

section \<open>Whole batches\<close>

definition SetContents :: "WriteBatch \<Rightarrow> bytes \<Rightarrow> Status \<times> WriteBatch" where
  "SetContents b contents = (Status_OK, b\<lparr>wb_rep := contents, wb_content_flags := DEFERRED\<rparr>)"

text \<open>
  \<^verbatim>\<open>Append\<close>: the count of the source is kept in an \<^verbatim>\<open>int\<close>. \<open>None\<close> is a failed assertion, or a copy that
  leaves the entries or the bytes of the source, as one of a negative number of entries does.
\<close>

definition Append :: "WriteBatch \<Rightarrow> WriteBatch \<Rightarrow> bool \<Rightarrow> (Status \<times> WriteBatch) option" where
  "Append dst src wal_only =
     (if \<not> (Count dst = 0 \<or> (wb_prot_info dst = None) = (wb_prot_info src = None)) then None
      else if (case wb_prot_info src of None \<Rightarrow> False | Some es \<Rightarrow> length es \<noteq> unat (Count src)) \<or>
         (case wb_prot_info dst of None \<Rightarrow> False | Some es \<Rightarrow> length es \<noteq> unat (Count dst))
      then Some (Status_Corruption
              ''Write batch has inconsistent count and number of checksums'' [], dst)
      else
        let batch_end = wb_wal_term_point src;
            (src_len, src_count, src_flags) =
              (if wal_only \<and> \<not> is_cleared batch_end
               then (sp_size batch_end - kHeader, sint (sp_count batch_end), sp_content_flags batch_end)
               else (length (wb_rep src) - kHeader, sint (Count src), wb_content_flags src))
        in if (case wb_prot_info src of None \<Rightarrow> False
               | Some es \<Rightarrow> src_count < 0 \<or> int (length es) < src_count) \<or>
              length (wb_rep src) < kHeader + src_len
           then None
           else
             let dst =
                   (case wb_prot_info src of
                      Some src_entries \<Rightarrow>
                        dst\<lparr>wb_prot_info := Some
                              ((case wb_prot_info dst of None \<Rightarrow> [] | Some es \<Rightarrow> es) @
                               take (nat src_count) src_entries)\<rparr>
                    | None \<Rightarrow> dst\<lparr>wb_prot_info := None\<rparr>);
                 dst = SetCount dst (Count dst + word_of_int src_count);
                 dst = dst\<lparr>wb_rep := wb_rep dst @ take src_len (drop kHeader (wb_rep src))\<rparr>;
                 dst = or_flags dst src_flags
             in Some (Status_OK, dst))"

definition AppendedByteSize :: "nat \<Rightarrow> nat \<Rightarrow> nat" where
  "AppendedByteSize leftByteSize rightByteSize =
     (if leftByteSize = 0 \<or> rightByteSize = 0 then leftByteSize + rightByteSize
      else leftByteSize + rightByteSize - kHeader)"

end
