(* ===== verification/Write_Batch_Iter.thy ===== *)
theory Write_Batch_Iter
  imports Write_Batch
begin

text \<open>
  \<^verbatim>\<open>db/write_batch.cc\<close>: reading records back, \<^verbatim>\<open>Iterate\<close> with its handlers, the lazily computed
  content flags, and the verification and recomputation of protection information.

  A handler is a record of functions on a state of the handler's own type, one per virtual
  member. A routine that reads a record returns the error status, or the fields with the rest of
  the input; the callers return at once on an error and never look at the other results.
\<close>

section \<open>Reading one record\<close>

record BatchRecord =
  br_tag :: ValueType
  br_cf :: u32
  br_key :: bytes
  br_value :: bytes
  br_blob :: bytes
  br_xid :: bytes
  br_write_unix_time :: u64

definition BatchRecord_init :: BatchRecord where
  "BatchRecord_init = \<lparr>br_tag = 0, br_cf = 0, br_key = [], br_value = [], br_blob = [], br_xid = [],
     br_write_unix_time = 0\<rparr>"

type_synonym 'a read_result = "Status + 'a \<times> bytes"

fun and_then :: "'a read_result \<Rightarrow> ('a \<Rightarrow> bytes \<Rightarrow> 'b read_result) \<Rightarrow> 'b read_result" where
  "and_then (Inl s) g = Inl s"
| "and_then (Inr (f, input)) g = g f input"

definition read_cf :: "varint_ext \<Rightarrow> string \<Rightarrow> BatchRecord \<Rightarrow> bytes \<Rightarrow> BatchRecord read_result" where
  "read_cf E msg f input =
     (case GetVarint32 E input of
        None \<Rightarrow> Inl (Status_Corruption msg [])
      | Some (cf, input) \<Rightarrow> Inr (f\<lparr>br_cf := cf\<rparr>, input))"

definition read_slice ::
  "varint_ext \<Rightarrow> string \<Rightarrow> (bytes \<Rightarrow> BatchRecord \<Rightarrow> BatchRecord) \<Rightarrow> BatchRecord \<Rightarrow> bytes \<Rightarrow>
   BatchRecord read_result" where
  "read_slice E msg upd f input =
     (case GetLengthPrefixedSlice E input of
        None \<Rightarrow> Inl (Status_Corruption msg [])
      | Some (sl, input) \<Rightarrow> Inr (upd sl f, input))"

abbreviation set_key :: "bytes \<Rightarrow> BatchRecord \<Rightarrow> BatchRecord" where
  "set_key k f \<equiv> f\<lparr>br_key := k\<rparr>"

abbreviation set_value :: "bytes \<Rightarrow> BatchRecord \<Rightarrow> BatchRecord" where
  "set_value v f \<equiv> f\<lparr>br_value := v\<rparr>"

abbreviation set_blob :: "bytes \<Rightarrow> BatchRecord \<Rightarrow> BatchRecord" where
  "set_blob v f \<equiv> f\<lparr>br_blob := v\<rparr>"

abbreviation set_xid :: "bytes \<Rightarrow> BatchRecord \<Rightarrow> BatchRecord" where
  "set_xid v f \<equiv> f\<lparr>br_xid := v\<rparr>"

definition read_key_value :: "varint_ext \<Rightarrow> string \<Rightarrow> BatchRecord \<Rightarrow> bytes \<Rightarrow> BatchRecord read_result" where
  "read_key_value E msg f input =
     and_then (read_slice E msg set_key f input) (read_slice E msg set_value)"

text \<open>The unpacked write time is stored only when the caller passes a pointer for it.\<close>

definition set_timed_value :: "bool \<Rightarrow> bytes \<Rightarrow> BatchRecord \<Rightarrow> BatchRecord" where
  "set_timed_value want_time packed_value f =
     (if want_time then
        let (value, write_unix_time) = ParsePackedValueWithWriteTime packed_value
        in f\<lparr>br_value := value, br_write_unix_time := write_unix_time\<rparr>
      else f\<lparr>br_value := packed_value\<rparr>)"

definition ReadKeyFromWriteBatchEntry :: "varint_ext \<Rightarrow> bytes \<Rightarrow> bool \<Rightarrow> (bytes \<times> bytes) option" where
  "ReadKeyFromWriteBatchEntry E input cf_record =
     (let input = drop 1 input
      in if cf_record then
           (case GetVarint32 E input of
              None \<Rightarrow> None
            | Some (cf, input) \<Rightarrow> GetLengthPrefixedSlice E input)
         else GetLengthPrefixedSlice E input)"

text \<open>An unknown tag is printed through a signed \<^verbatim>\<open>char\<close>.\<close>

definition unknown_tag :: "ValueType \<Rightarrow> Status" where
  "unknown_tag tag =
     Status_Corruption ''unknown WriteBatch tag'' (to_string (unat (scast tag :: u32)))"

definition ReadRecordFromWriteBatch ::
  "varint_ext \<Rightarrow> bool \<Rightarrow> BatchRecord \<Rightarrow> bytes \<Rightarrow> BatchRecord read_result" where
  "ReadRecordFromWriteBatch E want_time f input =
     (let tag = input ! 0;
          input = drop 1 input;
          f = f\<lparr>br_tag := tag, br_cf := 0\<rparr>
      in
        if tag = kTypeColumnFamilyValue then
          and_then (read_cf E ''bad WriteBatch Put'' f input) (read_key_value E ''bad WriteBatch Put'')
        else if tag = kTypeValue then read_key_value E ''bad WriteBatch Put'' f input
        else if tag = kTypeColumnFamilyDeletion \<or> tag = kTypeColumnFamilySingleDeletion then
          and_then (read_cf E ''bad WriteBatch Delete'' f input)
            (read_slice E ''bad WriteBatch Delete'' set_key)
        else if tag = kTypeDeletion \<or> tag = kTypeSingleDeletion then
          read_slice E ''bad WriteBatch Delete'' set_key f input
        else if tag = kTypeColumnFamilyRangeDeletion then
          and_then (read_cf E ''bad WriteBatch DeleteRange'' f input)
            (read_key_value E ''bad WriteBatch DeleteRange'')
        else if tag = kTypeRangeDeletion then
          read_key_value E ''bad WriteBatch DeleteRange'' f input
        else if tag = kTypeColumnFamilyMerge then
          and_then (read_cf E ''bad WriteBatch Merge'' f input)
            (read_key_value E ''bad WriteBatch Merge'')
        else if tag = kTypeMerge then read_key_value E ''bad WriteBatch Merge'' f input
        else if tag = kTypeColumnFamilyBlobIndex then
          and_then (read_cf E ''bad WriteBatch BlobIndex'' f input)
            (read_key_value E ''bad WriteBatch BlobIndex'')
        else if tag = kTypeBlobIndex then read_key_value E ''bad WriteBatch BlobIndex'' f input
        else if tag = kTypeLogData then read_slice E ''bad WriteBatch Blob'' set_blob f input
        else if tag = kTypeNoop \<or> tag = kTypeBeginPrepareXID \<or>
                tag = kTypeBeginPersistedPrepareXID \<or> tag = kTypeBeginUnprepareXID then
          Inr (f, input)
        else if tag = kTypeEndPrepareXID then read_slice E ''bad EndPrepare XID'' set_xid f input
        else if tag = kTypeCommitXIDAndTimestamp then
          and_then (read_slice E ''bad commit timestamp'' set_key f input)
            (read_slice E ''bad Commit XID'' set_xid)
        else if tag = kTypeCommitXID then read_slice E ''bad Commit XID'' set_xid f input
        else if tag = kTypeRollbackXID then read_slice E ''bad Rollback XID'' set_xid f input
        else if tag = kTypeColumnFamilyWideColumnEntity then
          and_then (read_cf E ''bad WriteBatch PutEntity'' f input)
            (read_key_value E ''bad WriteBatch PutEntity'')
        else if tag = kTypeWideColumnEntity then
          read_key_value E ''bad WriteBatch PutEntity'' f input
        else if tag = kTypeColumnFamilyValuePreferredSeqno then
          and_then (read_cf E ''bad WriteBatch TimedPut'' f input)
            (\<lambda>f input. and_then (read_slice E ''bad WriteBatch TimedPut'' set_key f input)
               (read_slice E ''bad WriteBatch TimedPut'' (set_timed_value want_time)))
        else if tag = kTypeValuePreferredSeqno then
          and_then (read_slice E ''bad WriteBatch TimedPut'' set_key f input)
            (read_slice E ''bad WriteBatch TimedPut'' (set_timed_value want_time))
        else Inl (unknown_tag tag))"

section \<open>Handlers\<close>

datatype OptionState = kUnknown | kDisabled | kEnabled

record 's Handler =
  h_PutCF :: "'s \<Rightarrow> u32 \<Rightarrow> bytes \<Rightarrow> bytes \<Rightarrow> Status \<times> 's"
  h_TimedPutCF :: "'s \<Rightarrow> u32 \<Rightarrow> bytes \<Rightarrow> bytes \<Rightarrow> u64 \<Rightarrow> Status \<times> 's"
  h_PutEntityCF :: "'s \<Rightarrow> u32 \<Rightarrow> bytes \<Rightarrow> bytes \<Rightarrow> Status \<times> 's"
  h_DeleteCF :: "'s \<Rightarrow> u32 \<Rightarrow> bytes \<Rightarrow> Status \<times> 's"
  h_SingleDeleteCF :: "'s \<Rightarrow> u32 \<Rightarrow> bytes \<Rightarrow> Status \<times> 's"
  h_DeleteRangeCF :: "'s \<Rightarrow> u32 \<Rightarrow> bytes \<Rightarrow> bytes \<Rightarrow> Status \<times> 's"
  h_MergeCF :: "'s \<Rightarrow> u32 \<Rightarrow> bytes \<Rightarrow> bytes \<Rightarrow> Status \<times> 's"
  h_PutBlobIndexCF :: "'s \<Rightarrow> u32 \<Rightarrow> bytes \<Rightarrow> bytes \<Rightarrow> Status \<times> 's"
  h_LogData :: "'s \<Rightarrow> bytes \<Rightarrow> 's"
  h_MarkBeginPrepare :: "'s \<Rightarrow> bool \<Rightarrow> Status \<times> 's"
  h_MarkEndPrepare :: "'s \<Rightarrow> bytes \<Rightarrow> Status \<times> 's"
  h_MarkNoop :: "'s \<Rightarrow> bool \<Rightarrow> Status \<times> 's"
  h_MarkRollback :: "'s \<Rightarrow> bytes \<Rightarrow> Status \<times> 's"
  h_MarkCommit :: "'s \<Rightarrow> bytes \<Rightarrow> Status \<times> 's"
  h_MarkCommitWithTimestamp :: "'s \<Rightarrow> bytes \<Rightarrow> bytes \<Rightarrow> Status \<times> 's"
  h_Continue :: "'s \<Rightarrow> bool \<times> 's"
  h_WriteAfterCommit :: "'s \<Rightarrow> OptionState"
  h_WriteBeforePrepare :: "'s \<Rightarrow> OptionState"

text \<open>
  The default members of \<^verbatim>\<open>WriteBatch::Handler\<close>, with the historic members without a column
  family (\<^verbatim>\<open>Put\<close>, \<^verbatim>\<open>Delete\<close>, \<^verbatim>\<open>SingleDelete\<close>, \<^verbatim>\<open>Merge\<close>) doing nothing.
\<close>

definition Handler_default :: "'s Handler" where
  "Handler_default =
     \<lparr>h_PutCF = (\<lambda>st cf k v. (if cf = 0 then Status_OK
         else Status_InvalidArgument ''non-default column family and PutCF not implemented'', st)),
      h_TimedPutCF = (\<lambda>st cf k v t. (Status_InvalidArgument ''TimedPutCF not implemented'', st)),
      h_PutEntityCF = (\<lambda>st cf k v. (Status_NotSupported ''PutEntityCF not implemented'', st)),
      h_DeleteCF = (\<lambda>st cf k. (if cf = 0 then Status_OK
         else Status_InvalidArgument ''non-default column family and DeleteCF not implemented'', st)),
      h_SingleDeleteCF = (\<lambda>st cf k. (if cf = 0 then Status_OK
         else Status_InvalidArgument
           ''non-default column family and SingleDeleteCF not implemented'', st)),
      h_DeleteRangeCF = (\<lambda>st cf b e. (Status_InvalidArgument ''DeleteRangeCF not implemented'', st)),
      h_MergeCF = (\<lambda>st cf k v. (if cf = 0 then Status_OK
         else Status_InvalidArgument ''non-default column family and MergeCF not implemented'', st)),
      h_PutBlobIndexCF = (\<lambda>st cf k v. (Status_InvalidArgument ''PutBlobIndexCF not implemented'', st)),
      h_LogData = (\<lambda>st blob. st),
      h_MarkBeginPrepare =
        (\<lambda>st u. (Status_InvalidArgument ''MarkBeginPrepare() handler not defined.'', st)),
      h_MarkEndPrepare =
        (\<lambda>st x. (Status_InvalidArgument ''MarkEndPrepare() handler not defined.'', st)),
      h_MarkNoop = (\<lambda>st e. (Status_InvalidArgument ''MarkNoop() handler not defined.'', st)),
      h_MarkRollback =
        (\<lambda>st x. (Status_InvalidArgument ''MarkRollbackPrepare() handler not defined.'', st)),
      h_MarkCommit = (\<lambda>st x. (Status_InvalidArgument ''MarkCommit() handler not defined.'', st)),
      h_MarkCommitWithTimestamp =
        (\<lambda>st x t. (Status_InvalidArgument ''MarkCommitWithTimestamp() handler not defined.'', st)),
      h_Continue = (\<lambda>st. (True, st)),
      h_WriteAfterCommit = (\<lambda>st. kUnknown),
      h_WriteBeforePrepare = (\<lambda>st. kUnknown)\<rparr>"

section \<open>Iterate\<close>

text \<open>
  The switch of the loop: from the fields read, the \<open>empty_batch\<close> flag and the count of
  records found, it gives the next status, flag and count, or the status returned at once.
\<close>

type_synonym 's step_result = "'s \<times> (Status + Status \<times> bool \<times> u32)"

definition counted :: "Status \<times> 's \<Rightarrow> bool \<Rightarrow> u32 \<Rightarrow> 's step_result" where
  "counted r empty_batch found =
     (case r of (s, st) \<Rightarrow> (st, Inr (if ok s then (s, False, found + 1) else (s, empty_batch, found))))"

definition msg_committed_after :: string where
  "msg_committed_after =
     ''WriteCommitted txn tag when write_after_commit_ is disabled (in '' @
     ''WritePrepared/WriteUnprepared mode). If it is not due to '' @
     ''corruption, the WAL must be emptied before changing the WritePolicy.''"

definition msg_committed_before :: string where
  "msg_committed_before =
     ''WriteCommitted txn tag when write_before_prepare_ is enabled '' @
     ''(in WriteUnprepared mode). If it is not due to corruption, the '' @
     ''WAL must be emptied before changing the WritePolicy.''"

definition msg_persisted_after :: string where
  "msg_persisted_after =
     ''WritePrepared/WriteUnprepared txn tag when write_after_commit_ '' @
     ''is enabled (in default WriteCommitted mode). If it is not due '' @
     ''to corruption, the WAL must be emptied before changing the WritePolicy.''"

definition msg_unprepared_after :: string where
  "msg_unprepared_after =
     ''WriteUnprepared txn tag when write_after_commit_ is enabled (in '' @
     ''default WriteCommitted mode). If it is not due to corruption, '' @
     ''the WAL must be emptied before changing the WritePolicy.''"

definition msg_unprepared_before :: string where
  "msg_unprepared_before =
     ''WriteUnprepared txn tag when write_before_prepare_ is disabled '' @
     ''(in WriteCommitted/WritePrepared mode). If it is not due to '' @
     ''corruption, the WAL must be emptied before changing the WritePolicy.''"

definition dispatch :: "'s Handler \<Rightarrow> 's \<Rightarrow> BatchRecord \<Rightarrow> bool \<Rightarrow> u32 \<Rightarrow> 's step_result" where
  "dispatch h st f empty_batch found =
     (let tag = br_tag f; cf = br_cf f; key = br_key f; value = br_value f; xid = br_xid f
      in
        if tag = kTypeColumnFamilyValue \<or> tag = kTypeValue then
          counted (h_PutCF h st cf key value) empty_batch found
        else if tag = kTypeColumnFamilyDeletion \<or> tag = kTypeDeletion then
          counted (h_DeleteCF h st cf key) empty_batch found
        else if tag = kTypeColumnFamilySingleDeletion \<or> tag = kTypeSingleDeletion then
          counted (h_SingleDeleteCF h st cf key) empty_batch found
        else if tag = kTypeColumnFamilyRangeDeletion \<or> tag = kTypeRangeDeletion then
          counted (h_DeleteRangeCF h st cf key value) empty_batch found
        else if tag = kTypeColumnFamilyMerge \<or> tag = kTypeMerge then
          counted (h_MergeCF h st cf key value) empty_batch found
        else if tag = kTypeColumnFamilyBlobIndex \<or> tag = kTypeBlobIndex then
          (case h_PutBlobIndexCF h st cf key value of
             (s, st) \<Rightarrow> (st, Inr (s, empty_batch, if ok s then found + 1 else found)))
        else if tag = kTypeLogData then
          (h_LogData h st (br_blob f), Inr (Status_OK, False, found))
        else if tag = kTypeBeginPrepareXID then
          (case h_MarkBeginPrepare h st False of (s, st) \<Rightarrow>
             let s = (if h_WriteAfterCommit h st = kDisabled
                      then Status_NotSupported msg_committed_after else s);
                 s = (if h_WriteBeforePrepare h st = kEnabled
                      then Status_NotSupported msg_committed_before else s)
             in (st, Inr (s, False, found)))
        else if tag = kTypeBeginPersistedPrepareXID then
          (case h_MarkBeginPrepare h st False of (s, st) \<Rightarrow>
             let s = (if h_WriteAfterCommit h st = kEnabled
                      then Status_NotSupported msg_persisted_after else s)
             in (st, Inr (s, False, found)))
        else if tag = kTypeBeginUnprepareXID then
          (case h_MarkBeginPrepare h st True of (s, st) \<Rightarrow>
             let s = (if h_WriteAfterCommit h st = kEnabled
                      then Status_NotSupported msg_unprepared_after else s);
                 s = (if h_WriteBeforePrepare h st = kDisabled
                      then Status_NotSupported msg_unprepared_before else s)
             in (st, Inr (s, False, found)))
        else if tag = kTypeEndPrepareXID then
          (case h_MarkEndPrepare h st xid of (s, st) \<Rightarrow> (st, Inr (s, True, found)))
        else if tag = kTypeCommitXID then
          (case h_MarkCommit h st xid of (s, st) \<Rightarrow> (st, Inr (s, True, found)))
        else if tag = kTypeCommitXIDAndTimestamp then
          (case h_MarkCommitWithTimestamp h st xid key of (s, st) \<Rightarrow>
             (st, Inr (s, if ok s then True else empty_batch, found)))
        else if tag = kTypeRollbackXID then
          (case h_MarkRollback h st xid of (s, st) \<Rightarrow> (st, Inr (s, True, found)))
        else if tag = kTypeNoop then
          (case h_MarkNoop h st empty_batch of (s, st) \<Rightarrow> (st, Inr (s, True, found)))
        else if tag = kTypeWideColumnEntity \<or> tag = kTypeColumnFamilyWideColumnEntity then
          counted (h_PutEntityCF h st cf key value) empty_batch found
        else if tag = kTypeValuePreferredSeqno \<or> tag = kTypeColumnFamilyValuePreferredSeqno then
          counted (h_TimedPutCF h st cf key value (br_write_unix_time f)) empty_batch found
        else (st, Inl (unknown_tag tag)))"

text \<open>
  The loop. It returns the handler's state with either the status the function returns from
  inside the loop, or the status, the result of the last \<^verbatim>\<open>Continue\<close> and the count of records
  when the loop is left. A record is at least its tag, and a second consecutive
  \<^verbatim>\<open>TryAgain\<close> ends the loop, so it terminates for every input, every varint reader and every
  handler.
\<close>

definition msg_two_try_again :: string where
  "msg_two_try_again =
     ''two consecutive TryAgain in WriteBatch handler; this is either a '' @
     ''software bug or data corruption.''"

definition shrinks :: "nat \<Rightarrow> 'a read_result \<Rightarrow> bool" where
  "shrinks n r \<longleftrightarrow> (\<forall>f i. r = Inr (f, i) \<longrightarrow> length i \<le> n)"

lemma shrinks_reads [simp]:
  "shrinks (length input) (read_cf E msg f input)"
  "shrinks (length input) (read_slice E msg upd f input)"
  "shrinks n (Inl s)" "shrinks n (Inr (x, i)) \<longleftrightarrow> length i \<le> n"
  by (auto simp: shrinks_def read_cf_def read_slice_def GetVarint32_def GetLengthPrefixedSlice_def
      split: option.splits if_splits)

lemma shrinks_and_then:
  assumes "shrinks n r" and "\<And>f i. shrinks (length i) (g f i)"
  shows "shrinks n (and_then r g)"
proof (cases r)
  case (Inr p)
  obtain f i where p: "p = (f, i)" by (cases p)
  show ?thesis using assms(1) assms(2) [where f = f and i = i] unfolding Inr p
    by (auto simp: shrinks_def intro: le_trans)
qed simp

lemma shrinks_key_value [simp]: "shrinks (length input) (read_key_value E msg f input)"
  unfolding read_key_value_def by (rule shrinks_and_then) simp_all

lemma ReadRecord_shrinks: "shrinks (length (drop 1 input)) (ReadRecordFromWriteBatch E w f input)"
proof -
  define inp where "inp = drop 1 input"
  show ?thesis unfolding ReadRecordFromWriteBatch_def Let_def inp_def [symmetric]
    by (simp add: shrinks_and_then)
qed

lemma ReadRecord_length:
  assumes "ReadRecordFromWriteBatch E w f input = Inr (f', input')" and "input \<noteq> []"
  shows "length input' < length input"
  using ReadRecord_shrinks [of input E w f] assms by (cases input) (auto simp: shrinks_def)

function Iterate_loop ::
  "varint_ext \<Rightarrow> 's Handler \<Rightarrow> 's \<Rightarrow> Status \<Rightarrow> bytes \<Rightarrow> BatchRecord \<Rightarrow> bool \<Rightarrow> u32 \<Rightarrow> bool \<Rightarrow>
   's \<times> (Status + Status \<times> bool \<times> u32)" where
  "Iterate_loop E h st s input f empty_batch found last_was_try_again =
     (if (ok s \<and> input \<noteq> []) \<or> IsTryAgain s then
        (case h_Continue h st of (handler_continue, st) \<Rightarrow>
           if \<not> handler_continue then (st, Inr (s, False, found))
           else if \<not> IsTryAgain s then
             (case ReadRecordFromWriteBatch E True (f\<lparr>br_tag := 0, br_cf := 0\<rparr>) input of
                Inl s \<Rightarrow> (st, Inl s)
              | Inr (f, input) \<Rightarrow>
                  (case dispatch h st f empty_batch found of
                     (st, Inl s) \<Rightarrow> (st, Inl s)
                   | (st, Inr (s, empty_batch, found)) \<Rightarrow>
                       Iterate_loop E h st s input f empty_batch found False))
           else if last_was_try_again then (st, Inl (Status_Corruption msg_two_try_again []))
           else
             (case dispatch h st f empty_batch found of
                (st, Inl s) \<Rightarrow> (st, Inl s)
              | (st, Inr (s, empty_batch, found)) \<Rightarrow>
                  Iterate_loop E h st s input f empty_batch found True))
      else (st, Inr (s, True, found)))"
  by pat_completeness auto
termination
proof (relation "measure (\<lambda>(E, h, st, s, input, f, eb, found, last).
    2 * length input + (if last then 0 else 1))", goal_cases)
  case 1
  show ?case by simp
next
  case (2 E h st s input f eb found last c st1 r f1 input1 d st2 x s2 y eb2 found2)
  then show ?case using ReadRecord_length by (force simp: ok_not_TryAgain)
next
  case (3 E h st s input f eb found last c st1 d st2 x s2 y eb2 found2)
  then show ?case by simp
qed

declare Iterate_loop.simps [simp del]

definition WBI_Iterate ::
  "varint_ext \<Rightarrow> WriteBatch \<Rightarrow> 's Handler \<Rightarrow> 's \<Rightarrow> nat \<Rightarrow> nat \<Rightarrow> Status \<times> 's" where
  "WBI_Iterate E wb h st begin_pos end_pos =
     (if length (wb_rep wb) < begin_pos \<or> length (wb_rep wb) < end_pos \<or> end_pos < begin_pos
      then (Status_Corruption ''Invalid start/end bounds for Iterate'' [], st)
      else
        let input = take (end_pos - begin_pos) (drop begin_pos (wb_rep wb));
            whole_batch = (begin_pos = kHeader \<and> end_pos = length (wb_rep wb))
        in case Iterate_loop E h st Status_OK input BatchRecord_init True 0 False of
             (st, Inl s) \<Rightarrow> (s, st)
           | (st, Inr (s, handler_continue, found)) \<Rightarrow>
               if \<not> ok s then (s, st)
               else if handler_continue \<and> whole_batch \<and> found \<noteq> Count wb
               then (Status_Corruption ''WriteBatch has wrong count'' [], st)
               else (Status_OK, st))"

definition Iterate :: "varint_ext \<Rightarrow> WriteBatch \<Rightarrow> 's Handler \<Rightarrow> 's \<Rightarrow> Status \<times> 's" where
  "Iterate E wb h st =
     (if length (wb_rep wb) < kHeader
      then (Status_Corruption ''malformed WriteBatch (too small)'' [], st)
      else WBI_Iterate E wb h st kHeader (length (wb_rep wb)))"

subsection \<open>The assertions of Iterate\<close>

text \<open>
  The definitions above give what \<^verbatim>\<open>Iterate\<close> does when assertions are compiled out. Whether the assertions
  hold is a predicate of its own, with the same recursion: the content flags cover the
  record, the handler accepts transaction and no-op markers, a commit timestamp is not empty, and the handler does
  not answer \<^verbatim>\<open>TryAgain\<close> twice in a row. A build with assertions stops where the predicate fails.
\<close>

definition flag_assert :: "u32 \<Rightarrow> u32 \<Rightarrow> bool" where
  "flag_assert content_flags flag \<longleftrightarrow> content_flags AND (DEFERRED OR flag) \<noteq> 0"

definition dispatch_asserts :: "u32 \<Rightarrow> 's Handler \<Rightarrow> 's \<Rightarrow> BatchRecord \<Rightarrow> bool \<Rightarrow> bool" where
  "dispatch_asserts content_flags h st f empty_batch =
     (let tag = br_tag f; key = br_key f; xid = br_xid f
      in
        if tag = kTypeColumnFamilyValue \<or> tag = kTypeValue then flag_assert content_flags HAS_PUT
        else if tag = kTypeColumnFamilyDeletion \<or> tag = kTypeDeletion then
          flag_assert content_flags HAS_DELETE
        else if tag = kTypeColumnFamilySingleDeletion \<or> tag = kTypeSingleDeletion then
          flag_assert content_flags HAS_SINGLE_DELETE
        else if tag = kTypeColumnFamilyRangeDeletion \<or> tag = kTypeRangeDeletion then
          flag_assert content_flags HAS_DELETE_RANGE
        else if tag = kTypeColumnFamilyMerge \<or> tag = kTypeMerge then
          flag_assert content_flags HAS_MERGE
        else if tag = kTypeColumnFamilyBlobIndex \<or> tag = kTypeBlobIndex then
          flag_assert content_flags HAS_BLOB_INDEX
        else if tag = kTypeBeginPrepareXID \<or> tag = kTypeBeginPersistedPrepareXID then
          flag_assert content_flags HAS_BEGIN_PREPARE \<and> ok (fst (h_MarkBeginPrepare h st False))
        else if tag = kTypeBeginUnprepareXID then
          flag_assert content_flags HAS_BEGIN_UNPREPARE \<and> ok (fst (h_MarkBeginPrepare h st True))
        else if tag = kTypeEndPrepareXID then
          flag_assert content_flags HAS_END_PREPARE \<and> ok (fst (h_MarkEndPrepare h st xid))
        else if tag = kTypeCommitXID then
          flag_assert content_flags HAS_COMMIT \<and> ok (fst (h_MarkCommit h st xid))
        else if tag = kTypeCommitXIDAndTimestamp then
          flag_assert content_flags HAS_COMMIT \<and> key \<noteq> []
        else if tag = kTypeRollbackXID then
          flag_assert content_flags HAS_ROLLBACK \<and> ok (fst (h_MarkRollback h st xid))
        else if tag = kTypeNoop then ok (fst (h_MarkNoop h st empty_batch))
        else if tag = kTypeWideColumnEntity \<or> tag = kTypeColumnFamilyWideColumnEntity then
          flag_assert content_flags HAS_PUT_ENTITY
        else if tag = kTypeValuePreferredSeqno \<or> tag = kTypeColumnFamilyValuePreferredSeqno then
          flag_assert content_flags HAS_TIMED_PUT
        else True)"

function Iterate_loop_asserts ::
  "varint_ext \<Rightarrow> u32 \<Rightarrow> 's Handler \<Rightarrow> 's \<Rightarrow> Status \<Rightarrow> bytes \<Rightarrow> BatchRecord \<Rightarrow> bool \<Rightarrow> u32 \<Rightarrow> bool \<Rightarrow> bool" where
  "Iterate_loop_asserts E content_flags h st s input f empty_batch found last_was_try_again =
     (if (ok s \<and> input \<noteq> []) \<or> IsTryAgain s then
        (case h_Continue h st of (handler_continue, st) \<Rightarrow>
           if \<not> handler_continue then True
           else if \<not> IsTryAgain s then
             (case ReadRecordFromWriteBatch E True (f\<lparr>br_tag := 0, br_cf := 0\<rparr>) input of
                Inl s \<Rightarrow> True
              | Inr (f, input) \<Rightarrow>
                  dispatch_asserts content_flags h st f empty_batch \<and>
                  (case dispatch h st f empty_batch found of
                     (st, Inl s) \<Rightarrow> True
                   | (st, Inr (s, empty_batch, found)) \<Rightarrow>
                       Iterate_loop_asserts E content_flags h st s input f empty_batch found False))
           else if last_was_try_again then False
           else
             dispatch_asserts content_flags h st f empty_batch \<and>
             (case dispatch h st f empty_batch found of
                (st, Inl s) \<Rightarrow> True
              | (st, Inr (s, empty_batch, found)) \<Rightarrow>
                  Iterate_loop_asserts E content_flags h st s input f empty_batch found True))
      else True)"
  by pat_completeness auto
termination
proof (relation "measure (\<lambda>(E, fl, h, st, s, input, f, eb, found, last).
    2 * length input + (if last then 0 else 1))", goal_cases)
  case 1
  show ?case by simp
next
  case (2 E fl h st s input f eb found last c st1 r f1 input1 d st2 x s2 y eb2 found2)
  then show ?case using ReadRecord_length by (force simp: ok_not_TryAgain)
next
  case (3 E fl h st s input f eb found last c st1 d st2 x s2 y eb2 found2)
  then show ?case by simp
qed

declare Iterate_loop_asserts.simps [simp del]

definition Iterate_asserts :: "varint_ext \<Rightarrow> WriteBatch \<Rightarrow> 's Handler \<Rightarrow> 's \<Rightarrow> bool" where
  "Iterate_asserts E wb h st \<longleftrightarrow>
     (kHeader \<le> length (wb_rep wb) \<longrightarrow>
      Iterate_loop_asserts E (wb_content_flags wb) h st Status_OK (drop kHeader (wb_rep wb)) BatchRecord_init True 0 False)"

section \<open>Content flags\<close>

definition or_state :: "u32 \<Rightarrow> u32 \<Rightarrow> Status \<times> u32" where
  "or_state flag content_flags = (Status_OK, content_flags OR flag)"

text \<open>The classifier overrides every member but \<^verbatim>\<open>MarkNoop\<close> and the ones that return no status.\<close>

definition BatchContentClassifier :: "u32 Handler" where
  "BatchContentClassifier = Handler_default
     \<lparr>h_PutCF := (\<lambda>st cf k v. or_state HAS_PUT st),
      h_TimedPutCF := (\<lambda>st cf k v t. or_state HAS_TIMED_PUT st),
      h_PutEntityCF := (\<lambda>st cf k v. or_state HAS_PUT_ENTITY st),
      h_DeleteCF := (\<lambda>st cf k. or_state HAS_DELETE st),
      h_SingleDeleteCF := (\<lambda>st cf k. or_state HAS_SINGLE_DELETE st),
      h_DeleteRangeCF := (\<lambda>st cf b e. or_state HAS_DELETE_RANGE st),
      h_MergeCF := (\<lambda>st cf k v. or_state HAS_MERGE st),
      h_PutBlobIndexCF := (\<lambda>st cf k v. or_state HAS_BLOB_INDEX st),
      h_MarkBeginPrepare := (\<lambda>st unprepare.
        let st = st OR HAS_BEGIN_PREPARE
        in (Status_OK, if unprepare then st OR HAS_BEGIN_UNPREPARE else st)),
      h_MarkEndPrepare := (\<lambda>st x. or_state HAS_END_PREPARE st),
      h_MarkCommit := (\<lambda>st x. or_state HAS_COMMIT st),
      h_MarkCommitWithTimestamp := (\<lambda>st x t. or_state HAS_COMMIT st),
      h_MarkRollback := (\<lambda>st x. or_state HAS_ROLLBACK st)\<rparr>"

definition ComputeContentFlags :: "varint_ext \<Rightarrow> WriteBatch \<Rightarrow> u32 \<times> WriteBatch" where
  "ComputeContentFlags E b =
     (let rv = wb_content_flags b
      in if rv AND DEFERRED \<noteq> 0 then
           let (s, rv) = Iterate E b BatchContentClassifier 0
           in (rv, b\<lparr>wb_content_flags := rv\<rparr>)
         else (rv, b))"

definition HasPut :: "varint_ext \<Rightarrow> WriteBatch \<Rightarrow> bool" where
  "HasPut E b \<longleftrightarrow> fst (ComputeContentFlags E b) AND HAS_PUT \<noteq> 0"

definition HasTimedPut :: "varint_ext \<Rightarrow> WriteBatch \<Rightarrow> bool" where
  "HasTimedPut E b \<longleftrightarrow> fst (ComputeContentFlags E b) AND HAS_TIMED_PUT \<noteq> 0"

definition HasPutEntity :: "varint_ext \<Rightarrow> WriteBatch \<Rightarrow> bool" where
  "HasPutEntity E b \<longleftrightarrow> fst (ComputeContentFlags E b) AND HAS_PUT_ENTITY \<noteq> 0"

definition HasDelete :: "varint_ext \<Rightarrow> WriteBatch \<Rightarrow> bool" where
  "HasDelete E b \<longleftrightarrow> fst (ComputeContentFlags E b) AND HAS_DELETE \<noteq> 0"

definition HasSingleDelete :: "varint_ext \<Rightarrow> WriteBatch \<Rightarrow> bool" where
  "HasSingleDelete E b \<longleftrightarrow> fst (ComputeContentFlags E b) AND HAS_SINGLE_DELETE \<noteq> 0"

definition HasDeleteRange :: "varint_ext \<Rightarrow> WriteBatch \<Rightarrow> bool" where
  "HasDeleteRange E b \<longleftrightarrow> fst (ComputeContentFlags E b) AND HAS_DELETE_RANGE \<noteq> 0"

definition HasMerge :: "varint_ext \<Rightarrow> WriteBatch \<Rightarrow> bool" where
  "HasMerge E b \<longleftrightarrow> fst (ComputeContentFlags E b) AND HAS_MERGE \<noteq> 0"

definition HasBeginPrepare :: "varint_ext \<Rightarrow> WriteBatch \<Rightarrow> bool" where
  "HasBeginPrepare E b \<longleftrightarrow> fst (ComputeContentFlags E b) AND HAS_BEGIN_PREPARE \<noteq> 0"

definition HasEndPrepare :: "varint_ext \<Rightarrow> WriteBatch \<Rightarrow> bool" where
  "HasEndPrepare E b \<longleftrightarrow> fst (ComputeContentFlags E b) AND HAS_END_PREPARE \<noteq> 0"

definition HasCommit :: "varint_ext \<Rightarrow> WriteBatch \<Rightarrow> bool" where
  "HasCommit E b \<longleftrightarrow> fst (ComputeContentFlags E b) AND HAS_COMMIT \<noteq> 0"

definition HasRollback :: "varint_ext \<Rightarrow> WriteBatch \<Rightarrow> bool" where
  "HasRollback E b \<longleftrightarrow> fst (ComputeContentFlags E b) AND HAS_ROLLBACK \<noteq> 0"

section \<open>Protection information\<close>

definition UpdateProtInfo ::
  "hash64 \<Rightarrow> ProtectionInfoKVOC list \<Rightarrow> u32 \<Rightarrow> bytes \<Rightarrow> bytes \<Rightarrow> ValueType \<Rightarrow>
   Status \<times> ProtectionInfoKVOC list" where
  "UpdateProtInfo H entries cf key val op_type =
     (Status_OK, entries @ [ProtectC H (ProtectKVO H (ProtectionInfo 0) key val op_type) cf])"

definition UpdateProtInfo_parts ::
  "hash64 \<Rightarrow> ProtectionInfoKVOC list \<Rightarrow> u32 \<Rightarrow> bytes \<Rightarrow> bytes list \<Rightarrow> ValueType \<Rightarrow>
   Status \<times> ProtectionInfoKVOC list" where
  "UpdateProtInfo_parts H entries cf key val op_type =
     (Status_OK, entries @ [ProtectC H (ProtectKVO_parts H (ProtectionInfo 0) [key] val op_type) cf])"

definition ProtectionInfoUpdater :: "hash64 \<Rightarrow> ProtectionInfoKVOC list Handler" where
  "ProtectionInfoUpdater H = Handler_default
     \<lparr>h_PutCF := (\<lambda>st cf k v. UpdateProtInfo H st cf k v kTypeValue),
      h_TimedPutCF := (\<lambda>st cf k v t.
        UpdateProtInfo_parts H st cf k [v, PutFixed64 [] t] kTypeValuePreferredSeqno),
      h_PutEntityCF := (\<lambda>st cf k v. UpdateProtInfo H st cf k v kTypeWideColumnEntity),
      h_DeleteCF := (\<lambda>st cf k. UpdateProtInfo H st cf k [] kTypeDeletion),
      h_SingleDeleteCF := (\<lambda>st cf k. UpdateProtInfo H st cf k [] kTypeSingleDeletion),
      h_DeleteRangeCF := (\<lambda>st cf b e. UpdateProtInfo H st cf b e kTypeRangeDeletion),
      h_MergeCF := (\<lambda>st cf k v. UpdateProtInfo H st cf k v kTypeMerge),
      h_PutBlobIndexCF := (\<lambda>st cf k v. UpdateProtInfo H st cf k v kTypeBlobIndex),
      h_MarkBeginPrepare := (\<lambda>st u. (Status_OK, st)),
      h_MarkEndPrepare := (\<lambda>st x. (Status_OK, st)),
      h_MarkCommit := (\<lambda>st x. (Status_OK, st)),
      h_MarkCommitWithTimestamp := (\<lambda>st x t. (Status_OK, st)),
      h_MarkRollback := (\<lambda>st x. (Status_OK, st)),
      h_MarkNoop := (\<lambda>st e. (Status_OK, st))\<rparr>"

text \<open>
  The optional checksum is compared with \<^verbatim>\<open>XXH3_64bits\<close> of the whole batch, a parameter. The
  entries the handler collects belong to the batch, so they stay in it whatever the status is.
\<close>

definition UpdateProtectionInfo ::
  "hash64 \<Rightarrow> (bytes \<Rightarrow> u64) \<Rightarrow> varint_ext \<Rightarrow> WriteBatch \<Rightarrow> nat \<Rightarrow> u64 option \<Rightarrow> Status \<times> WriteBatch" where
  "UpdateProtectionInfo H XXH3_64bits E wb bytes_per_key checksum =
     (if bytes_per_key = 0 then (Status_OK, wb\<lparr>wb_prot_info := None\<rparr>)
      else if bytes_per_key = 8 then
        (if wb_prot_info wb = None then
           let (s, entries) = Iterate E wb (ProtectionInfoUpdater H) [];
               wb = wb\<lparr>wb_prot_info := Some entries\<rparr>
           in if ok s \<and> (case checksum of None \<Rightarrow> False | Some c \<Rightarrow> XXH3_64bits (wb_rep wb) \<noteq> c)
              then (Status_Corruption ''Write batch content corrupted.'' [], wb)
              else (s, wb)
         else (Status_OK, wb))
      else (Status_NotSupported ''WriteBatch protection info must be zero or eight bytes/key'', wb))"

text \<open>The tag the checksum of a record was computed with, or \<^const>\<open>None\<close> for an unprotected record.\<close>

definition checksum_tag :: "ValueType \<Rightarrow> Status + ValueType option" where
  "checksum_tag tag =
     (if tag = kTypeColumnFamilyValue \<or> tag = kTypeValue then Inr (Some kTypeValue)
      else if tag = kTypeColumnFamilyDeletion \<or> tag = kTypeDeletion then Inr (Some kTypeDeletion)
      else if tag = kTypeColumnFamilySingleDeletion \<or> tag = kTypeSingleDeletion
      then Inr (Some kTypeSingleDeletion)
      else if tag = kTypeColumnFamilyRangeDeletion \<or> tag = kTypeRangeDeletion
      then Inr (Some kTypeRangeDeletion)
      else if tag = kTypeColumnFamilyMerge \<or> tag = kTypeMerge then Inr (Some kTypeMerge)
      else if tag = kTypeColumnFamilyBlobIndex \<or> tag = kTypeBlobIndex then Inr (Some kTypeBlobIndex)
      else if tag \<in> {kTypeLogData, kTypeBeginPrepareXID, kTypeEndPrepareXID, kTypeCommitXID,
                     kTypeRollbackXID, kTypeNoop, kTypeBeginPersistedPrepareXID,
                     kTypeBeginUnprepareXID, kTypeDeletionWithTimestamp,
                     kTypeCommitXIDAndTimestamp} then Inr None
      else if tag = kTypeColumnFamilyWideColumnEntity \<or> tag = kTypeWideColumnEntity
      then Inr (Some kTypeWideColumnEntity)
      else if tag = kTypeColumnFamilyValuePreferredSeqno \<or> tag = kTypeValuePreferredSeqno
      then Inr (Some kTypeValuePreferredSeqno)
      else Inl (unknown_tag tag))"

text \<open>
  The loop of \<^verbatim>\<open>VerifyChecksum\<close>: the entries from \<^verbatim>\<open>prot_info_idx\<close> on are the list argument.
  It returns the status of an early return, or the final index.
\<close>

function VerifyChecksum_loop ::
  "hash64 \<Rightarrow> varint_ext \<Rightarrow> bytes \<Rightarrow> BatchRecord \<Rightarrow> ProtectionInfoKVOC list \<Rightarrow> nat \<Rightarrow> Status + nat" where
  "VerifyChecksum_loop H E input f entries prot_info_idx =
     (if input \<noteq> [] \<and> prot_info_idx < length entries then
        (case ReadRecordFromWriteBatch E False (f\<lparr>br_key := [], br_value := [], br_cf := 0\<rparr>) input of
           Inl s \<Rightarrow> Inl s
         | Inr (f, input) \<Rightarrow>
             (case checksum_tag (br_tag f) of
                Inl s \<Rightarrow> Inl s
              | Inr None \<Rightarrow> VerifyChecksum_loop H E input f entries prot_info_idx
              | Inr (Some tag) \<Rightarrow>
                  let s = GetStatus (StripKVO H (StripC H (entries ! prot_info_idx) (br_cf f))
                            (br_key f) (br_value f) tag)
                  in if \<not> ok s then Inl s
                     else VerifyChecksum_loop H E input f entries (prot_info_idx + 1)))
      else Inr prot_info_idx)"
  by pat_completeness auto
termination
  by (relation "measure (\<lambda>(H, E, input, f, entries, i). length input)")
    (auto dest: ReadRecord_length)

declare VerifyChecksum_loop.simps [simp del]

definition VerifyChecksum :: "hash64 \<Rightarrow> varint_ext \<Rightarrow> WriteBatch \<Rightarrow> Status" where
  "VerifyChecksum H E b =
     (case wb_prot_info b of
        None \<Rightarrow> Status_OK
      | Some entries \<Rightarrow>
          (case VerifyChecksum_loop H E (drop kHeader (wb_rep b)) BatchRecord_init entries 0 of
             Inl s \<Rightarrow> s
           | Inr prot_info_idx \<Rightarrow>
               if prot_info_idx \<noteq> unat (Count b)
               then Status_Corruption ''WriteBatch has wrong count'' []
               else Status_OK))"

end
