(* ===== verification/Write_Batch_Spec.thy ===== *)
theory Write_Batch_Spec
  imports Write_Batch_Iter
begin

text \<open>
  What a write batch promises, stated on the list of records it holds, and that the byte-level
  routines implement it. A record knows its encoding, the handler call it stands for, its
  content flags and its protection entry. The builders append one record, \<^verbatim>\<open>Iterate\<close> delivers
  the records in order, and the other operations are functions of the list.
\<close>

section \<open>Records\<close>

datatype BRec =
    RPut u32 bytes bytes
  | RTimedPut u32 bytes bytes u64
  | RPutEntity u32 bytes bytes
  | RDelete u32 bytes
  | RSingleDelete u32 bytes
  | RDeleteRange u32 bytes bytes
  | RMerge u32 bytes bytes
  | RBlobIndex u32 bytes bytes
  | RLogData bytes
  | RBeginPrepare
  | RBeginPersistedPrepare
  | RBeginUnprepare
  | REndPrepare bytes
  | RCommit bytes
  | RCommitTs bytes bytes
  | RRollback bytes
  | RNoop

definition enc_slice :: "bytes \<Rightarrow> bytes" where
  "enc_slice s = EncodeVarint32 (of_nat (length s)) @ s"

definition enc_tag :: "u32 \<Rightarrow> ValueType \<Rightarrow> ValueType \<Rightarrow> bytes" where
  "enc_tag cf t cf_t = (if cf = 0 then [t] else cf_t # EncodeVarint32 cf)"

fun enc_rec :: "BRec \<Rightarrow> bytes" where
  "enc_rec (RPut cf k v) = enc_tag cf kTypeValue kTypeColumnFamilyValue @ enc_slice k @ enc_slice v"
| "enc_rec (RTimedPut cf k v t) =
     enc_tag cf kTypeValuePreferredSeqno kTypeColumnFamilyValuePreferredSeqno @ enc_slice k @
     enc_slice (v @ EncodeFixed64 t)"
| "enc_rec (RPutEntity cf k v) =
     enc_tag cf kTypeWideColumnEntity kTypeColumnFamilyWideColumnEntity @ enc_slice k @ enc_slice v"
| "enc_rec (RDelete cf k) = enc_tag cf kTypeDeletion kTypeColumnFamilyDeletion @ enc_slice k"
| "enc_rec (RSingleDelete cf k) =
     enc_tag cf kTypeSingleDeletion kTypeColumnFamilySingleDeletion @ enc_slice k"
| "enc_rec (RDeleteRange cf k v) =
     enc_tag cf kTypeRangeDeletion kTypeColumnFamilyRangeDeletion @ enc_slice k @ enc_slice v"
| "enc_rec (RMerge cf k v) = enc_tag cf kTypeMerge kTypeColumnFamilyMerge @ enc_slice k @ enc_slice v"
| "enc_rec (RBlobIndex cf k v) =
     enc_tag cf kTypeBlobIndex kTypeColumnFamilyBlobIndex @ enc_slice k @ enc_slice v"
| "enc_rec (RLogData b) = kTypeLogData # enc_slice b"
| "enc_rec RBeginPrepare = [kTypeBeginPrepareXID]"
| "enc_rec RBeginPersistedPrepare = [kTypeBeginPersistedPrepareXID]"
| "enc_rec RBeginUnprepare = [kTypeBeginUnprepareXID]"
| "enc_rec (REndPrepare x) = kTypeEndPrepareXID # enc_slice x"
| "enc_rec (RCommit x) = kTypeCommitXID # enc_slice x"
| "enc_rec (RCommitTs x ts) = kTypeCommitXIDAndTimestamp # enc_slice ts @ enc_slice x"
| "enc_rec (RRollback x) = kTypeRollbackXID # enc_slice x"
| "enc_rec RNoop = [kTypeNoop]"

text \<open>Every slice of the record fits its 32-bit length prefix.\<close>

definition fits :: "bytes \<Rightarrow> bool" where
  "fits s \<longleftrightarrow> length s < 2 ^ 32"

fun rec_ok :: "BRec \<Rightarrow> bool" where
  "rec_ok (RPut cf k v) \<longleftrightarrow> fits k \<and> fits v"
| "rec_ok (RTimedPut cf k v t) \<longleftrightarrow> fits k \<and> length v + 8 < 2 ^ 32"
| "rec_ok (RPutEntity cf k v) \<longleftrightarrow> fits k \<and> fits v"
| "rec_ok (RDelete cf k) \<longleftrightarrow> fits k"
| "rec_ok (RSingleDelete cf k) \<longleftrightarrow> fits k"
| "rec_ok (RDeleteRange cf k v) \<longleftrightarrow> fits k \<and> fits v"
| "rec_ok (RMerge cf k v) \<longleftrightarrow> fits k \<and> fits v"
| "rec_ok (RBlobIndex cf k v) \<longleftrightarrow> fits k \<and> fits v"
| "rec_ok (RLogData b) \<longleftrightarrow> fits b"
| "rec_ok (REndPrepare x) \<longleftrightarrow> fits x"
| "rec_ok (RCommit x) \<longleftrightarrow> fits x"
| "rec_ok (RCommitTs x ts) \<longleftrightarrow> fits x \<and> fits ts"
| "rec_ok (RRollback x) \<longleftrightarrow> fits x"
| "rec_ok _ \<longleftrightarrow> True"

text \<open>The records that count as updates.\<close>

fun counts :: "BRec \<Rightarrow> bool" where
  "counts (RPut cf k v) = True"
| "counts (RTimedPut cf k v t) = True"
| "counts (RPutEntity cf k v) = True"
| "counts (RDelete cf k) = True"
| "counts (RSingleDelete cf k) = True"
| "counts (RDeleteRange cf k v) = True"
| "counts (RMerge cf k v) = True"
| "counts (RBlobIndex cf k v) = True"
| "counts _ = False"

definition n_counted :: "BRec list \<Rightarrow> nat" where
  "n_counted rs = length (filter counts rs)"

fun rec_flags :: "BRec \<Rightarrow> u32" where
  "rec_flags (RPut cf k v) = HAS_PUT"
| "rec_flags (RTimedPut cf k v t) = HAS_TIMED_PUT"
| "rec_flags (RPutEntity cf k v) = HAS_PUT_ENTITY"
| "rec_flags (RDelete cf k) = HAS_DELETE"
| "rec_flags (RSingleDelete cf k) = HAS_SINGLE_DELETE"
| "rec_flags (RDeleteRange cf k v) = HAS_DELETE_RANGE"
| "rec_flags (RMerge cf k v) = HAS_MERGE"
| "rec_flags (RBlobIndex cf k v) = HAS_BLOB_INDEX"
| "rec_flags (RLogData b) = 0"
| "rec_flags RBeginPrepare = HAS_BEGIN_PREPARE"
| "rec_flags RBeginPersistedPrepare = HAS_BEGIN_PREPARE"
| "rec_flags RBeginUnprepare = HAS_BEGIN_PREPARE OR HAS_BEGIN_UNPREPARE"
| "rec_flags (REndPrepare x) = HAS_END_PREPARE"
| "rec_flags (RCommit x) = HAS_COMMIT"
| "rec_flags (RCommitTs x ts) = HAS_COMMIT"
| "rec_flags (RRollback x) = HAS_ROLLBACK"
| "rec_flags RNoop = 0"

definition flags_of :: "BRec list \<Rightarrow> u32" where
  "flags_of rs = foldl (\<lambda>a r. a OR rec_flags r) 0 rs"

definition protect :: "hash64 \<Rightarrow> u32 \<Rightarrow> bytes \<Rightarrow> bytes \<Rightarrow> ValueType \<Rightarrow> ProtectionInfoKVOC" where
  "protect H cf k v t = ProtectC H (ProtectKVO H (ProtectionInfo 0) k v t) cf"

fun rec_prots :: "hash64 \<Rightarrow> BRec \<Rightarrow> ProtectionInfoKVOC list" where
  "rec_prots H (RPut cf k v) = [protect H cf k v kTypeValue]"
| "rec_prots H (RTimedPut cf k v t) = [protect H cf k (v @ EncodeFixed64 t) kTypeValuePreferredSeqno]"
| "rec_prots H (RPutEntity cf k v) = [protect H cf k v kTypeWideColumnEntity]"
| "rec_prots H (RDelete cf k) = [protect H cf k [] kTypeDeletion]"
| "rec_prots H (RSingleDelete cf k) = [protect H cf k [] kTypeSingleDeletion]"
| "rec_prots H (RDeleteRange cf k v) = [protect H cf k v kTypeRangeDeletion]"
| "rec_prots H (RMerge cf k v) = [protect H cf k v kTypeMerge]"
| "rec_prots H (RBlobIndex cf k v) = [protect H cf k v kTypeBlobIndex]"
| "rec_prots H _ = []"

definition prots_of :: "hash64 \<Rightarrow> BRec list \<Rightarrow> ProtectionInfoKVOC list" where
  "prots_of H rs = concat (map (rec_prots H) rs)"

text \<open>The bytes of a batch with a sequence number and a list of records.\<close>

definition enc_batch :: "SequenceNumber \<Rightarrow> BRec list \<Rightarrow> bytes" where
  "enc_batch seq rs =
     EncodeFixed64 seq @ EncodeFixed32 (of_nat (n_counted rs)) @ concat (map enc_rec rs)"

section \<open>Delivering records to a handler\<close>

fun deliver :: "'s Handler \<Rightarrow> 's \<Rightarrow> BRec \<Rightarrow> bool \<Rightarrow> Status \<times> 's" where
  "deliver h st (RPut cf k v) eb = h_PutCF h st cf k v"
| "deliver h st (RTimedPut cf k v t) eb = h_TimedPutCF h st cf k v t"
| "deliver h st (RPutEntity cf k v) eb = h_PutEntityCF h st cf k v"
| "deliver h st (RDelete cf k) eb = h_DeleteCF h st cf k"
| "deliver h st (RSingleDelete cf k) eb = h_SingleDeleteCF h st cf k"
| "deliver h st (RDeleteRange cf k v) eb = h_DeleteRangeCF h st cf k v"
| "deliver h st (RMerge cf k v) eb = h_MergeCF h st cf k v"
| "deliver h st (RBlobIndex cf k v) eb = h_PutBlobIndexCF h st cf k v"
| "deliver h st (RLogData b) eb = (Status_OK, h_LogData h st b)"
| "deliver h st RBeginPrepare eb =
     (case h_MarkBeginPrepare h st False of (s, st) \<Rightarrow>
        (if h_WriteBeforePrepare h st = kEnabled then Status_NotSupported msg_committed_before
         else if h_WriteAfterCommit h st = kDisabled then Status_NotSupported msg_committed_after
         else s, st))"
| "deliver h st RBeginPersistedPrepare eb =
     (case h_MarkBeginPrepare h st False of (s, st) \<Rightarrow>
        (if h_WriteAfterCommit h st = kEnabled then Status_NotSupported msg_persisted_after else s, st))"
| "deliver h st RBeginUnprepare eb =
     (case h_MarkBeginPrepare h st True of (s, st) \<Rightarrow>
        (if h_WriteBeforePrepare h st = kDisabled then Status_NotSupported msg_unprepared_before
         else if h_WriteAfterCommit h st = kEnabled then Status_NotSupported msg_unprepared_after
         else s, st))"
| "deliver h st (REndPrepare x) eb = h_MarkEndPrepare h st x"
| "deliver h st (RCommit x) eb = h_MarkCommit h st x"
| "deliver h st (RCommitTs x ts) eb = h_MarkCommitWithTimestamp h st x ts"
| "deliver h st (RRollback x) eb = h_MarkRollback h st x"
| "deliver h st RNoop eb = h_MarkNoop h st eb"

text \<open>
  The \<open>empty_batch\<close> flag after a record: whether the handler saw an update or log data since the
  last boundary marker.
\<close>

fun empty_after :: "BRec \<Rightarrow> bool \<Rightarrow> bool \<Rightarrow> bool" where
  "empty_after (RLogData b) good eb = False"
| "empty_after RBeginPrepare good eb = False"
| "empty_after RBeginPersistedPrepare good eb = False"
| "empty_after RBeginUnprepare good eb = False"
| "empty_after (RBlobIndex cf k v) good eb = eb"
| "empty_after (REndPrepare x) good eb = True"
| "empty_after (RCommit x) good eb = True"
| "empty_after (RCommitTs x ts) good eb = (good \<or> eb)"
| "empty_after (RRollback x) good eb = True"
| "empty_after RNoop good eb = True"
| "empty_after _ good eb = (\<not> good \<and> eb)"

definition found_after :: "BRec \<Rightarrow> bool \<Rightarrow> u32 \<Rightarrow> u32" where
  "found_after r good found = (if counts r \<and> good then found + 1 else found)"

text \<open>
  The iteration on records: the handler is asked to continue before each record; a record it
  answers with \<^verbatim>\<open>TryAgain\<close> is delivered once more; any other failure, and a second
  \<^verbatim>\<open>TryAgain\<close>, stops the iteration.
\<close>

fun iterate_spec ::
  "'s Handler \<Rightarrow> 's \<Rightarrow> Status \<Rightarrow> BRec list \<Rightarrow> bool \<Rightarrow> u32 \<Rightarrow> 's \<times> (Status + Status \<times> bool \<times> u32)" where
  "iterate_spec h st s [] eb found = (st, Inr (s, True, found))"
| "iterate_spec h st s (r # rs) eb found =
     (case h_Continue h st of (c, st) \<Rightarrow>
        if \<not> c then (st, Inr (s, False, found))
        else case deliver h st r eb of (s, st) \<Rightarrow>
          let eb = empty_after r (ok s) eb; found = found_after r (ok s) found
          in if ok s then iterate_spec h st s rs eb found
             else if \<not> IsTryAgain s then (st, Inr (s, True, found))
             else case h_Continue h st of (c, st) \<Rightarrow>
               if \<not> c then (st, Inr (s, False, found))
               else case deliver h st r eb of (s, st) \<Rightarrow>
                 let eb = empty_after r (ok s) eb; found = found_after r (ok s) found
                 in if ok s then iterate_spec h st s rs eb found
                    else if \<not> IsTryAgain s then (st, Inr (s, True, found))
                    else case h_Continue h st of (c, st) \<Rightarrow>
                      if \<not> c then (st, Inr (s, False, found))
                      else (st, Inl (Status_Corruption msg_two_try_again [])))"

text \<open>The fields a record is read into.\<close>

fun fields_of :: "bool \<Rightarrow> BRec \<Rightarrow> BatchRecord \<Rightarrow> BatchRecord" where
  "fields_of w (RPut cf k v) f = f
     \<lparr>br_tag := if cf = 0 then kTypeValue else kTypeColumnFamilyValue, br_cf := cf, br_key := k, br_value := v\<rparr>"
| "fields_of w (RTimedPut cf k v t) f = set_timed_value w (v @ EncodeFixed64 t)
     (f
     \<lparr>br_tag := if cf = 0 then kTypeValuePreferredSeqno else kTypeColumnFamilyValuePreferredSeqno,
      br_cf := cf, br_key := k\<rparr>)"
| "fields_of w (RPutEntity cf k v) f = f
     \<lparr>br_tag := if cf = 0 then kTypeWideColumnEntity else kTypeColumnFamilyWideColumnEntity, br_cf := cf, br_key := k, br_value := v\<rparr>"
| "fields_of w (RDelete cf k) f = f
     \<lparr>br_tag := if cf = 0 then kTypeDeletion else kTypeColumnFamilyDeletion, br_cf := cf, br_key := k\<rparr>"
| "fields_of w (RSingleDelete cf k) f = f
     \<lparr>br_tag := if cf = 0 then kTypeSingleDeletion else kTypeColumnFamilySingleDeletion, br_cf := cf, br_key := k\<rparr>"
| "fields_of w (RDeleteRange cf k v) f = f
     \<lparr>br_tag := if cf = 0 then kTypeRangeDeletion else kTypeColumnFamilyRangeDeletion, br_cf := cf, br_key := k, br_value := v\<rparr>"
| "fields_of w (RMerge cf k v) f = f
     \<lparr>br_tag := if cf = 0 then kTypeMerge else kTypeColumnFamilyMerge, br_cf := cf, br_key := k, br_value := v\<rparr>"
| "fields_of w (RBlobIndex cf k v) f = f
     \<lparr>br_tag := if cf = 0 then kTypeBlobIndex else kTypeColumnFamilyBlobIndex, br_cf := cf, br_key := k, br_value := v\<rparr>"
| "fields_of w (RLogData b) f = f\<lparr>br_tag := kTypeLogData, br_cf := 0, br_blob := b\<rparr>"
| "fields_of w RBeginPrepare f = f\<lparr>br_tag := kTypeBeginPrepareXID, br_cf := 0\<rparr>"
| "fields_of w RBeginPersistedPrepare f = f\<lparr>br_tag := kTypeBeginPersistedPrepareXID, br_cf := 0\<rparr>"
| "fields_of w RBeginUnprepare f = f\<lparr>br_tag := kTypeBeginUnprepareXID, br_cf := 0\<rparr>"
| "fields_of w (REndPrepare x) f = f\<lparr>br_tag := kTypeEndPrepareXID, br_cf := 0, br_xid := x\<rparr>"
| "fields_of w (RCommit x) f = f\<lparr>br_tag := kTypeCommitXID, br_cf := 0, br_xid := x\<rparr>"
| "fields_of w (RCommitTs x ts) f = f\<lparr>br_tag := kTypeCommitXIDAndTimestamp, br_cf := 0, br_key := ts, br_xid := x\<rparr>"
| "fields_of w (RRollback x) f = f\<lparr>br_tag := kTypeRollbackXID, br_cf := 0, br_xid := x\<rparr>"
| "fields_of w RNoop f = f\<lparr>br_tag := kTypeNoop, br_cf := 0\<rparr>"

section \<open>Builder operations on records\<close>

text \<open>A batch with one more record.\<close>

definition wb_append :: "hash64 \<Rightarrow> WriteBatch \<Rightarrow> u32 \<Rightarrow> BRec \<Rightarrow> WriteBatch" where
  "wb_append H b flags r =
     (let b1 = (if counts r then SetCount b (Count b + 1) else b)
      in b1\<lparr>wb_rep := wb_rep b1 @ enc_rec r, wb_content_flags := wb_content_flags b OR flags,
            wb_prot_info := map_option (\<lambda>es. es @ rec_prots H r) (wb_prot_info b)\<rparr>)"

text \<open>The operations of \<^verbatim>\<open>WriteBatchInternal\<close>, and \<^verbatim>\<open>PutLogData\<close>, that append to a batch.\<close>

datatype WBOp =
    OPut u32 bytes bytes
  | OPutParts u32 "bytes list" "bytes list"
  | OTimedPut u32 bytes bytes u64
  | OPutEntity u32 bytes "(bytes \<times> bytes) list"
  | ODelete u32 bytes
  | ODeleteParts u32 "bytes list"
  | OSingleDelete u32 bytes
  | OSingleDeleteParts u32 "bytes list"
  | ODeleteRange u32 bytes bytes
  | ODeleteRangeParts u32 "bytes list" "bytes list"
  | OMerge u32 bytes bytes
  | OMergeParts u32 "bytes list" "bytes list"
  | OPutBlobIndex u32 bytes bytes
  | OLogData bytes
  | ONoop
  | OBeginPrepare bool bool
  | OEndPrepare bytes
  | OCommit bytes
  | OCommitTs bytes bytes
  | ORollback bytes

fun apply_op :: "hash64 \<Rightarrow> wide_column_ext \<Rightarrow> WriteBatch \<Rightarrow> WBOp \<Rightarrow> Status \<times> WriteBatch" where
  "apply_op H W b (OPut cf k v) = WBI_Put H b cf k v"
| "apply_op H W b (OPutParts cf k v) = WBI_Put_parts H b cf k v"
| "apply_op H W b (OTimedPut cf k v t) = WBI_TimedPut H b cf k v t"
| "apply_op H W b (OPutEntity cf k cs) = WBI_PutEntity H W b cf k cs"
| "apply_op H W b (ODelete cf k) = WBI_Delete H b cf k"
| "apply_op H W b (ODeleteParts cf k) = WBI_Delete_parts H b cf k"
| "apply_op H W b (OSingleDelete cf k) = WBI_SingleDelete H b cf k"
| "apply_op H W b (OSingleDeleteParts cf k) = WBI_SingleDelete_parts H b cf k"
| "apply_op H W b (ODeleteRange cf k e) = WBI_DeleteRange H b cf k e"
| "apply_op H W b (ODeleteRangeParts cf k e) = WBI_DeleteRange_parts H b cf k e"
| "apply_op H W b (OMerge cf k v) = WBI_Merge H b cf k v"
| "apply_op H W b (OMergeParts cf k v) = WBI_Merge_parts H b cf k v"
| "apply_op H W b (OPutBlobIndex cf k v) = WBI_PutBlobIndex H b cf k v"
| "apply_op H W b (OLogData x) = PutLogData b x"
| "apply_op H W b ONoop = InsertNoop b"
| "apply_op H W b (OBeginPrepare wac up) = InsertBeginPrepare b wac up"
| "apply_op H W b (OEndPrepare x) = InsertEndPrepare b x"
| "apply_op H W b (OCommit x) = WBI_MarkCommit b x"
| "apply_op H W b (OCommitTs x ts) = WBI_MarkCommitWithTimestamp b x ts"
| "apply_op H W b (ORollback x) = WBI_MarkRollback b x"

text \<open>The check of the arguments, the record the operation stands for and the flags it sets.\<close>

definition size_check :: "bytes \<Rightarrow> bytes \<Rightarrow> Status" where
  "size_check k v =
     (if uint32_max < length k then Status_InvalidArgument ''key is too large''
      else if uint32_max < length v then Status_InvalidArgument ''value is too large''
      else Status_OK)"

fun op_check :: "wide_column_ext \<Rightarrow> WBOp \<Rightarrow> Status" where
  "op_check W (OPut cf k v) = size_check k v"
| "op_check W (OPutParts cf k v) = CheckSlicePartsLength k v"
| "op_check W (OTimedPut cf k v t) = size_check k v"
| "op_check W (OPutEntity cf k cs) =
     (if uint32_max < length k then Status_InvalidArgument ''key is too large''
      else case Serialize W (SortColumns W cs) of (s, e) \<Rightarrow>
        if \<not> ok s then s
        else if uint32_max < length e then Status_InvalidArgument ''wide column entity is too large''
        else Status_OK)"
| "op_check W (OMerge cf k v) = size_check k v"
| "op_check W (OMergeParts cf k v) = CheckSlicePartsLength k v"
| "op_check W _ = Status_OK"

text \<open>
  The calls whose check of the arguments makes sure that every slice fits its 32-bit length prefix.
  \<^verbatim>\<open>TimedPut\<close> is one of them only where it does not pack a write time behind the value.
\<close>

fun op_checked :: "WBOp \<Rightarrow> bool" where
  "op_checked (OPut cf k v) = True"
| "op_checked (OPutParts cf k v) = True"
| "op_checked (OTimedPut cf k v t) = (t = - 1)"
| "op_checked (OPutEntity cf k cs) = True"
| "op_checked (OMerge cf k v) = True"
| "op_checked (OMergeParts cf k v) = True"
| "op_checked _ = False"

fun op_rec :: "wide_column_ext \<Rightarrow> WBOp \<Rightarrow> BRec" where
  "op_rec W (OPut cf k v) = RPut cf k v"
| "op_rec W (OPutParts cf k v) = RPut cf (concat k) (concat v)"
| "op_rec W (OTimedPut cf k v t) = (if t = - 1 then RPut cf k v else RTimedPut cf k v t)"
| "op_rec W (OPutEntity cf k cs) = RPutEntity cf k (snd (Serialize W (SortColumns W cs)))"
| "op_rec W (ODelete cf k) = RDelete cf k"
| "op_rec W (ODeleteParts cf k) = RDelete cf (concat k)"
| "op_rec W (OSingleDelete cf k) = RSingleDelete cf k"
| "op_rec W (OSingleDeleteParts cf k) = RSingleDelete cf (concat k)"
| "op_rec W (ODeleteRange cf k e) = RDeleteRange cf k e"
| "op_rec W (ODeleteRangeParts cf k e) = RDeleteRange cf (concat k) (concat e)"
| "op_rec W (OMerge cf k v) = RMerge cf k v"
| "op_rec W (OMergeParts cf k v) = RMerge cf (concat k) (concat v)"
| "op_rec W (OPutBlobIndex cf k v) = RBlobIndex cf k v"
| "op_rec W (OLogData x) = RLogData x"
| "op_rec W ONoop = RNoop"
| "op_rec W (OBeginPrepare wac up) =
     (if wac then RBeginPrepare else if up then RBeginUnprepare else RBeginPersistedPrepare)"
| "op_rec W (OEndPrepare x) = REndPrepare x"
| "op_rec W (OCommit x) = RCommit x"
| "op_rec W (OCommitTs x ts) = RCommitTs x ts"
| "op_rec W (ORollback x) = RRollback x"

fun op_flags :: "wide_column_ext \<Rightarrow> WBOp \<Rightarrow> u32" where
  "op_flags W (OBeginPrepare wac up) = HAS_BEGIN_PREPARE"
| "op_flags W op = rec_flags (op_rec W op)"

text \<open>Markers are appended without looking at the size limit.\<close>

fun op_limited :: "WBOp \<Rightarrow> bool" where
  "op_limited ONoop = False"
| "op_limited (OBeginPrepare wac up) = False"
| "op_limited (OEndPrepare x) = False"
| "op_limited (OCommit x) = False"
| "op_limited (OCommitTs x ts) = False"
| "op_limited (ORollback x) = False"
| "op_limited _ = True"

text \<open>
  The abstraction relation: the batch's bytes are the encoding of the records, every record can
  be read back, the count has not wrapped, and the protection entries, if the batch keeps them,
  are those of the records.
\<close>

definition batch_holds :: "hash64 \<Rightarrow> WriteBatch \<Rightarrow> SequenceNumber \<Rightarrow> BRec list \<Rightarrow> bool" where
  "batch_holds H b seq rs \<longleftrightarrow>
     wb_rep b = enc_batch seq rs \<and> (\<forall>r \<in> set rs. rec_ok r) \<and> n_counted rs < 2 ^ 32 \<and>
     (wb_prot_info b = None \<or> wb_prot_info b = Some (prots_of H rs))"

fun run_ops :: "hash64 \<Rightarrow> wide_column_ext \<Rightarrow> WriteBatch \<Rightarrow> WBOp list \<Rightarrow> WriteBatch" where
  "run_ops H W b [] = b"
| "run_ops H W b (op # ops) = run_ops H W (snd (apply_op H W b op)) ops"

text \<open>What the builders leave alone: every field but the bytes, the flags and the protection entries.\<close>

definition frame :: "WriteBatch \<Rightarrow> WriteBatch \<times> bool" where
  "frame b = (b\<lparr>wb_rep := [], wb_content_flags := 0, wb_prot_info := None\<rparr>, wb_prot_info b = None)"

text \<open>A handler that answers every record with an ok status and always continues.\<close>

definition accepts :: "'s Handler \<Rightarrow> ('s \<Rightarrow> BRec \<Rightarrow> 's) \<Rightarrow> BRec list \<Rightarrow> bool" where
  "accepts h g rs \<longleftrightarrow> (\<forall>st r eb. r \<in> set rs \<longrightarrow> deliver h st r eb = (Status_OK, g st r)) \<and>
     (\<forall>st. h_Continue h st = (True, st))"

section \<open>Reading records back\<close>

lemma enc_rec_nonempty [simp]: "enc_rec r \<noteq> []"
  by (cases r) (simp_all add: enc_tag_def)

context varint_decoder
begin

lemma read_slice_enc [simp]:
  "fits s \<Longrightarrow> read_slice E msg upd f (enc_slice s @ rest) = Inr (upd s f, rest)"
  using GetLengthPrefixedSlice_Put [of s rest]
  by (simp add: read_slice_def enc_slice_def PutLengthPrefixedSlice_def PutVarint32_def fits_def)

lemma read_cf_enc [simp]:
  "read_cf E msg f (EncodeVarint32 cf @ rest) = Inr (f\<lparr>br_cf := cf\<rparr>, rest)"
  by (simp add: read_cf_def GetVarint32_enc)

lemma read_rec:
  "rec_ok r \<Longrightarrow> ReadRecordFromWriteBatch E w f (enc_rec r @ rest) = Inr (fields_of w r f, rest)"
  by (cases r)
    (simp_all add: ReadRecordFromWriteBatch_def enc_tag_def read_key_value_def fits_def [of "_ @ _"])

end

lemma dispatch_fields:
  "dispatch h st (fields_of True r f) eb found =
     (case deliver h st r eb of (s, st) \<Rightarrow> (st, Inr (s, empty_after r (ok s) eb, found_after r (ok s) found)))"
  by (cases r) (simp_all add: dispatch_def counted_def found_after_def set_timed_value_def
      ParsePackedValueWithWriteTime_def ParsePackedValueForWriteTime_def fixed64.dec_enc_end
      split: prod.split)

lemma TryAgain_not_ok [simp]: "IsTryAgain s \<Longrightarrow> \<not> ok s"
  using ok_not_TryAgain by blast

lemma loop_end: "ok s \<Longrightarrow> Iterate_loop E h st s [] f eb found l = (st, Inr (s, True, found))"
  by (simp add: Iterate_loop.simps ok_not_TryAgain)

lemma loop_stop:
  "\<not> ok s \<Longrightarrow> \<not> IsTryAgain s \<Longrightarrow> Iterate_loop E h st s i f eb found l = (st, Inr (s, True, found))"
  by (simp add: Iterate_loop.simps)

lemma loop_retry:
  "IsTryAgain s \<Longrightarrow> Iterate_loop E h st s i (fields_of True r f) eb found l =
     (case h_Continue h st of (c, st) \<Rightarrow>
        if \<not> c then (st, Inr (s, False, found))
        else if l then (st, Inl (Status_Corruption msg_two_try_again []))
        else case deliver h st r eb of (s, st) \<Rightarrow>
          Iterate_loop E h st s i (fields_of True r f)
            (empty_after r (ok s) eb) (found_after r (ok s) found) True)"
  by (subst Iterate_loop.simps) (simp add: dispatch_fields split: prod.split)

context varint_decoder
begin

lemma loop_read:
  "rec_ok r \<Longrightarrow> ok s \<Longrightarrow> Iterate_loop E h st s (enc_rec r @ i) f eb found l =
     (case h_Continue h st of (c, st) \<Rightarrow>
        if \<not> c then (st, Inr (s, False, found))
        else case deliver h st r eb of (s, st) \<Rightarrow>
          Iterate_loop E h st s i (fields_of True r (f\<lparr>br_tag := 0, br_cf := 0\<rparr>))
            (empty_after r (ok s) eb) (found_after r (ok s) found) False)"
  by (subst Iterate_loop.simps) (simp add: ok_not_TryAgain read_rec dispatch_fields split: prod.split)

lemma Iterate_loop_spec:
  "\<forall>r \<in> set rs. rec_ok r \<Longrightarrow> ok s \<Longrightarrow>
   Iterate_loop E h st s (concat (map enc_rec rs)) f eb found l = iterate_spec h st s rs eb found"
proof (induction rs arbitrary: st s f eb found l)
  case Nil
  then show ?case by (simp add: loop_end)
next
  case (Cons r rs)
  then have IH: "ok s' \<Longrightarrow> Iterate_loop E h st' s' (concat (map enc_rec rs)) f' eb' found' l' =
      iterate_spec h st' s' rs eb' found'" for st' s' f' eb' found' l'
    by simp
  show ?case using Cons.prems
    by (simp add: loop_read Let_def IH loop_stop loop_retry split: prod.split)
qed

end

section \<open>The bytes of a batch\<close>

lemma enc_batch_parts [simp]:
  "length (enc_batch seq rs) = 12 + length (concat (map enc_rec rs))"
  "take 8 (enc_batch seq rs) = EncodeFixed64 seq"
  "drop 12 (enc_batch seq rs) = concat (map enc_rec rs)"
  "DecodeFixed32 (drop 8 (enc_batch seq rs)) = of_nat (n_counted rs)"
  "DecodeFixed64 (enc_batch seq rs) = seq"
  by (simp_all add: enc_batch_def)

lemma Count_enc: "wb_rep b = enc_batch seq rs \<Longrightarrow> Count b = of_nat (n_counted rs)"
  by (simp add: Count_def)

lemma n_counted_simps [simp]:
  "n_counted [] = 0" "n_counted (r # rs) = (if counts r then 1 else 0) + n_counted rs"
  "n_counted (rs @ rs') = n_counted rs + n_counted rs'"
  by (simp_all add: n_counted_def)

lemma prots_of_simps [simp]:
  "prots_of H [] = []" "prots_of H (r # rs) = rec_prots H r @ prots_of H rs"
  "prots_of H (rs @ rs') = prots_of H rs @ prots_of H rs'"
  by (simp_all add: prots_of_def)

lemma length_rec_prots: "length (rec_prots H r) = (if counts r then 1 else 0)"
  by (cases r) simp_all

lemma length_prots_of [simp]: "length (prots_of H rs) = n_counted rs"
  by (induction rs) (simp_all add: length_rec_prots)

lemma enc_batch_append: "enc_batch seq (rs @ rs') =
    EncodeFixed64 seq @ EncodeFixed32 (of_nat (n_counted rs + n_counted rs')) @
    concat (map enc_rec rs) @ concat (map enc_rec rs')"
  by (simp add: enc_batch_def)

section \<open>Iterate\<close>

lemma found_after_spec:
  "snd (iterate_spec h st s rs eb found) = Inr (s', True, found') \<Longrightarrow> ok s' \<Longrightarrow>
   found' = found + of_nat (n_counted rs)"
proof (induction rs arbitrary: st s eb found)
  case (Cons r rs)
  from Cons.prems show ?case
    by (auto simp: Let_def found_after_def ac_simps split: prod.splits if_splits
        dest!: Cons.IH [OF _ Cons.prems(2)])
qed simp

context varint_decoder
begin

lemma Iterate_refines_count:
  assumes "wb_rep b = EncodeFixed64 seq @ EncodeFixed32 n @ concat (map enc_rec rs)" and "\<forall>r \<in> set rs. rec_ok r"
  shows "Iterate E b h st =
    (case iterate_spec h st Status_OK rs True 0 of
       (st, Inl s) \<Rightarrow> (s, st)
     | (st, Inr (s, c, found)) \<Rightarrow>
         (if \<not> ok s then s
          else if c \<and> n \<noteq> of_nat (n_counted rs) then Status_Corruption ''WriteBatch has wrong count'' []
          else Status_OK, st))"
proof -
  have "Count b = n" using assms(1) by (simp add: Count_def)
  then show ?thesis
    using assms(2) found_after_spec [of h st Status_OK rs True 0]
    by (auto simp: Iterate_def WBI_Iterate_def kHeader_def assms(1) Iterate_loop_spec split: prod.splits sum.splits)
qed

lemma Iterate_refines:
  assumes "wb_rep b = enc_batch seq rs" and "\<forall>r \<in> set rs. rec_ok r"
  shows "Iterate E b h st =
    (case iterate_spec h st Status_OK rs True 0 of
       (st, Inl s) \<Rightarrow> (s, st)
     | (st, Inr (s, c, found)) \<Rightarrow> (if ok s then Status_OK else s, st))"
  by (simp add: Iterate_refines_count [OF assms(1) [unfolded enc_batch_def] assms(2)] split: prod.split sum.split)

end

section \<open>Builders\<close>

lemmas push_defs = push_cf_tag_def push_tag_def push_slice_def push_parts_def or_flags_def
  emplace_prot_def PutVarint32_def PutLengthPrefixedSlice_def

lemma PutLengthPrefixedSliceParts_concat:
  "PutLengthPrefixedSliceParts dst parts = PutLengthPrefixedSlice dst (concat parts)"
  by (simp add: PutLengthPrefixedSliceParts_def PutLengthPrefixedSliceParts_total_def
      PutLengthPrefixedSlice_def foldl_append_concat length_concat)

lemma commit_append:
  assumes "wb_rep b = enc_batch seq rs" and "n_counted rs < 2 ^ 32"
    and "case wb_prot_info b of None \<Rightarrow> True | Some es \<Rightarrow> length es = n_counted rs"
  shows "commit (LocalSavePoint b) (wb_append H b flags r) =
    (if wb_max_bytes b \<noteq> 0 \<and> wb_max_bytes b < length (wb_rep b) + length (enc_rec r)
     then (Status_MemoryLimit, b) else (Status_OK, wb_append H b flags r))"
proof -
  have cnt: "unat (Count b) = n_counted rs"
    using assms(2) by (simp add: Count_enc [OF assms(1)] unat_of_nat_u32)
  have len: "length (wb_rep (wb_append H b flags r)) = length (wb_rep b) + length (enc_rec r)"
    using assms(1) by (simp add: wb_append_def SetCount_def)
  let ?a = "wb_append H b flags r" and ?sp = "LocalSavePoint b"
  have rep: "wb_rep (SetCount (?a\<lparr>wb_rep := resize_rep (sp_size ?sp) (wb_rep ?a)\<rparr>) (sp_count ?sp)) = wb_rep b"
    by (simp add: wb_append_def LocalSavePoint_def GetDataSize_def resize_rep_def SetCount_def
        Count_enc [OF assms(1)] assms(1) enc_batch_def)
  have prot: "map_option (resize_entries (unat (sp_count ?sp))) (wb_prot_info ?a) = wb_prot_info b"
    using assms(3) cnt
    by (auto simp: wb_append_def LocalSavePoint_def resize_entries_def SetCount_def
        split: option.splits)
  have "commit ?sp ?a = (Status_MemoryLimit, b)"
    if "wb_max_bytes ?a \<noteq> 0 \<and> wb_max_bytes ?a < length (wb_rep ?a)"
    using that rep prot
    by (auto simp: commit_def Let_def wb_append_def LocalSavePoint_def SetCount_def
        intro!: WriteBatch.equality)
  moreover have "wb_max_bytes ?a = wb_max_bytes b"
    by (simp add: wb_append_def SetCount_def)
  ultimately show ?thesis by (simp add: len commit_def)
qed

lemma apply_op_refused: "\<not> ok (op_check W op) \<Longrightarrow> apply_op H W b op = (op_check W op, b)"
  by (cases op) (auto simp: WBI_Put_def WBI_Put_parts_def WBI_TimedPut_def WBI_PutEntity_def
      WBI_Merge_def WBI_Merge_parts_def size_check_def Let_def split: if_splits prod.splits)

lemmas op_defs = WBI_Put_def WBI_Put_parts_def WBI_TimedPut_def WBI_PutEntity_def WBI_Delete_def
  WBI_Delete_parts_def WBI_SingleDelete_def WBI_SingleDelete_parts_def WBI_DeleteRange_def
  WBI_DeleteRange_parts_def WBI_Merge_def WBI_Merge_parts_def WBI_PutBlobIndex_def PutLogData_def
  InsertNoop_def InsertBeginPrepare_def InsertEndPrepare_def WBI_MarkCommit_def
  WBI_MarkCommitWithTimestamp_def WBI_MarkRollback_def GetBeginPrepareType_def

lemma map_option_append_Nil [simp]: "map_option (\<lambda>es. es) x = x"
  by (cases x) simp_all

lemma apply_op_append:
  assumes "ok (op_check W op)"
  shows "apply_op H W b op =
    (if op_limited op then commit (LocalSavePoint b) (wb_append H b (op_flags W op) (op_rec W op))
     else (Status_OK, wb_append H b (op_flags W op) (op_rec W op)))"
  using assms
  by (cases op)
    (auto simp: op_defs wb_append_def push_defs SetCount_def enc_tag_def enc_slice_def protect_def
     size_check_def PutLengthPrefixedSliceParts_concat ProtectKVO_parts_concat
     PackValueAndWriteTime_def PutFixed64_eq Let_def split: if_splits prod.splits)

section \<open>Sequences of operations\<close>

lemma batch_holds_new: "batch_holds H (WriteBatch_new r m p d) 0 []"
proof -
  have "EncodeFixed64 0 @ EncodeFixed32 0 = replicate 12 (0 :: byte)"
    by (simp add: EncodeFixed64_le EncodeFixed32_le eval_nat_numeral)
  then show ?thesis
    by (simp add: batch_holds_def WriteBatch_new_def enc_batch_def kHeader_def)
qed

lemma batch_holds_append:
  assumes "batch_holds H b seq rs" "rec_ok r" "n_counted (rs @ [r]) < 2 ^ 32"
  shows "batch_holds H (wb_append H b fl r) seq (rs @ [r])"
  using assms
  by (auto simp: batch_holds_def wb_append_def SetCount_def Count_def enc_batch_def Let_def
      add.commute)

lemma apply_op_holds:
  assumes "batch_holds H b seq rs"
  shows "apply_op H W b op =
    (if \<not> ok (op_check W op) then (op_check W op, b)
     else if op_limited op \<and> wb_max_bytes b \<noteq> 0
        \<and> wb_max_bytes b < length (wb_rep b) + length (enc_rec (op_rec W op))
     then (Status_MemoryLimit, b)
     else (Status_OK, wb_append H b (op_flags W op) (op_rec W op)))"
proof (cases "ok (op_check W op)")
  case True
  have "case wb_prot_info b of None \<Rightarrow> True | Some es \<Rightarrow> length es = n_counted rs"
    using assms by (auto simp: batch_holds_def)
  then show ?thesis
    using assms commit_append [of b seq rs] True
    by (simp add: apply_op_append batch_holds_def)
qed (simp add: apply_op_refused)

lemma op_checked_rec_ok: "op_checked op \<Longrightarrow> ok (op_check W op) \<Longrightarrow> rec_ok (op_rec W op)"
  by (cases op) (auto simp: size_check_def CheckSlicePartsLength_def fits_def uint32_max_def length_concat
      split: if_splits prod.splits)

lemma wb_append_rep:
  "batch_holds H b seq rs \<Longrightarrow> wb_rep (wb_append H b fl r) = enc_batch seq (rs @ [r])"
  by (auto simp: batch_holds_def wb_append_def SetCount_def Count_def enc_batch_def Let_def add.commute)

lemma apply_op_cases:
  assumes "batch_holds H b seq rs"
  obtains "snd (apply_op H W b op) = b"
  | "snd (apply_op H W b op) = wb_append H b (op_flags W op) (op_rec W op)"
  using apply_op_holds [OF assms, of W op] by (auto split: if_splits)

lemma counts_le: "n_counted [r] \<le> 1"
  by (cases r) simp_all

lemma frame_append [simp]: "frame (wb_append H b fl r) = frame b"
  by (simp add: frame_def wb_append_def SetCount_def)

lemma run_ops_holds:
  assumes "batch_holds H b seq rs" "\<forall>op \<in> set ops. rec_ok (op_rec W op)"
    and "n_counted rs + length ops < 2 ^ 32"
  shows "\<exists>rs'. batch_holds H (run_ops H W b ops) seq (rs @ rs')
    \<and> (rs' = [] \<longrightarrow> run_ops H W b ops = b) \<and> frame (run_ops H W b ops) = frame b"
  using assms
proof (induction ops arbitrary: b rs)
  case Nil
  then show ?case by (intro exI [of _ "[]"]) simp
next
  case (Cons op ops)
  let ?r = "op_rec W op"
  show ?case
  proof (rule apply_op_cases [OF Cons.prems(1), of W op])
    assume "snd (apply_op H W b op) = b"
    then show ?thesis using Cons by simp
  next
    let ?b = "wb_append H b (op_flags W op) ?r"
    assume eq: "snd (apply_op H W b op) = ?b"
    have "batch_holds H ?b seq (rs @ [?r])"
      using Cons.prems counts_le [of ?r] by (intro batch_holds_append) auto
    moreover have "n_counted (rs @ [?r]) + length ops < 2 ^ 32"
      using Cons.prems(3) counts_le [of ?r] by simp
    ultimately obtain rs' where "batch_holds H (run_ops H W ?b ops) seq ((rs @ [?r]) @ rs')"
      "frame (run_ops H W ?b ops) = frame ?b"
      using Cons.IH [of ?b "rs @ [?r]"] Cons.prems(2) by auto
    then show ?thesis by (intro exI [of _ "?r # rs'"]) (simp add: eq)
  qed
qed

lemma frame_eqD:
  assumes "frame b' = frame b"
  shows "b'\<lparr>wb_rep := x, wb_content_flags := y, wb_prot_info := z\<rparr> =
         b\<lparr>wb_rep := x, wb_content_flags := y, wb_prot_info := z\<rparr>"
proof -
  have "b'\<lparr>wb_rep := [], wb_content_flags := 0, wb_prot_info := None\<rparr> =
        b\<lparr>wb_rep := [], wb_content_flags := 0, wb_prot_info := None\<rparr>"
    using assms by (simp add: frame_def)
  from arg_cong [OF this, of "\<lambda>c. c\<lparr>wb_rep := x, wb_content_flags := y, wb_prot_info := z\<rparr>"]
  show ?thesis by simp
qed

lemma rollback_restores:
  assumes "batch_holds H b seq rs" "batch_holds H b' seq (rs @ rs')"
    and "rs' = [] \<longrightarrow> b' = SetSavePoint b" "frame b' = frame (SetSavePoint b)"
  shows "RollbackToSavePoint b' =
    (Status_OK, b\<lparr>wb_save_points := Some (case wb_save_points b of None \<Rightarrow> [] | Some st \<Rightarrow> st)\<rparr>)"
proof -
  let ?stack = "case wb_save_points b of None \<Rightarrow> [] | Some st \<Rightarrow> st"
  have sp: "wb_save_points b' = Some (\<lparr>sp_size = length (wb_rep b), sp_count = Count b,
      sp_content_flags = wb_content_flags b\<rparr> # ?stack)"
    using arg_cong [OF assms(4), of "\<lambda>p. wb_save_points (fst p)"]
    by (simp add: frame_def SetSavePoint_def GetDataSize_def)
  show ?thesis
  proof (cases "rs' = []")
    case True
    then show ?thesis using assms(3) sp
      by (simp add: RollbackToSavePoint_def SetSavePoint_def)
  next
    case False
    then have longer: "length (wb_rep b) \<noteq> length (wb_rep b')" "length (wb_rep b) \<noteq> 0"
      using assms(1,2) by (cases rs', auto simp: batch_holds_def)
    have rep: "take 8 (resize_rep (length (wb_rep b)) (wb_rep b')) @ EncodeFixed32 (Count b) @
        drop 12 (resize_rep (length (wb_rep b)) (wb_rep b')) = wb_rep b"
      using assms(1,2) by (simp add: batch_holds_def resize_rep_def Count_def enc_batch_def)
    have prot: "map_option (resize_entries (unat (Count b))) (wb_prot_info b') = wb_prot_info b"
    proof -
      have "unat (Count b) = n_counted rs"
        using assms(1) by (simp add: batch_holds_def Count_enc unat_of_nat_u32)
      moreover have "wb_prot_info b' = None \<longleftrightarrow> wb_prot_info b = None"
        using assms(4) by (simp add: frame_def SetSavePoint_def)
      ultimately show ?thesis using assms(1,2)
        by (auto simp: batch_holds_def resize_entries_def)
    qed
    have "RollbackToSavePoint b' = (Status_OK, (b'\<lparr>wb_rep := wb_rep b,
        wb_content_flags := wb_content_flags b, wb_prot_info := wb_prot_info b\<rparr>)
        \<lparr>wb_save_points := Some ?stack\<rparr>)"
      using longer by (simp add: RollbackToSavePoint_def sp SetCount_def rep prot Let_def)
    then show ?thesis
      unfolding frame_eqD [OF assms(4)] by (simp add: SetSavePoint_def)
  qed
qed

section \<open>Assertions\<close>

text \<open>What the assertions of \<^verbatim>\<open>Iterate\<close> ask of the content flags, of a record and of a handler.\<close>

fun rec_covered :: "u32 \<Rightarrow> BRec \<Rightarrow> bool" where
  "rec_covered fl (RLogData b) = True"
| "rec_covered fl RNoop = True"
| "rec_covered fl RBeginUnprepare = flag_assert fl HAS_BEGIN_UNPREPARE"
| "rec_covered fl (RCommitTs x ts) = (flag_assert fl HAS_COMMIT \<and> ts \<noteq> [])"
| "rec_covered fl r = flag_assert fl (rec_flags r)"

definition markers_ok :: "'s Handler \<Rightarrow> bool" where
  "markers_ok h \<longleftrightarrow> (\<forall>st u. ok (fst (h_MarkBeginPrepare h st u))) \<and> (\<forall>st x. ok (fst (h_MarkEndPrepare h st x))) \<and>
     (\<forall>st x. ok (fst (h_MarkCommit h st x))) \<and> (\<forall>st x. ok (fst (h_MarkRollback h st x))) \<and>
     (\<forall>st e. ok (fst (h_MarkNoop h st e)))"

definition never_try_again :: "'s Handler \<Rightarrow> bool" where
  "never_try_again h \<longleftrightarrow> (\<forall>st r eb. \<not> IsTryAgain (fst (deliver h st r eb)))"

text \<open>The calls whose record the assertions admit.\<close>

fun op_asserted :: "WBOp \<Rightarrow> bool" where
  "op_asserted (OBeginPrepare wac up) = (wac \<or> \<not> up)"
| "op_asserted (OCommitTs x ts) = (ts \<noteq> [])"
| "op_asserted op = True"

lemma dispatch_asserts_fields:
  "markers_ok h \<Longrightarrow> dispatch_asserts fl h st (fields_of True r f) eb = rec_covered fl r"
  by (cases r) (simp_all add: dispatch_asserts_def markers_ok_def set_timed_value_def
      ParsePackedValueWithWriteTime_def)

lemma flag_assert_or [simp]: "flag_assert (a OR b) c \<longleftrightarrow> flag_assert a c \<or> flag_assert b c"
  by (simp add: flag_assert_def bit.conj_disj_distrib2 or_eq_0_iff)

lemma rec_covered_or: "rec_covered a r \<Longrightarrow> rec_covered (a OR b) r" "rec_covered b r \<Longrightarrow> rec_covered (a OR b) r"
  by (cases r; simp)+

lemma op_covered: "op_asserted op \<Longrightarrow> rec_covered (op_flags W op) (op_rec W op)"
  by (cases op) (auto simp: flag_assert_def)

context varint_decoder
begin

lemma loop_asserts_read:
  "rec_ok r \<Longrightarrow> ok s \<Longrightarrow> Iterate_loop_asserts E fl h st s (enc_rec r @ i) f eb found l =
     (case h_Continue h st of (c, st) \<Rightarrow>
        c \<longrightarrow> dispatch_asserts fl h st (fields_of True r (f\<lparr>br_tag := 0, br_cf := 0\<rparr>)) eb \<and>
          (case deliver h st r eb of (s, st) \<Rightarrow>
             Iterate_loop_asserts E fl h st s i (fields_of True r (f\<lparr>br_tag := 0, br_cf := 0\<rparr>))
               (empty_after r (ok s) eb) (found_after r (ok s) found) False))"
  by (subst Iterate_loop_asserts.simps) (simp add: ok_not_TryAgain read_rec dispatch_fields split: prod.split)

lemma loop_asserts_hold:
  assumes "markers_ok h" "never_try_again h"
  shows "\<forall>r \<in> set rs. rec_ok r \<and> rec_covered fl r \<Longrightarrow> \<not> IsTryAgain s \<Longrightarrow>
    Iterate_loop_asserts E fl h st s (concat (map enc_rec rs)) f eb found l"
proof (induction rs arbitrary: st s f eb found l)
  case Nil
  then show ?case by (subst Iterate_loop_asserts.simps) simp
next
  case (Cons r rs)
  have d: "\<not> IsTryAgain s'" if "deliver h st' r eb = (s', st'')" for s' st' st''
    using assms(2) that unfolding never_try_again_def by (metis fst_conv)
  show ?case
  proof (cases "ok s")
    case True
    with Cons.prems show ?thesis
      by (simp add: loop_asserts_read dispatch_asserts_fields [OF assms(1)] Cons.IH d split: prod.split)
  next
    case False
    then show ?thesis using Cons.prems by (subst Iterate_loop_asserts.simps) simp
  qed
qed

lemma Iterate_asserts_hold:
  assumes "wb_rep b = enc_batch seq rs" "\<forall>r \<in> set rs. rec_ok r \<and> rec_covered (wb_content_flags b) r"
    and "markers_ok h" "never_try_again h"
  shows "Iterate_asserts E b h st"
  using loop_asserts_hold [OF assms(3,4,2), of Status_OK] ok_not_TryAgain [of Status_OK]
  by (simp add: Iterate_asserts_def assms(1) kHeader_def)

end

lemma run_ops_covered:
  assumes "batch_holds H b seq rs" "\<forall>op \<in> set ops. rec_ok (op_rec W op) \<and> op_asserted op"
    and "n_counted rs + length ops < 2 ^ 32" "\<forall>r \<in> set rs. rec_covered (wb_content_flags b) r"
  shows "\<exists>rs'. batch_holds H (run_ops H W b ops) seq rs'
    \<and> (\<forall>r \<in> set rs'. rec_covered (wb_content_flags (run_ops H W b ops)) r)"
  using assms
proof (induction ops arbitrary: b rs)
  case Nil
  then show ?case by (intro exI [of _ rs]) simp
next
  case (Cons op ops)
  let ?r = "op_rec W op"
  show ?case
  proof (rule apply_op_cases [OF Cons.prems(1), of W op])
    assume "snd (apply_op H W b op) = b"
    then show ?thesis using Cons.IH [OF Cons.prems(1)] Cons.prems by simp
  next
    let ?b = "wb_append H b (op_flags W op) ?r"
    assume eq: "snd (apply_op H W b op) = ?b"
    have fl: "wb_content_flags ?b = wb_content_flags b OR op_flags W op"
      by (simp add: wb_append_def SetCount_def)
    have "batch_holds H ?b seq (rs @ [?r])"
      using Cons.prems counts_le [of ?r] by (intro batch_holds_append) auto
    moreover have "n_counted (rs @ [?r]) + length ops < 2 ^ 32"
      using Cons.prems(3) counts_le [of ?r] by simp
    moreover have "\<forall>r \<in> set (rs @ [?r]). rec_covered (wb_content_flags ?b) r"
      using Cons.prems(2,4) rec_covered_or op_covered [of op W] by (auto simp: fl)
    ultimately show ?thesis using Cons.IH [of ?b "rs @ [?r]"] Cons.prems(2) eq by simp
  qed
qed

section \<open>Protection entries and content flags\<close>

lemma strip_protect_ok:
  "ok (GetStatus (StripKVO H (StripC H e cf) k v t)) \<longleftrightarrow> e = protect H cf k v t"
proof -
  have "StripKVO H (StripC H e cf) k v t = ProtectionInfo (kvoc_val e XOR kvoc_val (protect H cf k v t))"
    by (simp add: protect_def kv_checksum_defs ac_simps)
  then show ?thesis
    by (auto simp: GetStatus_def xor_eq_0 intro: ProtectionInfoKVOC.expand)
qed

lemma GetStatus_corrupt: "IsCorruption (GetStatus p) \<longleftrightarrow> \<not> ok (GetStatus p)"
  by (simp add: GetStatus_def)

lemma prots_of_Nil_iff: "prots_of H rs = [] \<longleftrightarrow> n_counted rs = 0"
  by (metis length_0_conv length_prots_of)

lemma checksum_tag_fields:
  assumes "br_value f = []"
  shows "counts r \<Longrightarrow> \<exists>t. checksum_tag (br_tag (fields_of False r f)) = Inr (Some t) \<and>
      rec_prots H r = [protect H (br_cf (fields_of False r f)) (br_key (fields_of False r f))
        (br_value (fields_of False r f)) t]"
    and "\<not> counts r \<Longrightarrow> checksum_tag (br_tag (fields_of False r f)) = Inr None"
  using assms by (cases r; simp add: checksum_tag_def set_timed_value_def)+

context varint_decoder
begin

lemma VerifyChecksum_loop_spec:
  assumes "\<forall>r \<in> set rs. rec_ok r" and "i + n_counted rs = length entries"
  shows "if drop i entries = prots_of H rs
    then VerifyChecksum_loop H E (concat (map enc_rec rs)) f entries i = Inr (length entries)
    else \<exists>s. VerifyChecksum_loop H E (concat (map enc_rec rs)) f entries i = Inl s \<and> IsCorruption s"
  using assms
proof (induction rs arbitrary: f i)
  case Nil
  then show ?case by (simp add: VerifyChecksum_loop.simps)
next
  case (Cons r rs)
  let ?f = "f\<lparr>br_key := [], br_value := [], br_cf := 0\<rparr>"
  let ?g = "fields_of False r ?f"
  have rd: "ReadRecordFromWriteBatch E False ?f (concat (map enc_rec (r # rs))) =
      Inr (?g, concat (map enc_rec rs))"
    using Cons.prems(1) by (simp add: read_rec)
  show ?case
  proof (cases "counts r")
    case False
    note step = checksum_tag_fields(2) [of ?f, OF _ False, simplified]
    have "rec_prots H r = []" using length_rec_prots [of H r] False by simp
    moreover have "i < length entries \<Longrightarrow> VerifyChecksum_loop H E (concat (map enc_rec (r # rs))) f entries i =
        VerifyChecksum_loop H E (concat (map enc_rec rs)) ?g entries i"
      using rd by (subst VerifyChecksum_loop.simps) (simp add: step)
    moreover have "i \<ge> length entries \<Longrightarrow> prots_of H rs = [] \<and>
        VerifyChecksum_loop H E (concat (map enc_rec (r # rs))) f entries i = Inr (length entries)"
      using Cons.prems(2) False
      by (subst VerifyChecksum_loop.simps) (auto simp: prots_of_Nil_iff)
    ultimately show ?thesis using Cons.IH [of i ?g] Cons.prems False
      by (cases "i < length entries") (simp_all split: if_splits)
  next
    case True
    then obtain t where t: "checksum_tag (br_tag ?g) = Inr (Some t)"
      and prot: "rec_prots H r = [protect H (br_cf ?g) (br_key ?g) (br_value ?g) t]"
      using checksum_tag_fields(1) [of ?f r H] by auto
    have i: "i < length entries" using Cons.prems(2) True by simp
    let ?s = "GetStatus (StripKVO H (StripC H (entries ! i) (br_cf ?g)) (br_key ?g) (br_value ?g) t)"
    have loop: "VerifyChecksum_loop H E (concat (map enc_rec (r # rs))) f entries i =
        (if \<not> ok ?s then Inl ?s
         else VerifyChecksum_loop H E (concat (map enc_rec rs)) ?g entries (i + 1))"
      using rd i t by (subst VerifyChecksum_loop.simps) (simp add: Let_def)
    have "drop i entries = entries ! i # drop (i + 1) entries"
      using i by (simp add: Cons_nth_drop_Suc)
    then show ?thesis
      using Cons.IH [of "i + 1" ?g] Cons.prems True loop prot
      by (auto simp: strip_protect_ok GetStatus_corrupt split: if_splits)
  qed
qed

lemma VerifyChecksum_iff:
  assumes "wb_rep b = enc_batch seq rs" and "\<forall>r \<in> set rs. rec_ok r" and "n_counted rs < 2 ^ 32"
    and "wb_prot_info b = Some es" and "length es = n_counted rs"
  shows "VerifyChecksum H E b = Status_OK \<longleftrightarrow> es = prots_of H rs"
    and "es \<noteq> prots_of H rs \<Longrightarrow> IsCorruption (VerifyChecksum H E b)"
proof -
  have c: "unat (Count b) = length es"
    using assms by (simp add: Count_enc unat_of_nat_u32)
  have "drop kHeader (wb_rep b) = concat (map enc_rec rs)"
    using assms(1) by (simp add: kHeader_def)
  then show "VerifyChecksum H E b = Status_OK \<longleftrightarrow> es = prots_of H rs"
    and "es \<noteq> prots_of H rs \<Longrightarrow> IsCorruption (VerifyChecksum H E b)"
    using VerifyChecksum_loop_spec [of rs 0 es H BatchRecord_init] assms c
    by (auto simp: VerifyChecksum_def status_defs split: if_splits)
qed

end

lemma iterate_accepts:
  "accepts h g rs \<Longrightarrow> ok s \<Longrightarrow> \<exists>s' c found'. ok s' \<and> 
   iterate_spec h st s rs eb found = (foldl g st rs, Inr (s', c, found'))"
proof (induction rs arbitrary: st s eb found)
  case (Cons r rs)
  have "accepts h g rs" using Cons.prems(1) by (simp add: accepts_def)
  then show ?case using Cons.prems Cons.IH [OF _ ok_simps(1)] by (simp add: accepts_def Let_def)
qed auto

context varint_decoder
begin

lemma Iterate_accepts:
  assumes "wb_rep b = enc_batch seq rs" and "\<forall>r \<in> set rs. rec_ok r" and "accepts h g rs"
  shows "Iterate E b h st = (Status_OK, foldl g st rs)"
  using iterate_accepts [OF assms(3) ok_simps(1), of st True 0]
  by (auto simp: Iterate_refines [OF assms(1,2)])

end

lemma updater_accepts:
  "accepts (ProtectionInfoUpdater H) (\<lambda>es r. es @ rec_prots H r) rs"
  unfolding accepts_def
proof (intro conjI allI impI)
  fix st r eb
  show "deliver (ProtectionInfoUpdater H) st r eb = (Status_OK, st @ rec_prots H r)"
    by (cases r) (simp_all add: ProtectionInfoUpdater_def Handler_default_def UpdateProtInfo_def
        UpdateProtInfo_parts_def protect_def ProtectKVO_parts_concat PutFixed64_eq)
qed (simp add: ProtectionInfoUpdater_def Handler_default_def)

lemma classifier_accepts:
  assumes "RNoop \<notin> set rs"
  shows "accepts BatchContentClassifier (\<lambda>fl r. fl OR rec_flags r) rs"
  unfolding accepts_def
proof (intro conjI allI impI)
  fix st r eb
  assume "r \<in> set rs"
  with assms have "r \<noteq> RNoop" by auto
  then show "deliver BatchContentClassifier st r eb = (Status_OK, st OR rec_flags r)"
    by (cases r) (simp_all add: BatchContentClassifier_def Handler_default_def or_state_def or.assoc)
qed (simp add: BatchContentClassifier_def Handler_default_def)

lemma foldl_prots: "foldl (\<lambda>es r. es @ rec_prots H r) acc rs = acc @ prots_of H rs"
  by (induction rs arbitrary: acc) simp_all

lemma bit_foldl_flags: "bit (foldl (\<lambda>a r. a OR rec_flags r) acc rs) n \<longleftrightarrow>
    bit acc n \<or> (\<exists>r \<in> set rs. bit (rec_flags r) n)"
  by (induction rs arbitrary: acc) (auto simp: bit_or_iff)

lemma bit_flags_of: "bit (flags_of rs) n \<longleftrightarrow> (\<exists>r \<in> set rs. bit (rec_flags r) n)"
  by (simp add: flags_of_def bit_foldl_flags)

end
