(* ===== verification/Write_Batch_Props.thy ===== *)
theory Write_Batch_Props
  imports Write_Batch_Spec
begin

text \<open>
  The properties of write batches: \<^verbatim>\<open>Iterate\<close> implements the iteration on records, the builders
  append one record or leave the batch alone, save points restore the batch, markers of two-phase
  commit, appending batches, the lazily computed content flags, and the verification of protection
  information. The multi-byte varint reader is any function that meets the contract
  \<open>varint_decoder\<close>; the witnesses use the base-128 reader.
\<close>

section \<open>Lemmas on whole batches\<close>

lemma SetSequence_enc: "wb_rep b = enc_batch seq rs \<Longrightarrow> wb_rep (SetSequence b seq') = enc_batch seq' rs"
  by (simp add: SetSequence_def enc_batch_def)

lemma apply_op_ok:
  assumes "batch_holds H b seq rs" and "n_counted rs + 1 < 2 ^ 32" and "wb_max_bytes b = 0"
    and "ok (op_check W op)" and "rec_ok (op_rec W op)"
  shows "\<exists>b'. apply_op H W b op = (Status_OK, b') \<and> batch_holds H b' seq (rs @ [op_rec W op])
    \<and> frame b' = frame b"
proof -
  have "n_counted (rs @ [op_rec W op]) < 2 ^ 32"
    using assms(2) counts_le [of "op_rec W op"] by simp
  then show ?thesis
    using batch_holds_append [OF assms(1,5)] assms(3,4) by (simp add: apply_op_holds [OF assms(1)])
qed

lemma batch_holds_more [simp]:
  "batch_holds H (b\<lparr>wb_has_key_with_ts := x\<rparr>) seq rs = batch_holds H b seq rs"
  "batch_holds H (b\<lparr>wb_needs_in_place_update_ts := x\<rparr>) seq rs = batch_holds H b seq rs"
  "batch_holds H (MaybeTrackTimestampSize b cf n) seq rs = batch_holds H b seq rs"
  "wb_needs_in_place_update_ts (MaybeTrackTimestampSize b cf n) = wb_needs_in_place_update_ts b"
  by (simp_all add: batch_holds_def MaybeTrackTimestampSize_def split: option.split)

lemma frame_needs_ts:
  assumes "frame b' = frame b"
  shows "wb_needs_in_place_update_ts b' = wb_needs_in_place_update_ts b"
  using arg_cong [where f = wb_needs_in_place_update_ts,
      OF frame_eqD [where x = "[]" and y = 0 and z = None, OF assms]] by simp

lemma is_cleared_iff: "is_cleared sp \<longleftrightarrow> sp_size sp = 0 \<and> sp_count sp = 0 \<and> sp_content_flags sp = 0"
  by (simp add: is_cleared_def or_eq_0_iff unat_eq_0)

lemma batch_holds_count: "batch_holds H b seq rs \<Longrightarrow> unat (Count b) = n_counted rs"
  unfolding batch_holds_def by (simp only: Count_enc unat_of_nat_u32)

lemma bit_31_unat: "bit (w :: u32) 31 \<longleftrightarrow> \<not> unat w < 2 ^ 31"
proof -
  have lt: "unat w < 2 ^ 32" by (rule order_less_le_trans [OF unsigned_less]) simp
  have "bit w 31 \<longleftrightarrow> bit (unat w) 31" by (simp add: bit_unsigned_iff)
  also have "\<dots> \<longleftrightarrow> odd (unat w div 2 ^ 31)" by (simp only: bit_iff_odd)
  also have "unat w div 2 ^ 31 = (if unat w < 2 ^ 31 then 0 else 1)"
    using lt by (auto simp: div_nat_eqI)
  finally show ?thesis by simp
qed

lemma sint_u32: "sint (w :: u32) = (if unat w < 2 ^ 31 then int (unat w) else int (unat w) - 2 ^ 32)"
proof -
  have "sint w = uint w - (if bit w 31 then 2 ^ 32 else 0)"
    using uint_lt2p [of w] by (simp add: sint_uint signed_take_bit_eq_take_bit_minus bit_uint_iff take_bit_int_eq_self)
  then show ?thesis unfolding bit_31_unat by simp
qed

text \<open>
  What \<^verbatim>\<open>Append\<close> takes of its source: all records, or those before the WAL termination point if it is
  asked for and set.
\<close>

definition append_part :: "bool \<Rightarrow> WriteBatch \<Rightarrow> SequenceNumber \<Rightarrow> BRec list \<Rightarrow> BRec list \<Rightarrow> u32 \<Rightarrow> bool" where
  "append_part wal_only src seq pre post fl \<longleftrightarrow>
     (if wal_only \<and> \<not> is_cleared (wb_wal_term_point src)
      then wb_wal_term_point src = \<lparr>sp_size = length (enc_batch seq pre),
        sp_count = of_nat (n_counted pre), sp_content_flags = fl\<rparr>
      else post = [] \<and> fl = wb_content_flags src)"

lemma append_part_ends:
  assumes "wb_rep src = enc_batch seq (pre @ post)" "append_part wal_only src seq pre post fl"
  shows "(if wal_only \<and> \<not> is_cleared (wb_wal_term_point src)
      then (sp_size (wb_wal_term_point src) - kHeader, sint (sp_count (wb_wal_term_point src)),
        sp_content_flags (wb_wal_term_point src))
      else (length (wb_rep src) - kHeader, sint (Count src), wb_content_flags src)) =
      (length (concat (map enc_rec pre)), sint (of_nat (n_counted pre) :: u32), fl)"
  using assms(2) Count_enc [OF assms(1)] by (auto simp: append_part_def assms(1) kHeader_def split: if_splits)

lemma Append_holds:
  assumes "batch_holds H dst seq rs" "batch_holds H src seq' (pre @ post)"
    and "n_counted rs + n_counted pre < 2 ^ 32"
    and "n_counted rs = 0 \<or> (wb_prot_info dst = None) = (wb_prot_info src = None)"
    and "append_part wal_only src seq' pre post fl"
  shows "Append dst src wal_only =
    (if wb_prot_info src \<noteq> None \<and> 2 ^ 31 \<le> n_counted pre then None
     else Some (Status_OK, dst\<lparr>wb_rep := enc_batch seq (rs @ pre),
       wb_content_flags := wb_content_flags dst OR fl,
       wb_prot_info := (if wb_prot_info src = None then None else Some (prots_of H (rs @ pre)))\<rparr>))"
proof -
  have rep: "wb_rep src = enc_batch seq' (pre @ post)" "wb_rep dst = enc_batch seq rs"
    using assms(1,2) by (auto simp: batch_holds_def)
  have cnt: "unat (Count src) = n_counted pre + n_counted post" "unat (Count dst) = n_counted rs"
    "Count dst = of_nat (n_counted rs)" "unat (of_nat (n_counted pre) :: u32) = n_counted pre"
    "Count dst = 0 \<longleftrightarrow> n_counted rs = 0"
    using batch_holds_count [OF assms(1)] batch_holds_count [OF assms(2)] assms(1,3)
    by (simp_all add: batch_holds_def Count_enc unat_of_nat_u32 flip: unat_eq_0)
  have prot: "wb_prot_info src = None \<or> wb_prot_info src = Some (prots_of H pre @ prots_of H post)"
    "wb_prot_info dst = None \<and> (wb_prot_info src \<noteq> None \<longrightarrow> prots_of H rs = []) \<or> wb_prot_info dst = Some (prots_of H rs)"
    using assms(1,2,4) by (auto simp: batch_holds_def prots_of_Nil_iff)
  have sint: "sint (of_nat (n_counted pre) :: u32) =
      (if n_counted pre < 2 ^ 31 then int (n_counted pre) else int (n_counted pre) - 2 ^ 32)"
    unfolding sint_u32 cnt(4) ..
  have guard: "(Count dst = 0 \<or> (wb_prot_info dst = None) = (wb_prot_info src = None)) = True"
    using assms(4) cnt(5) by simp
  have add: "word_of_int (sint (of_nat (n_counted pre) :: u32)) = (of_nat (n_counted pre) :: u32)" by simp
  have fin: "SetCount (dst\<lparr>wb_prot_info := es\<rparr>) (of_nat (n_counted rs) + of_nat (n_counted pre)) =
      dst\<lparr>wb_prot_info := es, wb_rep := EncodeFixed64 seq @
        EncodeFixed32 (of_nat (n_counted rs) + of_nat (n_counted pre)) @ concat (map enc_rec rs)\<rparr>" for es
    by (simp add: SetCount_def rep(2) enc_batch_def)
  have c: "Count (dst\<lparr>wb_prot_info := es\<rparr>) = of_nat (n_counted rs)" for es
    using cnt(3) by (simp add: Count_def)
  have small: "n_counted pre < 2 ^ 32" using assms(3) by simp
  show ?thesis
    unfolding Append_def guard append_part_ends [OF rep(1) assms(5)] Let_def prod.case add c
    using prot small
    by (elim disjE conjE; simp add: cnt(1,2) sint fin c rep kHeader_def or_flags_def enc_batch_def)
qed

lemma Append_batch_holds:
  assumes "batch_holds H dst seq rs" "batch_holds H src seq' (pre @ post)"
    and "n_counted rs + n_counted pre < 2 ^ 32"
  shows "batch_holds H (dst\<lparr>wb_rep := enc_batch seq (rs @ pre), wb_content_flags := fl,
      wb_prot_info := (if p then None else Some (prots_of H (rs @ pre)))\<rparr>) seq (rs @ pre)"
  using assms by (auto simp: batch_holds_def)

lemma ComputeContentFlags_of_rep:
  assumes "varint_decoder E" and "\<forall>r \<in> set rs. rec_ok r" and "RNoop \<notin> set rs"
  shows "fst (ComputeContentFlags E (WriteBatch_of_rep (enc_batch seq rs))) = flags_of rs"
  using varint_decoder.Iterate_accepts [OF assms(1) _ assms(2) classifier_accepts [OF assms(3)],
      of "WriteBatch_of_rep (enc_batch seq rs)" seq 0]
  by (simp add: ComputeContentFlags_def WriteBatch_of_rep_def flags_of_def)

lemmas Has_defs = HasPut_def HasTimedPut_def HasPutEntity_def HasDelete_def HasSingleDelete_def
  HasDeleteRange_def HasMerge_def HasBeginPrepare_def HasEndPrepare_def HasCommit_def HasRollback_def

lemma flags_of_Nil [simp]: "flags_of [] = 0"
  by (simp add: flags_of_def)

lemma flags_of_snoc: "flags_of (rs @ [r]) = flags_of rs OR rec_flags r"
  by (simp add: flags_of_def)

lemma or_and_eq_0: "((a :: u32) OR b) AND c = 0 \<longleftrightarrow> a AND c = 0 \<and> b AND c = 0"
  by (simp add: bit.conj_disj_distrib2 or_eq_0_iff)

lemma flags_of_and: "flags_of rs AND m \<noteq> 0 \<longleftrightarrow> (\<exists>r \<in> set rs. rec_flags r AND m \<noteq> 0)"
  by (induction rs rule: rev_induct) (auto simp: flags_of_snoc or_and_eq_0)

lemma rec_flag_tests:
  "rec_flags r AND HAS_PUT \<noteq> 0 \<longleftrightarrow> (\<exists>cf k v. r = RPut cf k v)"
  "rec_flags r AND HAS_TIMED_PUT \<noteq> 0 \<longleftrightarrow> (\<exists>cf k v t. r = RTimedPut cf k v t)"
  "rec_flags r AND HAS_PUT_ENTITY \<noteq> 0 \<longleftrightarrow> (\<exists>cf k v. r = RPutEntity cf k v)"
  "rec_flags r AND HAS_DELETE \<noteq> 0 \<longleftrightarrow> (\<exists>cf k. r = RDelete cf k)"
  "rec_flags r AND HAS_SINGLE_DELETE \<noteq> 0 \<longleftrightarrow> (\<exists>cf k. r = RSingleDelete cf k)"
  "rec_flags r AND HAS_DELETE_RANGE \<noteq> 0 \<longleftrightarrow> (\<exists>cf k e. r = RDeleteRange cf k e)"
  "rec_flags r AND HAS_MERGE \<noteq> 0 \<longleftrightarrow> (\<exists>cf k v. r = RMerge cf k v)"
  "rec_flags r AND HAS_BEGIN_PREPARE \<noteq> 0 \<longleftrightarrow>
    r = RBeginPrepare \<or> r = RBeginPersistedPrepare \<or> r = RBeginUnprepare"
  "rec_flags r AND HAS_END_PREPARE \<noteq> 0 \<longleftrightarrow> (\<exists>x. r = REndPrepare x)"
  "rec_flags r AND HAS_COMMIT \<noteq> 0 \<longleftrightarrow>
    (\<exists>x. r = RCommit x) \<or> (\<exists>x ts. r = RCommitTs x ts)"
  "rec_flags r AND HAS_ROLLBACK \<noteq> 0 \<longleftrightarrow> (\<exists>x. r = RRollback x)"
  by (cases r; simp)+

lemma flag_tests:
  "flags_of rs AND HAS_PUT \<noteq> 0 \<longleftrightarrow> (\<exists>cf k v. RPut cf k v \<in> set rs)"
  "flags_of rs AND HAS_TIMED_PUT \<noteq> 0 \<longleftrightarrow> (\<exists>cf k v t. RTimedPut cf k v t \<in> set rs)"
  "flags_of rs AND HAS_PUT_ENTITY \<noteq> 0 \<longleftrightarrow> (\<exists>cf k v. RPutEntity cf k v \<in> set rs)"
  "flags_of rs AND HAS_DELETE \<noteq> 0 \<longleftrightarrow> (\<exists>cf k. RDelete cf k \<in> set rs)"
  "flags_of rs AND HAS_SINGLE_DELETE \<noteq> 0 \<longleftrightarrow> (\<exists>cf k. RSingleDelete cf k \<in> set rs)"
  "flags_of rs AND HAS_DELETE_RANGE \<noteq> 0 \<longleftrightarrow> (\<exists>cf k e. RDeleteRange cf k e \<in> set rs)"
  "flags_of rs AND HAS_MERGE \<noteq> 0 \<longleftrightarrow> (\<exists>cf k v. RMerge cf k v \<in> set rs)"
  "flags_of rs AND HAS_BEGIN_PREPARE \<noteq> 0 \<longleftrightarrow>
    RBeginPrepare \<in> set rs \<or> RBeginPersistedPrepare \<in> set rs \<or> RBeginUnprepare \<in> set rs"
  "flags_of rs AND HAS_END_PREPARE \<noteq> 0 \<longleftrightarrow> (\<exists>x. REndPrepare x \<in> set rs)"
  "flags_of rs AND HAS_COMMIT \<noteq> 0 \<longleftrightarrow>
    (\<exists>x. RCommit x \<in> set rs) \<or> (\<exists>x ts. RCommitTs x ts \<in> set rs)"
  "flags_of rs AND HAS_ROLLBACK \<noteq> 0 \<longleftrightarrow> (\<exists>x. RRollback x \<in> set rs)"
  unfolding flags_of_and rec_flag_tests by blast+

section \<open>Concrete parameters for the witnesses\<close>

definition sum_hash :: hash64 where
  "sum_hash data seed = foldl (\<lambda>a b. 31 * a + ucast b) seed data"

definition plain_columns :: wide_column_ext where
  "plain_columns = \<lparr>SortColumns = (\<lambda>cs. cs),
     Serialize = (\<lambda>cs. (Status_OK, concat (map (\<lambda>(n, v). n @ v) cs)))\<rparr>"

section \<open>Properties\<close>

text \<open>
  C1. \<^verbatim>\<open>Iterate\<close> on a batch that encodes a list of records behaves, for every handler, as the
  iteration on the records: it asks the handler to continue before each record, delivers the
  records in order with their arguments, delivers a record once more when the handler answers
  \<^verbatim>\<open>TryAgain\<close>, stops at the first other failure and returns its status. Otherwise it returns OK
  if the handler stopped it or the count in the header is that of the updates, and corruption for a wrong
  count.
\<close>

theorem Iterate_refines_records:
  assumes "varint_decoder E" and "wb_rep b = EncodeFixed64 seq @ EncodeFixed32 n @ concat (map enc_rec rs)"
    and "\<forall>r \<in> set rs. rec_ok r"
  shows "Iterate E b h st =
    (case iterate_spec h st Status_OK rs True 0 of
       (st, Inl s) \<Rightarrow> (s, st)
     | (st, Inr (s, c, found)) \<Rightarrow>
         (if \<not> ok s then s
          else if c \<and> n \<noteq> of_nat (n_counted rs) then Status_Corruption ''WriteBatch has wrong count'' []
          else Status_OK, st))"
  using assms by (rule varint_decoder.Iterate_refines_count)

theorem Iterate_refines_records_witness:
  "Iterate leb128_ext (WriteBatch_of_rep (enc_batch 7 [RPut 3 [1] [2], RDelete 0 [1]]))
     BatchContentClassifier 0 = (Status_OK, HAS_PUT OR HAS_DELETE)"
  using Iterate_refines_records [OF leb.varint_decoder_axioms,
      of "WriteBatch_of_rep (enc_batch 7 [RPut 3 [1] [2], RDelete 0 [1]])" 7
        2 "[RPut 3 [1] [2], RDelete 0 [1]]" BatchContentClassifier 0]
  by (simp add: WriteBatch_of_rep_def enc_batch_def fits_def BatchContentClassifier_def Handler_default_def
      or_state_def Let_def)

text \<open>
  C7. Every builder either refuses its arguments, or would exceed the size limit, and then leaves
  the batch exactly as it was; or it returns OK, the bytes are those of the batch with one more record, the one the
  call describes, and one more update in the count if the record is one, the content flags are brought up to date
  and every other field is unchanged. The refused arguments are those of \<open>op_check\<close>: keys, values and
  entities beyond the 32-bit limit in the calls that store values. If the slices of the
  record fit their 32-bit length prefixes, the batch holds the record, readable and with its protection entry; for
  \<^verbatim>\<open>Put\<close>, \<^verbatim>\<open>PutEntity\<close>, \<^verbatim>\<open>Merge\<close> and a \<^verbatim>\<open>TimedPut\<close> without a write time the check ensures that. The deletions,
  blob indexes, log data and markers have no such check, and \<^verbatim>\<open>TimedPut\<close> with a write time checks too little.
\<close>

theorem builder_appends_record:
  assumes "batch_holds H b seq rs" and "n_counted rs + 1 < 2 ^ 32"
  shows "(let (s, b') = apply_op H W b op in
    if \<not> ok (op_check W op) then s = op_check W op \<and> b' = b
    else if op_limited op \<and> wb_max_bytes b \<noteq> 0
       \<and> wb_max_bytes b < length (wb_rep b) + length (enc_rec (op_rec W op))
    then s = Status_MemoryLimit \<and> b' = b
    else s = Status_OK \<and> wb_rep b' = enc_batch seq (rs @ [op_rec W op])
       \<and> (op_checked op \<or> rec_ok (op_rec W op) \<longrightarrow> batch_holds H b' seq (rs @ [op_rec W op]))
       \<and> wb_content_flags b' = wb_content_flags b OR op_flags W op \<and> frame b' = frame b)"
proof -
  have "n_counted (rs @ [op_rec W op]) < 2 ^ 32"
    using assms(2) counts_le [of "op_rec W op"] by simp
  then have "batch_holds H (wb_append H b (op_flags W op) (op_rec W op)) seq (rs @ [op_rec W op])"
    if "rec_ok (op_rec W op)"
    using batch_holds_append [OF assms(1) that] by blast
  moreover have "wb_content_flags (wb_append H b (op_flags W op) (op_rec W op)) =
      wb_content_flags b OR op_flags W op"
    by (simp add: wb_append_def SetCount_def)
  ultimately show ?thesis
    using op_checked_rec_ok [of op W] by (auto simp: apply_op_holds [OF assms(1)] wb_append_rep [OF assms(1)])
qed

theorem builder_appends_record_witness:
  "batch_holds sum_hash (snd (WBI_Put sum_hash (WriteBatch_new 0 0 8 0) 5 [1, 2] [3])) 0 [RPut 5 [1, 2] [3]]"
  using builder_appends_record [OF batch_holds_new [of sum_hash 0 0 8 0], of plain_columns "OPut 5 [1, 2] [3]"]
  by (simp add: fits_def size_check_def uint32_max_def WriteBatch_new_def split: prod.splits)

text \<open>
  C2. Rolling back to a save point undoes whatever sequence of builder calls was made since it was
  set, successful or not: the bytes, the count, the content flags, the protection entries and the
  stack of save points are those before \<^verbatim>\<open>SetSavePoint\<close>.
\<close>

theorem rollback_undoes_operations:
  assumes "batch_holds H b seq rs" and "\<forall>op \<in> set ops. rec_ok (op_rec W op)"
    and "n_counted rs + length ops < 2 ^ 32"
  shows "RollbackToSavePoint (run_ops H W (SetSavePoint b) ops) =
    (Status_OK, b\<lparr>wb_save_points := Some (case wb_save_points b of None \<Rightarrow> [] | Some st \<Rightarrow> st)\<rparr>)"
proof -
  have "batch_holds H (SetSavePoint b) seq rs"
    using assms(1) by (simp add: batch_holds_def SetSavePoint_def)
  from run_ops_holds [OF this assms(2,3)] show ?thesis
    using rollback_restores [OF assms(1)] by blast
qed

theorem rollback_undoes_operations_witness:
  "wb_rep (snd (RollbackToSavePoint (run_ops sum_hash plain_columns (SetSavePoint (WriteBatch_new 0 0 0 0))
     [OPut 1 [7] [8], ODelete 0 [9]]))) = replicate 12 0"
  using rollback_undoes_operations [OF batch_holds_new [of sum_hash 0 0 0 0],
      of "[OPut 1 [7] [8], ODelete 0 [9]]" plain_columns]
  by (simp add: fits_def WriteBatch_new_def kHeader_def)

text \<open>
  C8. \<^verbatim>\<open>VerifyChecksum\<close> is exact: for a batch with as many protection entries as updates it returns OK
  if every entry is the one computed from its record, for whatever hash, and corruption otherwise.
\<close>

theorem VerifyChecksum_exact:
  assumes "varint_decoder E" and "wb_rep b = enc_batch seq rs" and "\<forall>r \<in> set rs. rec_ok r"
    and "n_counted rs < 2 ^ 32" and "wb_prot_info b = Some es" and "length es = n_counted rs"
  shows "if es = prots_of H rs then VerifyChecksum H E b = Status_OK
    else IsCorruption (VerifyChecksum H E b)"
  using varint_decoder.VerifyChecksum_iff [OF assms] by simp

theorem VerifyChecksum_exact_witness:
  "VerifyChecksum sum_hash leb128_ext ((WriteBatch_of_rep (enc_batch 7 [RNoop, RPut 3 [1] [2]]))
     \<lparr>wb_prot_info := Some (prots_of sum_hash [RPut 3 [1] [2]])\<rparr>) = Status_OK"
  using VerifyChecksum_exact [OF leb.varint_decoder_axioms,
      of "(WriteBatch_of_rep (enc_batch 7 [RNoop, RPut 3 [1] [2]]))
        \<lparr>wb_prot_info := Some (prots_of sum_hash [RPut 3 [1] [2]])\<rparr>" 7 "[RNoop, RPut 3 [1] [2]]"
        "prots_of sum_hash [RPut 3 [1] [2]]" sum_hash]
  by (simp add: WriteBatch_of_rep_def fits_def)

text \<open>
  C16. Recomputing protection information at eight bytes per key gives an unprotected batch exactly the
  entries that the builders would have collected, so that \<^verbatim>\<open>VerifyChecksum\<close> accepts it; a
  checksum of the whole batch that does not match is reported as corruption; at zero bytes the
  entries are dropped.
\<close>

theorem UpdateProtectionInfo_recomputes:
  assumes "varint_decoder E" and "batch_holds H b seq rs" and "wb_prot_info b = None"
  shows "UpdateProtectionInfo H xxh E b 8 c =
      (if c = None \<or> c = Some (xxh (wb_rep b)) then Status_OK
       else Status_Corruption ''Write batch content corrupted.'' [],
       b\<lparr>wb_prot_info := Some (prots_of H rs)\<rparr>)
    \<and> VerifyChecksum H E (b\<lparr>wb_prot_info := Some (prots_of H rs)\<rparr>) = Status_OK
    \<and> UpdateProtectionInfo H xxh E (b\<lparr>wb_prot_info := Some (prots_of H rs)\<rparr>) 0 c = (Status_OK, b)"
proof -
  have "Iterate E b (ProtectionInfoUpdater H) [] = (Status_OK, prots_of H rs)"
    using varint_decoder.Iterate_accepts [OF assms(1) _ _ updater_accepts, of b seq rs H "[]"] assms(2)
    by (simp add: batch_holds_def foldl_prots)
  moreover have "VerifyChecksum H E (b\<lparr>wb_prot_info := Some (prots_of H rs)\<rparr>) = Status_OK"
    using varint_decoder.VerifyChecksum_iff(1) [OF assms(1), of "b\<lparr>wb_prot_info := Some (prots_of H rs)\<rparr>"
        seq rs "prots_of H rs" H] assms(2)
    by (simp add: batch_holds_def)
  moreover have "b\<lparr>wb_prot_info := None\<rparr> = b" using assms(3) by simp
  ultimately show ?thesis using assms(3)
    by (cases c) (simp_all add: UpdateProtectionInfo_def Let_def)
qed

theorem UpdateProtectionInfo_recomputes_witness:
  "fst (UpdateProtectionInfo sum_hash (\<lambda>data. 0) leb128_ext (WriteBatch_new 0 0 0 0) 8 None) = Status_OK"
  using UpdateProtectionInfo_recomputes [OF leb.varint_decoder_axioms batch_holds_new [of sum_hash 0 0 0 0], of "\<lambda>data. 0" None]
  by (simp add: WriteBatch_new_def)

text \<open>
  C17. For a batch without no-op markers the lazily computed content flags are exact: a batch
  deserialized from its bytes reports a put, a timed put, an entity put, a deletion, a single deletion, a
  range deletion, a merge, or a transaction marker if and only if it holds such a record, that is,
  if and only if \<^verbatim>\<open>Iterate\<close> makes the corresponding handler call.
\<close>

theorem content_flags_exact:
  assumes "varint_decoder E" and "\<forall>r \<in> set rs. rec_ok r" and "RNoop \<notin> set rs"
  shows "let b = WriteBatch_of_rep (enc_batch seq rs) in
    (HasPut E b \<longleftrightarrow> (\<exists>cf k v. RPut cf k v \<in> set rs))
    \<and> (HasTimedPut E b \<longleftrightarrow> (\<exists>cf k v t. RTimedPut cf k v t \<in> set rs))
    \<and> (HasPutEntity E b \<longleftrightarrow> (\<exists>cf k v. RPutEntity cf k v \<in> set rs))
    \<and> (HasDelete E b \<longleftrightarrow> (\<exists>cf k. RDelete cf k \<in> set rs))
    \<and> (HasSingleDelete E b \<longleftrightarrow> (\<exists>cf k. RSingleDelete cf k \<in> set rs))
    \<and> (HasDeleteRange E b \<longleftrightarrow> (\<exists>cf k e. RDeleteRange cf k e \<in> set rs))
    \<and> (HasMerge E b \<longleftrightarrow> (\<exists>cf k v. RMerge cf k v \<in> set rs))
    \<and> (HasBeginPrepare E b \<longleftrightarrow>
         RBeginPrepare \<in> set rs \<or> RBeginPersistedPrepare \<in> set rs \<or> RBeginUnprepare \<in> set rs)
    \<and> (HasEndPrepare E b \<longleftrightarrow> (\<exists>x. REndPrepare x \<in> set rs))
    \<and> (HasCommit E b \<longleftrightarrow> (\<exists>x. RCommit x \<in> set rs) \<or> (\<exists>x ts. RCommitTs x ts \<in> set rs))
    \<and> (HasRollback E b \<longleftrightarrow> (\<exists>x. RRollback x \<in> set rs))"
proof -
  have "fst (ComputeContentFlags E (WriteBatch_of_rep (enc_batch seq rs))) = flags_of rs"
    using assms by (rule ComputeContentFlags_of_rep)
  then show ?thesis
    by (simp only: Let_def Has_defs flag_tests)
qed

theorem content_flags_exact_witness:
  "HasPut leb128_ext (WriteBatch_of_rep (enc_batch 1 [RDelete 0 [5], RPut 2 [1] [2]]))
   \<and> \<not> HasMerge leb128_ext (WriteBatch_of_rep (enc_batch 1 [RDelete 0 [5], RPut 2 [1] [2]]))"
  using content_flags_exact [OF leb.varint_decoder_axioms, of "[RDelete 0 [5], RPut 2 [1] [2]]" 1]
  by (simp add: fits_def Let_def)

text \<open>
  C20. The assertions of \<^verbatim>\<open>Iterate\<close> hold on every batch made by builder calls, for every handler that
  accepts transaction and no-op markers and does not answer \<^verbatim>\<open>TryAgain\<close>, apart from a call of
  \<^verbatim>\<open>InsertBeginPrepare\<close> for an unprepared batch and a commit with an empty timestamp. They fail on a batch with
  an unprepared begin marker from \<^verbatim>\<open>InsertBeginPrepare\<close>, which does not set the flag that \<^verbatim>\<open>Iterate\<close> asks for.
  And they fail when the content flags of a deserialized batch that starts with a no-op
  marker are computed, since the classifier does not handle \<^verbatim>\<open>MarkNoop\<close>. With assertions compiled out the
  computation stops there, its error status is ignored, and the batch claims to hold no put whatever follows.
\<close>

theorem Iterate_assertions:
  assumes "varint_decoder E"
  shows "((\<forall>op \<in> set ops. rec_ok (op_rec W op) \<and> op_asserted op) \<and> length ops < 2 ^ 32
        \<and> markers_ok h \<and> never_try_again h \<longrightarrow>
      Iterate_asserts E (run_ops H W (WriteBatch_new reserved max_bytes prot ts_sz) ops) h st)
    \<and> (fst (h_Continue h st) \<longrightarrow>
      \<not> Iterate_asserts E (snd (InsertBeginPrepare (WriteBatch_new reserved max_bytes prot ts_sz) False True)) h st)
    \<and> (let b = WriteBatch_of_rep (enc_batch seq (RNoop # rs)) in
      \<not> Iterate_asserts E b BatchContentClassifier 0
      \<and> ((\<forall>r \<in> set rs. rec_ok r) \<longrightarrow> fst (ComputeContentFlags E b) = 0 \<and> \<not> HasPut E b))"
proof (intro conjI impI)
  let ?new = "WriteBatch_new reserved max_bytes prot ts_sz"
  assume ops: "(\<forall>op \<in> set ops. rec_ok (op_rec W op) \<and> op_asserted op) \<and> length ops < 2 ^ 32
    \<and> markers_ok h \<and> never_try_again h"
  then obtain rs' where "batch_holds H (run_ops H W ?new ops) 0 rs'"
    "\<forall>r \<in> set rs'. rec_covered (wb_content_flags (run_ops H W ?new ops)) r"
    using run_ops_covered [OF batch_holds_new [of H reserved max_bytes prot ts_sz], of ops W] by auto
  then show "Iterate_asserts E (run_ops H W ?new ops) h st"
    using varint_decoder.Iterate_asserts_hold [OF assms, of "run_ops H W ?new ops" 0 rs' h st] ops
    by (simp add: batch_holds_def)
next
  let ?b = "snd (InsertBeginPrepare (WriteBatch_new reserved max_bytes prot ts_sz) False True)"
  assume "fst (h_Continue h st)"
  moreover have "drop 12 (wb_rep ?b) = enc_rec RBeginUnprepare @ []" "12 \<le> length (wb_rep ?b)"
    "wb_content_flags ?b = HAS_BEGIN_PREPARE"
    by (simp_all add: InsertBeginPrepare_def WriteBatch_new_def push_defs GetBeginPrepareType_def kHeader_def Let_def)
  ultimately show "\<not> Iterate_asserts E ?b h st"
    using varint_decoder.loop_asserts_read [OF assms, of RBeginUnprepare Status_OK HAS_BEGIN_PREPARE h st "[]"]
    by (auto simp: Iterate_asserts_def kHeader_def dispatch_asserts_def flag_assert_def split: prod.splits)
next
  let ?b = "WriteBatch_of_rep (enc_batch seq (RNoop # rs))"
  have "\<not> Iterate_asserts E ?b BatchContentClassifier 0"
    using varint_decoder.loop_asserts_read [OF assms, of RNoop Status_OK DEFERRED BatchContentClassifier 0]
    by (simp add: Iterate_asserts_def kHeader_def WriteBatch_of_rep_def dispatch_asserts_def
        BatchContentClassifier_def Handler_default_def)
  moreover have "fst (ComputeContentFlags E ?b) = 0" if "\<forall>r \<in> set rs. rec_ok r"
  proof -
    have "Iterate E ?b BatchContentClassifier 0 = (Status_InvalidArgument ''MarkNoop() handler not defined.'', 0)"
      using varint_decoder.Iterate_refines [OF assms, of ?b seq "RNoop # rs" BatchContentClassifier 0] that
      by (simp add: WriteBatch_of_rep_def BatchContentClassifier_def Handler_default_def Let_def)
    then show ?thesis by (simp add: ComputeContentFlags_def WriteBatch_of_rep_def)
  qed
  ultimately show "let b = ?b in \<not> Iterate_asserts E b BatchContentClassifier 0
      \<and> ((\<forall>r \<in> set rs. rec_ok r) \<longrightarrow> fst (ComputeContentFlags E b) = 0 \<and> \<not> HasPut E b)"
    by (simp add: HasPut_def)
qed

text \<open>A handler that accepts every record.\<close>

definition accept_all :: "nat Handler" where
  "accept_all = Handler_default
     \<lparr>h_PutCF := (\<lambda>st cf k v. (Status_OK, st + 1)), h_TimedPutCF := (\<lambda>st cf k v t. (Status_OK, st + 1)),
      h_PutEntityCF := (\<lambda>st cf k v. (Status_OK, st + 1)), h_DeleteCF := (\<lambda>st cf k. (Status_OK, st + 1)),
      h_SingleDeleteCF := (\<lambda>st cf k. (Status_OK, st + 1)), h_DeleteRangeCF := (\<lambda>st cf k e. (Status_OK, st + 1)),
      h_MergeCF := (\<lambda>st cf k v. (Status_OK, st + 1)), h_PutBlobIndexCF := (\<lambda>st cf k v. (Status_OK, st + 1)),
      h_MarkBeginPrepare := (\<lambda>st u. (Status_OK, st)), h_MarkEndPrepare := (\<lambda>st x. (Status_OK, st)),
      h_MarkNoop := (\<lambda>st e. (Status_OK, st)), h_MarkRollback := (\<lambda>st x. (Status_OK, st)),
      h_MarkCommit := (\<lambda>st x. (Status_OK, st)), h_MarkCommitWithTimestamp := (\<lambda>st x t. (Status_OK, st))\<rparr>"

lemma accept_all_ok: "markers_ok accept_all" "never_try_again accept_all"
proof -
  show "markers_ok accept_all" by (simp add: markers_ok_def accept_all_def)
  have "deliver accept_all st r eb = (Status_OK, snd (deliver accept_all st r eb))" for st r eb
    by (cases r) (simp_all add: accept_all_def Handler_default_def)
  then show "never_try_again accept_all"
    unfolding never_try_again_def by (metis fst_conv ok_not_TryAgain ok_simps(1))
qed

theorem Iterate_assertions_witness:
  "Iterate_asserts leb128_ext (run_ops sum_hash plain_columns (WriteBatch_new 0 0 0 0) [ONoop, OPut 2 [1] [2]]) accept_all 0
   \<and> \<not> HasPut leb128_ext (WriteBatch_of_rep (enc_batch 1 [RNoop, RPut 2 [1] [2]]))"
  using Iterate_assertions [OF leb.varint_decoder_axioms, where ops = "[ONoop, OPut 2 [1] [2]]" and W = plain_columns
      and h = accept_all and st = 0 and H = sum_hash and reserved = 0 and max_bytes = 0 and prot = 0 and ts_sz = 0
      and seq = 1 and rs = "[RPut 2 [1] [2]]"] accept_all_ok
  by (simp add: fits_def Let_def)

text \<open>
  C15. \<^verbatim>\<open>Append\<close> concatenates: the destination holds its own records followed by those of the source, under
  its own sequence number, with the counts added, the flags joined and the protection entries of the
  appended records; the size is what \<^verbatim>\<open>AppendedByteSize\<close> computes for whole batches. Appending for the WAL takes the
  records before the termination point if the source has one, and all of them otherwise. The batches keep
  protection entries both or neither, or the destination has no update yet, as the assertion says; then it
  takes over whether the source keeps them. With protection entries and \<open>2 ^ 31\<close> updates or more, the count is
  negative as an \<^verbatim>\<open>int\<close> and the copy of the entries is not defined.
\<close>

theorem Append_concatenates:
  assumes "batch_holds H dst seq rs" and "batch_holds H src seq' (pre @ post)"
    and "n_counted rs + n_counted pre < 2 ^ 32"
    and "n_counted rs = 0 \<or> (wb_prot_info dst = None) = (wb_prot_info src = None)"
    and "append_part wal_only src seq' pre post fl"
  shows "if wb_prot_info src \<noteq> None \<and> 2 ^ 31 \<le> n_counted pre then Append dst src wal_only = None
    else \<exists>dst'. Append dst src wal_only = Some (Status_OK, dst') \<and> batch_holds H dst' seq (rs @ pre)
      \<and> wb_content_flags dst' = wb_content_flags dst OR fl \<and> fst (frame dst') = fst (frame dst)
      \<and> (wb_prot_info dst' = None \<longleftrightarrow> wb_prot_info src = None)
      \<and> (\<not> wal_only \<longrightarrow> length (wb_rep dst') =
           AppendedByteSize (length (wb_rep dst)) (length (wb_rep src)))"
proof -
  have "\<not> wal_only \<Longrightarrow> post = []" using assms(5) by (simp add: append_part_def)
  then show ?thesis
    using Append_holds [OF assms] assms(1,2)
      Append_batch_holds [OF assms(1-3), of "wb_prot_info src = None" "wb_content_flags dst OR fl"]
    by (auto simp: frame_def AppendedByteSize_def kHeader_def batch_holds_def)
qed

theorem Append_concatenates_witness:
  "\<exists>dst'. Append (WriteBatch_new 0 0 0 0)
     (MarkWalTerminationPoint (snd (WBI_Put sum_hash (WriteBatch_new 0 0 0 0) 1 [2] [3]))) True = Some (Status_OK, dst')"
proof -
  let ?src = "MarkWalTerminationPoint (snd (WBI_Put sum_hash (WriteBatch_new 0 0 0 0) 1 [2] [3]))"
  let ?r = "RPut 1 [2] [3]"
  have op: "WBI_Put sum_hash (WriteBatch_new 0 0 0 0) 1 [2] [3] =
      (Status_OK, wb_append sum_hash (WriteBatch_new 0 0 0 0) HAS_PUT ?r)"
    using apply_op_holds [OF batch_holds_new [of sum_hash 0 0 0 0], of plain_columns "OPut 1 [2] [3]"]
    by (simp add: size_check_def uint32_max_def WriteBatch_new_def)
  have "batch_holds sum_hash (wb_append sum_hash (WriteBatch_new 0 0 0 0) HAS_PUT ?r) 0 ([] @ [?r])"
    by (rule batch_holds_append [OF batch_holds_new]) (simp_all add: fits_def)
  then have src: "batch_holds sum_hash ?src 0 ([?r] @ [])"
    and rep: "wb_rep (wb_append sum_hash (WriteBatch_new 0 0 0 0) HAS_PUT ?r) = enc_batch 0 [?r]"
    by (simp_all add: op MarkWalTerminationPoint_def batch_holds_def)
  have fields: "wb_content_flags (wb_append sum_hash (WriteBatch_new 0 0 0 0) HAS_PUT ?r) = HAS_PUT"
    "wb_prot_info (wb_append sum_hash (WriteBatch_new 0 0 0 0) HAS_PUT ?r) = None"
    by (simp_all add: wb_append_def WriteBatch_new_def Let_def)
  have part: "append_part True ?src 0 [?r] [] HAS_PUT"
    by (simp add: append_part_def op MarkWalTerminationPoint_def GetDataSize_def Count_enc [OF rep] rep fields)
  show ?thesis
    using Append_concatenates [OF batch_holds_new [of sum_hash 0 0 0 0] src _ _ part]
    by (auto simp: op MarkWalTerminationPoint_def fields)
qed

text \<open>
  C18. \<^verbatim>\<open>MarkEndPrepare\<close> turns a batch that starts with the no-op placeholder into a prepare section:
  the placeholder becomes the begin marker of the write policy, the end marker with the transaction
  id follows the records, which are unchanged, and all save points are gone.
\<close>

theorem MarkEndPrepare_wraps:
  assumes "batch_holds H b seq (RNoop # rs)" and "fits xid"
  shows "let (s, b') = WBI_MarkEndPrepare b xid write_after_commit unprepared in
    s = Status_OK
    \<and> batch_holds H b' seq ((if write_after_commit then RBeginPrepare
         else if unprepared then RBeginUnprepare else RBeginPersistedPrepare) # rs @ [REndPrepare xid])
    \<and> wb_save_points b' = map_option (\<lambda>_. []) (wb_save_points b)
    \<and> RollbackToSavePoint b' = (Status_NotFound, b')"
  using assms
  by (cases "wb_save_points b")
    (auto simp: WBI_MarkEndPrepare_def InsertEndPrepare_def push_defs GetBeginPrepareType_def
        list_update_append batch_holds_def enc_batch_def enc_slice_def RollbackToSavePoint_def)

theorem MarkEndPrepare_wraps_witness:
  "fst (WBI_MarkEndPrepare (WriteBatch_of_rep (enc_batch 0 [RNoop, RDelete 0 [1]])) [9] True False)
     = Status_OK"
  using MarkEndPrepare_wraps [of sum_hash "WriteBatch_of_rep (enc_batch 0 [RNoop, RDelete 0 [1]])" 0
      "[RDelete 0 [1]]" "[9]" True False]
  by (simp add: batch_holds_def WriteBatch_of_rep_def WriteBatch_new_def fits_def split: prod.splits)

text \<open>
  C19. A batch written through a handle of a column family with timestamps carries the timestamp
  as the last bytes of the key: without an explicit timestamp the record holds the user key followed by
  zero bytes of the timestamp's size and the batch is marked for an in-place update; with one it holds
  the user key and that timestamp, and a timestamp of another size is refused without any effect. The
  functions of the internal key format take such a key apart again.
\<close>

theorem put_with_timestamp:
  assumes "batch_holds H b seq rs" and "n_counted rs + 1 < 2 ^ 32" and "wb_max_bytes b = 0"
    and "cfh_ts_sz h = Some n" and "0 < n" and "cfh_id h = 0 \<longrightarrow> wb_default_cf_ts_sz b = n"
    and "length k + n < uint32_max" and "length v < uint32_max"
  shows "(\<exists>b'. WB_Put H b (Some h) k v = (Status_OK, b') \<and> wb_needs_in_place_update_ts b'
      \<and> batch_holds H b' seq (rs @ [RPut (cfh_id h) (k @ replicate n 0) v]))
    \<and> (length ts = n \<longrightarrow> (\<exists>b'. WB_Put_ts H b (Some h) k ts v = (Status_OK, b')
      \<and> wb_needs_in_place_update_ts b' = wb_needs_in_place_update_ts b
      \<and> batch_holds H b' seq (rs @ [RPut (cfh_id h) (k @ ts) v])
      \<and> StripTimestampFromUserKey (k @ ts) n = k \<and> ExtractTimestampFromUserKey (k @ ts) n = ts))
    \<and> (length ts \<noteq> n \<longrightarrow>
      WB_Put_ts H b (Some h) k ts v = (Status_InvalidArgument ''timestamp size mismatch'', b))"
proof -
  have put: "\<exists>b'. WBI_Put_parts H c (cfh_id h) [k, t] [v] = (Status_OK, b')
      \<and> batch_holds H b' seq (rs @ [RPut (cfh_id h) (k @ t) v]) \<and> frame b' = frame c"
    if "batch_holds H c seq rs" "wb_max_bytes c = 0" "length t = n" for c t
    using that apply_op_ok [OF that(1) assms(2), of plain_columns "OPutParts (cfh_id h) [k, t] [v]"] assms(7,8)
    by (simp add: CheckSlicePartsLength_def fits_def uint32_max_def)
  let ?c = "b\<lparr>wb_needs_in_place_update_ts := True, wb_has_key_with_ts := True\<rparr>"
  obtain b1 where "WBI_Put_parts H ?c (cfh_id h) [k, replicate n 0] [v] = (Status_OK, b1)"
    "batch_holds H b1 seq (rs @ [RPut (cfh_id h) (k @ replicate n 0) v])" "frame b1 = frame ?c"
    using put [of ?c "replicate n 0"] assms(1,3) by auto
  then have "\<exists>b'. WB_Put H b (Some h) k v = (Status_OK, b') \<and> wb_needs_in_place_update_ts b'
      \<and> batch_holds H b' seq (rs @ [RPut (cfh_id h) (k @ replicate n 0) v])"
    using assms(4-6) frame_needs_ts [of b1 ?c]
    by (auto simp: WB_Put_def GetColumnFamilyIdAndTimestampSize_def GetColumnFamilyID_def)
  then show ?thesis
    using put [of "b\<lparr>wb_has_key_with_ts := True\<rparr>" ts] assms(1,3-5)
    by (auto simp: WB_Put_ts_def CheckColumnFamilyTimestampSize_def StripTimestampFromUserKey_def
        ExtractTimestampFromUserKey_def dest!: frame_needs_ts)
qed

theorem put_with_timestamp_witness:
  "\<exists>b'. WB_Put sum_hash (WriteBatch_new 0 0 8 0) (Some \<lparr>cfh_id = 3, cfh_ts_sz = Some 2\<rparr>) [1] [2] = (Status_OK, b')
     \<and> wb_needs_in_place_update_ts b'
     \<and> batch_holds sum_hash b' 0 ([] @ [RPut 3 ([1] @ replicate 2 0) [2]])"
  using put_with_timestamp [OF batch_holds_new [of sum_hash 0 0 8 0],
      of "\<lparr>cfh_id = 3, cfh_ts_sz = Some 2\<rparr>" 2 "[1]" "[2]"]
  by (simp add: uint32_max_def WriteBatch_new_def)

text \<open>
  C21. The size check of \<^verbatim>\<open>TimedPut\<close> overlooks the eight bytes of write time that are packed behind the
  value: a value within eight bytes of the limit is accepted, but the length prefix of the packed
  value wraps around, so that the record is read back with a packed value of fewer than eight bytes.
\<close>

theorem timed_put_length_wraps:
  assumes "batch_holds H b seq rs" and "wb_max_bytes b = 0" and "t \<noteq> - 1"
    and "length k \<le> uint32_max" and "length v \<le> uint32_max" and "2 ^ 32 \<le> length v + 8"
    and "varint_decoder E"
  shows "\<exists>b' pre. WBI_TimedPut H b cf k v t = (Status_OK, b')
    \<and> wb_rep b' = pre @ EncodeVarint32 (of_nat (length v + 8 - 2 ^ 32)) @ v @ EncodeFixed64 t
    \<and> GetLengthPrefixedSlice E (drop (length pre) (wb_rep b')) =
        Some (take (length v + 8 - 2 ^ 32) v, drop (length v + 8 - 2 ^ 32) (v @ EncodeFixed64 t))
    \<and> length v + 8 - 2 ^ 32 < 8"
proof -
  obtain n where n: "length v + 8 = n + 2 ^ 32" "length v + 8 - 2 ^ 32 = n" "n < 8" "n \<le> length v"
    using that [of "length v + 8 - 2 ^ 32"] assms(5,6) by (simp add: uint32_max_def)
  let ?b = "wb_append H b HAS_TIMED_PUT (RTimedPut cf k v t)"
  let ?pre = "wb_rep (SetCount b (Count b + 1)) @ enc_tag cf kTypeValuePreferredSeqno
      kTypeColumnFamilyValuePreferredSeqno @ enc_slice k"
  have put: "WBI_TimedPut H b cf k v t = (Status_OK, ?b)"
    using assms(2-5) apply_op_holds [OF assms(1), of plain_columns "OTimedPut cf k v t"]
    by (simp add: size_check_def)
  have "of_nat (length v + 8) = (of_nat n + of_nat (2 ^ 32) :: u32)"
    by (metis n(1) of_nat_add)
  then have "of_nat (length (v @ EncodeFixed64 t)) = (of_nat n :: u32)" by simp
  then have rep: "wb_rep ?b = ?pre @ EncodeVarint32 (of_nat n) @ v @ EncodeFixed64 t"
    by (simp add: wb_append_def Let_def enc_slice_def)
  have "GetLengthPrefixedSlice E (EncodeVarint32 (of_nat n) @ v @ EncodeFixed64 t) =
      Some (take n v, drop n (v @ EncodeFixed64 t))"
    using n(3,4) unat_of_nat_u32 [of n]
    by (simp add: GetLengthPrefixedSlice_def varint_decoder.GetVarint32_enc [OF assms(7)])
  then show ?thesis unfolding n(2) using put rep n(3) by (intro exI [of _ ?b] exI [of _ ?pre]) simp
qed

theorem timed_put_length_wraps_witness:
  "\<exists>b' pre. WBI_TimedPut sum_hash (WriteBatch_new 0 0 0 0) 0 [1] (replicate (2 ^ 32 - 8) 0) 5 = (Status_OK, b')
    \<and> wb_rep b' = pre @ EncodeVarint32 (of_nat 0) @ replicate (2 ^ 32 - 8) 0 @ EncodeFixed64 5
    \<and> GetLengthPrefixedSlice leb128_ext (drop (length pre) (wb_rep b')) =
        Some ([], replicate (2 ^ 32 - 8) 0 @ EncodeFixed64 5)"
  using timed_put_length_wraps [OF batch_holds_new [of sum_hash 0 0 0 0] _ _ _ _ _ leb.varint_decoder_axioms,
      of 5 "[1]" "replicate (2 ^ 32 - 8) 0" 0]
  by (simp add: uint32_max_def WriteBatch_new_def)

text \<open>
  The header of a batch: \<^verbatim>\<open>Sequence\<close> and \<^verbatim>\<open>Count\<close> read what the batch holds, \<^verbatim>\<open>SetSequence\<close>
  changes the sequence number and nothing else, and \<^verbatim>\<open>Clear\<close> leaves an empty batch of sequence zero
  without save points.
\<close>

theorem header_accessors:
  assumes "batch_holds H b seq rs"
  shows "Sequence b = seq \<and> unat (Count b) = n_counted rs
    \<and> batch_holds H (SetSequence b seq') seq' rs \<and> frame (SetSequence b seq') = frame b
    \<and> batch_holds H (Clear b) 0 [] \<and> fst (RollbackToSavePoint (Clear b)) = Status_NotFound"
proof -
  have rep: "wb_rep b = enc_batch seq rs" using assms by (simp add: batch_holds_def)
  have "Sequence b = seq" by (simp add: Sequence_def rep enc_batch_def)
  moreover have "batch_holds H (SetSequence b seq') seq' rs"
    using assms SetSequence_enc [OF rep, of seq'] by (auto simp: batch_holds_def SetSequence_def)
  moreover have "frame (SetSequence b seq') = frame b"
    by (simp add: frame_def SetSequence_def)
  moreover have "batch_holds H (Clear b) 0 []"
    using batch_holds_new [of H 0 0 0 0] by (auto simp: batch_holds_def Clear_def WriteBatch_new_def)
  moreover have "fst (RollbackToSavePoint (Clear b)) = Status_NotFound"
    by (cases "wb_save_points b") (simp_all add: Clear_def RollbackToSavePoint_def)
  ultimately show ?thesis using batch_holds_count [OF assms] by simp
qed

theorem header_accessors_witness:
  "Sequence (SetSequence (WriteBatch_of_rep (enc_batch 7 [RNoop, RPut 3 [1] [2]])) 9) = 9
   \<and> unat (Count (WriteBatch_of_rep (enc_batch 7 [RNoop, RPut 3 [1] [2]]))) = 1"
  using header_accessors [of sum_hash "WriteBatch_of_rep (enc_batch 7 [RNoop, RPut 3 [1] [2]])" 7
      "[RNoop, RPut 3 [1] [2]]" 9]
  by (simp add: batch_holds_def WriteBatch_of_rep_def WriteBatch_new_def fits_def Sequence_def enc_batch_def)

end
