(* ===== verification/Seqno_Time.thy ===== *)
theory Seqno_Time
  imports Db_Format "HOL-Library.Product_Lexorder" "HOL-Library.Sublist" "HOL-Library.Multiset"
begin

text \<open>
  \<^verbatim>\<open>db/seqno_to_time_mapping.h\<close> and \<^verbatim>\<open>db/seqno_to_time_mapping.cc\<close>: the sampled mapping from
  sequence numbers to write times. A deque is a list and an iterator into it an index.
  \<^verbatim>\<open>std::lower_bound\<close> and \<^verbatim>\<open>std::upper_bound\<close> are what the standard says of them: the furthest
  position such that the elements before it compare less than the value (respectively, do not
  compare greater). A step of \<^verbatim>\<open>EnforceCapacity\<close> that would leave the range of the deque makes the
  operation return \<open>None\<close>; the lemmas show that this does not happen in the states the class can
  be in.
\<close>

section \<open>Pairs\<close>

datatype SeqnoTimePair = SeqnoTimePair (st_seqno: u64) (st_time: u64)

text \<open>\<^verbatim>\<open>operator<\<close> compares the tuples of the two fields.\<close>

instantiation SeqnoTimePair :: linorder
begin

definition less_SeqnoTimePair :: "SeqnoTimePair \<Rightarrow> SeqnoTimePair \<Rightarrow> bool" where
  "p < q \<longleftrightarrow> (st_seqno p, st_time p) < (st_seqno q, st_time q)"

definition less_eq_SeqnoTimePair :: "SeqnoTimePair \<Rightarrow> SeqnoTimePair \<Rightarrow> bool" where
  "p \<le> q \<longleftrightarrow> (st_seqno p, st_time p) \<le> (st_seqno q, st_time q)"

instance
  by standard (auto simp: less_SeqnoTimePair_def less_eq_SeqnoTimePair_def SeqnoTimePair.expand)

end

definition kUnknownTimeBeforeAll :: u64 where "kUnknownTimeBeforeAll = 0"
definition kUnknownSeqnoBeforeAll :: u64 where "kUnknownSeqnoBeforeAll = 0"

definition SeqnoLess :: "SeqnoTimePair \<Rightarrow> SeqnoTimePair \<Rightarrow> bool" where
  "SeqnoLess a b \<longleftrightarrow> st_seqno a < st_seqno b"

definition TimeLess :: "SeqnoTimePair \<Rightarrow> SeqnoTimePair \<Rightarrow> bool" where
  "TimeLess a b \<longleftrightarrow> st_time a < st_time b"

definition ComputeDelta :: "SeqnoTimePair \<Rightarrow> SeqnoTimePair \<Rightarrow> SeqnoTimePair" where
  "ComputeDelta p base = SeqnoTimePair (st_seqno p - st_seqno base) (st_time p - st_time base)"

definition ApplyDelta :: "SeqnoTimePair \<Rightarrow> SeqnoTimePair \<Rightarrow> SeqnoTimePair" where
  "ApplyDelta p d = SeqnoTimePair (st_seqno p + st_seqno d) (st_time p + st_time d)"

definition Pair_Merge :: "SeqnoTimePair \<Rightarrow> SeqnoTimePair \<Rightarrow> bool \<times> SeqnoTimePair" where
  "Pair_Merge p other =
     (if st_seqno p = st_seqno other
      then (True, SeqnoTimePair (st_seqno p) (min (st_time p) (st_time other)))
      else if st_time p = st_time other
      then (True, SeqnoTimePair (max (st_seqno p) (st_seqno other)) (st_time p))
      else if st_time other < st_time p then (True, other)
      else (False, p))"

definition Pair_Encode :: "SeqnoTimePair \<Rightarrow> bytes \<Rightarrow> bytes" where
  "Pair_Encode p dest = PutVarint64Varint64 dest (st_seqno p) (st_time p)"

definition Pair_Decode :: "varint_ext \<Rightarrow> bytes \<Rightarrow> Status + SeqnoTimePair \<times> bytes" where
  "Pair_Decode E input =
     (case GetVarint64 E input of
        None \<Rightarrow> Inl (Status_Corruption ''Invalid sequence number'' [])
      | Some (seqno, input) \<Rightarrow>
          (case GetVarint64 E input of
             None \<Rightarrow> Inl (Status_Corruption ''Invalid time'' [])
           | Some (time, input) \<Rightarrow> Inr (SeqnoTimePair seqno time, input)))"

section \<open>The mapping\<close>

record SeqnoToTimeMapping =
  stm_max_time_span :: u64
  stm_capacity :: u64
  stm_pairs :: "SeqnoTimePair list"
  stm_enforced :: bool

definition SeqnoToTimeMapping_new :: SeqnoToTimeMapping where
  "SeqnoToTimeMapping_new =
     \<lparr>stm_max_time_span = - 1, stm_capacity = - 1, stm_pairs = [], stm_enforced = True\<rparr>"

definition lower_bound :: "'a list \<Rightarrow> 'a \<Rightarrow> ('a \<Rightarrow> 'a \<Rightarrow> bool) \<Rightarrow> nat" where
  "lower_bound xs v lt = length (takeWhile (\<lambda>x. lt x v) xs)"

definition upper_bound :: "'a list \<Rightarrow> 'a \<Rightarrow> ('a \<Rightarrow> 'a \<Rightarrow> bool) \<Rightarrow> nat" where
  "upper_bound xs v lt = length (takeWhile (\<lambda>x. \<not> lt v x) xs)"

definition FindGreaterTime :: "SeqnoToTimeMapping \<Rightarrow> u64 \<Rightarrow> nat" where
  "FindGreaterTime m time = upper_bound (stm_pairs m) (SeqnoTimePair 0 time) TimeLess"

definition FindGreaterEqSeqno :: "SeqnoToTimeMapping \<Rightarrow> u64 \<Rightarrow> nat" where
  "FindGreaterEqSeqno m seqno = lower_bound (stm_pairs m) (SeqnoTimePair seqno 0) SeqnoLess"

definition FindGreaterSeqno :: "SeqnoToTimeMapping \<Rightarrow> u64 \<Rightarrow> nat" where
  "FindGreaterSeqno m seqno = upper_bound (stm_pairs m) (SeqnoTimePair seqno 0) SeqnoLess"

definition GetProximalTimeBeforeSeqno :: "SeqnoToTimeMapping \<Rightarrow> u64 \<Rightarrow> u64" where
  "GetProximalTimeBeforeSeqno m seqno =
     (let it = FindGreaterEqSeqno m seqno
      in if it = 0 then kUnknownTimeBeforeAll else st_time (stm_pairs m ! (it - 1)))"

definition GetProximalSeqnoBeforeTime :: "SeqnoToTimeMapping \<Rightarrow> u64 \<Rightarrow> u64" where
  "GetProximalSeqnoBeforeTime m time =
     (let it = FindGreaterTime m time
      in if it = 0 then kUnknownSeqnoBeforeAll else st_seqno (stm_pairs m ! (it - 1)))"

text \<open>The out-parameters are the values they point to, \<open>None\<close> for a null pointer.\<close>

definition GetCurrentTieringCutoffSeqnos ::
  "SeqnoToTimeMapping \<Rightarrow> u64 \<Rightarrow> u64 \<Rightarrow> u64 \<Rightarrow> u64 option \<Rightarrow> u64 option \<Rightarrow> u64 option \<times> u64 option" where
  "GetCurrentTieringCutoffSeqnos m current_time preserve_internal_time_seconds
       preclude_last_level_data_seconds preserve_time_min_seqno preclude_last_level_min_seqno =
     (let preserve_time_duration = max preserve_internal_time_seconds preclude_last_level_data_seconds
      in if preserve_time_duration \<le> 0 then (preserve_time_min_seqno, preclude_last_level_min_seqno)
         else
           let preserve_time = (if preserve_time_duration < current_time
                                then current_time - preserve_time_duration else 0);
               a = map_option (\<lambda>_. GetProximalSeqnoBeforeTime m preserve_time + 1) preserve_time_min_seqno;
               b = (if 0 < preclude_last_level_data_seconds then
                      map_option (\<lambda>_.
                        let preclude_last_level_time =
                              (if preclude_last_level_data_seconds < current_time
                               then current_time - preclude_last_level_data_seconds else 0)
                        in GetProximalSeqnoBeforeTime m preclude_last_level_time + 1)
                      preclude_last_level_min_seqno
                    else preclude_last_level_min_seqno)
           in (a, b))"

section \<open>Enforcing the limits\<close>

text \<open>
  \<^verbatim>\<open>EnforceMaxTimeSpan\<close> and \<^verbatim>\<open>EnforceCapacity\<close> start with the assertion that the mapping is enforced. Every
  caller below has tested the flag or just called \<^verbatim>\<open>SortAndMerge\<close>, which sets it; the assertion is
  not part of the definitions.
\<close>

fun pop_old :: "u64 \<Rightarrow> SeqnoTimePair list \<Rightarrow> SeqnoTimePair list" where
  "pop_old cutoff_time (p # q # ps) =
     (if st_time p \<le> cutoff_time \<and> st_time q \<le> cutoff_time then pop_old cutoff_time (q # ps)
      else p # q # ps)"
| "pop_old cutoff_time ps = ps"

definition EnforceMaxTimeSpan :: "SeqnoToTimeMapping \<Rightarrow> u64 \<Rightarrow> SeqnoToTimeMapping" where
  "EnforceMaxTimeSpan m now =
     (if length (stm_pairs m) \<le> 1 then m
      else if 0 < now then
        (if now < stm_max_time_span m then m
         else m\<lparr>stm_pairs := pop_old (now - stm_max_time_span m) (stm_pairs m)\<rparr>)
      else
        let l = last (stm_pairs m)
        in if st_time l < stm_max_time_span m then m
           else m\<lparr>stm_pairs := pop_old (st_time l - stm_max_time_span m) (stm_pairs m)\<rparr>)"

datatype RemovalCandidate = RemovalCandidate (rc_gap: u64) (rc_it: nat)

definition rc_greater :: "SeqnoTimePair list \<Rightarrow> RemovalCandidate \<Rightarrow> RemovalCandidate \<Rightarrow> bool" where
  "rc_greater ps c d =
     (if rc_gap c = rc_gap d then st_seqno (ps ! rc_it d) < st_seqno (ps ! rc_it c)
      else rc_gap d < rc_gap c)"

text \<open>The top of the priority queue, a least candidate, and the rest of the queue.\<close>

fun pq_pop :: "SeqnoTimePair list \<Rightarrow> RemovalCandidate \<Rightarrow> RemovalCandidate list \<Rightarrow>
    RemovalCandidate \<times> RemovalCandidate list" where
  "pq_pop ps c [] = (c, [])"
| "pq_pop ps c (d # ds) =
     (if rc_greater ps c d then let (b, r) = pq_pop ps d ds in (b, c # r)
      else let (b, r) = pq_pop ps c ds in (b, d # r))"

text \<open>The loop that queues all candidates but the first and the last pair.\<close>

fun queue_candidates :: "u64 \<Rightarrow> nat \<Rightarrow> u64 \<Rightarrow> SeqnoTimePair list \<Rightarrow> RemovalCandidate list" where
  "queue_candidates prev_prev_time prev_it prev_time [] = []"
| "queue_candidates prev_prev_time prev_it prev_time (p # ps) =
     RemovalCandidate (st_time p - prev_prev_time) prev_it #
     queue_candidates prev_time (prev_it + 1) (st_time p) ps"

text \<open>The first time in a list that is not marked; \<open>None\<close> when the search leaves the range.\<close>

fun first_time :: "SeqnoTimePair list \<Rightarrow> u64 option" where
  "first_time [] = None"
| "first_time (p # ps) = (if st_time p = kUnknownTimeBeforeAll then first_time ps else Some (st_time p))"

definition actual_gap :: "SeqnoTimePair list \<Rightarrow> nat \<Rightarrow> u64 option" where
  "actual_gap ps it =
     (case first_time (drop (it + 1) ps) of
        None \<Rightarrow> None
      | Some after_time \<Rightarrow>
          (case first_time (rev (take it ps)) of
             None \<Rightarrow> None
           | Some before_time \<Rightarrow> Some (after_time - before_time)))"

definition mark :: "SeqnoTimePair list \<Rightarrow> nat \<Rightarrow> SeqnoTimePair list" where
  "mark ps it = ps[it := SeqnoTimePair (st_seqno (ps ! it)) kUnknownTimeBeforeAll]"

lemma mset_pq_pop: "pq_pop ps c cs = (b, r) \<Longrightarrow> add_mset b (mset r) = add_mset c (mset cs)"
  by (induction cs arbitrary: c b r) (auto split: if_splits prod.splits simp: add_mset_commute)

definition stale :: "SeqnoTimePair list \<Rightarrow> RemovalCandidate list \<Rightarrow> nat" where
  "stale ps cs = size (filter_mset (\<lambda>c. actual_gap ps (rc_it c) \<noteq> Some (rc_gap c)) (mset cs))"

function remove_candidates :: "SeqnoTimePair list \<Rightarrow> RemovalCandidate list \<Rightarrow> nat \<Rightarrow>
    SeqnoTimePair list option" where
  "remove_candidates ps pq 0 = Some ps"
| "remove_candidates ps [] (Suc n) = None"
| "remove_candidates ps (c # cs) (Suc n) =
     (let (rc, pq) = pq_pop ps c cs
      in case actual_gap ps (rc_it rc) of
           None \<Rightarrow> None
         | Some gap \<Rightarrow>
             if rc_gap rc = gap then remove_candidates (mark ps (rc_it rc)) pq n
             else remove_candidates ps (RemovalCandidate gap (rc_it rc) # pq) (Suc n))"
  by pat_completeness auto
termination
proof (relation "measures [\<lambda>(ps, pq, n). n, \<lambda>(ps, pq, n). stale ps pq]", goal_cases)
  case (3 ps c cs n x rc pq gap)
  then have "add_mset rc (mset pq) = add_mset c (mset cs)" using mset_pq_pop by fastforce
  then have "stale ps (c # cs) = stale ps (rc # pq)" by (simp add: stale_def)
  with 3 show ?case by (simp add: stale_def)
qed simp_all

definition strict_capacity :: "SeqnoToTimeMapping \<Rightarrow> u64" where
  "strict_capacity m = (if stm_capacity m = 1 then 2 else stm_capacity m)"

definition effective_capacity :: "SeqnoToTimeMapping \<Rightarrow> bool \<Rightarrow> u64" where
  "effective_capacity m strict =
     (let strict_cap = strict_capacity m;
          effective_cap = strict_cap + (if strict then 0 else strict_cap div 8)
      in if effective_cap < strict_cap then - 1 else effective_cap)"

text \<open>
  A deque of two pairs that is over capacity cannot be: the capacity counts as two at least.
\<close>

definition EnforceCapacity :: "SeqnoToTimeMapping \<Rightarrow> bool \<Rightarrow> SeqnoToTimeMapping option" where
  "EnforceCapacity m strict =
     (if stm_capacity m = 0 then Some (m\<lparr>stm_pairs := []\<rparr>)
      else if length (stm_pairs m) \<le> unat (effective_capacity m strict) then Some m
      else
        (case stm_pairs m of
           p # q # ps \<Rightarrow>
             (case remove_candidates (stm_pairs m) (queue_candidates (st_time p) 1 (st_time q) ps)
                     (length (stm_pairs m) - unat (strict_capacity m)) of
                None \<Rightarrow> None
              | Some marked \<Rightarrow>
                  Some (m\<lparr>stm_pairs := filter (\<lambda>p. st_time p \<noteq> kUnknownTimeBeforeAll) marked\<rparr>))
         | _ \<Rightarrow> None))"

fun merge_loop :: "SeqnoTimePair \<Rightarrow> SeqnoTimePair list \<Rightarrow> SeqnoTimePair list" where
  "merge_loop to_it [] = [to_it]"
| "merge_loop to_it (from_it # ps) =
     (let (merged, to_it) = Pair_Merge to_it from_it
      in if merged then merge_loop to_it ps else to_it # merge_loop from_it ps)"

definition SortAndMerge :: "SeqnoToTimeMapping \<Rightarrow> SeqnoToTimeMapping" where
  "SortAndMerge m =
     m\<lparr>stm_pairs := (case sort (stm_pairs m) of [] \<Rightarrow> [] | p # ps \<Rightarrow> merge_loop p ps),
       stm_enforced := True\<rparr>"

section \<open>Modifiers\<close>

definition SetMaxTimeSpan :: "SeqnoToTimeMapping \<Rightarrow> u64 \<Rightarrow> SeqnoToTimeMapping" where
  "SetMaxTimeSpan m max_time_span =
     (let m = m\<lparr>stm_max_time_span := max_time_span\<rparr>
      in if stm_enforced m then EnforceMaxTimeSpan m 0 else m)"

definition SetCapacity :: "SeqnoToTimeMapping \<Rightarrow> u64 \<Rightarrow> SeqnoToTimeMapping option" where
  "SetCapacity m capacity =
     (let m = m\<lparr>stm_capacity := capacity\<rparr>
      in if stm_enforced m then EnforceCapacity m True else Some m)"

definition Enforce :: "SeqnoToTimeMapping \<Rightarrow> u64 \<Rightarrow> SeqnoToTimeMapping option" where
  "Enforce m now =
     (let m = (if \<not> stm_enforced m then EnforceMaxTimeSpan (SortAndMerge m) now
               else if 0 < now then EnforceMaxTimeSpan m now
               else m)
      in EnforceCapacity m True)"

definition AddUnenforced :: "SeqnoToTimeMapping \<Rightarrow> u64 \<Rightarrow> u64 \<Rightarrow> SeqnoToTimeMapping" where
  "AddUnenforced m seqno time =
     (if seqno = 0 then m
      else m\<lparr>stm_enforced := False, stm_pairs := stm_pairs m @ [SeqnoTimePair seqno time]\<rparr>)"

definition STM_Clear :: "SeqnoToTimeMapping \<Rightarrow> SeqnoToTimeMapping" where
  "STM_Clear m = m\<lparr>stm_pairs := [], stm_enforced := True\<rparr>"

text \<open>
  \<^verbatim>\<open>Append\<close>: out-of-order appends to an enforced mapping are asserted not to happen; the release
  build skips them.
\<close>

definition STM_Append :: "SeqnoToTimeMapping \<Rightarrow> u64 \<Rightarrow> u64 \<Rightarrow> (bool \<times> SeqnoToTimeMapping) option" where
  "STM_Append m seqno time =
     (if stm_capacity m = 0 then Some (False, m)
      else if seqno \<noteq> 0 \<and> stm_pairs m = [] then
        Some (True, m\<lparr>stm_enforced := True, stm_pairs := [SeqnoTimePair seqno time]\<rparr>)
      else
        let (added, m) =
              (if seqno = 0 then (False, m)
               else
                 let l = last (stm_pairs m)
                 in if st_seqno l \<le> seqno then
                      let (merged, l) = Pair_Merge l (SeqnoTimePair seqno time);
                          m = m\<lparr>stm_pairs := butlast (stm_pairs m) @ [l]\<rparr>
                      in if merged then (False, m)
                         else if stm_enforced m \<and> (seqno \<le> st_seqno l \<or> time \<le> st_time l)
                         then (False, m)
                         else (True, m\<lparr>stm_pairs := stm_pairs m @ [SeqnoTimePair seqno time]\<rparr>)
                    else if \<not> stm_enforced m then
                      (True, m\<lparr>stm_pairs := stm_pairs m @ [SeqnoTimePair seqno time]\<rparr>)
                    else (False, m));
            m = (if \<not> stm_enforced m then SortAndMerge m else m);
            m = EnforceMaxTimeSpan m 0
        in map_option (\<lambda>m. (added, m)) (EnforceCapacity m False))"

text \<open>
  The loop of \<^verbatim>\<open>PrePopulate\<close> does not end when the last sequence number is the largest word. Its assertions
  on the arguments are hypotheses of the properties; the call does not look at the limits.
\<close>

partial_function (option) PrePopulate_loop ::
  "u64 \<Rightarrow> u64 \<Rightarrow> u64 \<Rightarrow> u64 \<Rightarrow> u64 \<Rightarrow> SeqnoTimePair list \<Rightarrow> SeqnoTimePair list option" where
  "PrePopulate_loop i from_seqno to_seqno from_time to_time ps =
     (if i \<le> to_seqno then
        PrePopulate_loop (i + 1) from_seqno to_seqno from_time to_time
          (ps @ [SeqnoTimePair i
             (from_time + (to_time - from_time) * (i - from_seqno) div (to_seqno - from_seqno))])
      else Some ps)"

definition PrePopulate ::
  "SeqnoToTimeMapping \<Rightarrow> u64 \<Rightarrow> u64 \<Rightarrow> u64 \<Rightarrow> u64 \<Rightarrow> (bool \<times> SeqnoToTimeMapping) option" where
  "PrePopulate m from_seqno to_seqno from_time to_time =
     map_option (\<lambda>ps. (True, m\<lparr>stm_pairs := ps\<rparr>))
       (PrePopulate_loop from_seqno from_seqno to_seqno from_time to_time (stm_pairs m))"

definition CopyFromSeqnoRange ::
  "SeqnoToTimeMapping \<Rightarrow> SeqnoToTimeMapping \<Rightarrow> u64 \<Rightarrow> u64 \<Rightarrow> SeqnoToTimeMapping" where
  "CopyFromSeqnoRange m src from_seqno to_seqno =
     (let orig_empty = (stm_pairs m = []);
          src_it = FindGreaterEqSeqno src from_seqno;
          src_it_end = (if to_seqno < from_seqno then src_it else FindGreaterSeqno src to_seqno);
          src_it = (if src_it \<noteq> 0 then src_it - 1 else src_it);
          m = m\<lparr>stm_pairs := stm_pairs m @ take (src_it_end - src_it) (drop src_it (stm_pairs src))\<rparr>
      in if \<not> orig_empty \<or> stm_max_time_span m < - 1 \<or> stm_capacity m < - 1
         then m\<lparr>stm_enforced := False\<rparr> else m)"

definition CopyFrom :: "SeqnoToTimeMapping \<Rightarrow> SeqnoToTimeMapping \<Rightarrow> SeqnoToTimeMapping" where
  "CopyFrom m src = CopyFromSeqnoRange m src kUnknownSeqnoBeforeAll kMaxSequenceNumber"

section \<open>Encoding\<close>

fun encode_deltas :: "SeqnoTimePair \<Rightarrow> SeqnoTimePair list \<Rightarrow> bytes \<Rightarrow> bytes" where
  "encode_deltas base [] dest = dest"
| "encode_deltas base (cur # ps) dest = encode_deltas cur ps (Pair_Encode (ComputeDelta cur base) dest)"

definition STM_EncodeTo :: "SeqnoToTimeMapping \<Rightarrow> bytes \<Rightarrow> bytes" where
  "STM_EncodeTo m dest =
     (if stm_pairs m = [] then dest
      else encode_deltas (SeqnoTimePair 0 0) (stm_pairs m)
             (PutVarint64 dest (of_nat (length (stm_pairs m)))))"

text \<open>The loop of \<^verbatim>\<open>DecodeImpl\<close> leaves the pairs it has appended behind also when it fails.\<close>

fun decode_deltas :: "varint_ext \<Rightarrow> nat \<Rightarrow> SeqnoTimePair \<Rightarrow> bytes \<Rightarrow> SeqnoTimePair list \<Rightarrow>
    (Status + bytes) \<times> SeqnoTimePair list" where
  "decode_deltas E 0 base input ps = (Inr input, ps)"
| "decode_deltas E (Suc n) base input ps =
     (case Pair_Decode E input of
        Inl s \<Rightarrow> (Inl s, ps)
      | Inr (val, input) \<Rightarrow>
          let val = ApplyDelta val base in decode_deltas E n val input (ps @ [val]))"

definition DecodeImpl :: "varint_ext \<Rightarrow> bytes \<Rightarrow> SeqnoTimePair list \<Rightarrow> Status \<times> SeqnoTimePair list" where
  "DecodeImpl E input ps =
     (if input = [] then (Status_OK, ps)
      else
        (case GetVarint64 E input of
           None \<Rightarrow> (Status_Corruption ''Invalid sequence number time size'' [], ps)
         | Some (n, input) \<Rightarrow>
             (case decode_deltas E (unat n) (SeqnoTimePair 0 0) input ps of
                (Inl s, ps) \<Rightarrow> (s, ps)
              | (Inr input, ps) \<Rightarrow>
                  if input \<noteq> []
                  then (Status_Corruption ''Extra bytes at end of sequence number time mapping'' [], ps)
                  else (Status_OK, ps))))"

definition STM_DecodeFrom :: "varint_ext \<Rightarrow> SeqnoToTimeMapping \<Rightarrow> bytes \<Rightarrow> Status \<times> SeqnoToTimeMapping" where
  "STM_DecodeFrom E m pairs_str =
     (let orig_size = length (stm_pairs m);
          (s, ps) = DecodeImpl E pairs_str (stm_pairs m)
      in if \<not> ok s then (s, m\<lparr>stm_pairs := take orig_size ps\<rparr>)
         else if 0 < orig_size \<or> stm_max_time_span m < - 1 \<or> stm_capacity m < - 1
         then (s, m\<lparr>stm_pairs := ps, stm_enforced := False\<rparr>)
         else (s, m\<lparr>stm_pairs := ps\<rparr>))"

definition ToHumanString :: "SeqnoToTimeMapping \<Rightarrow> string" where
  "ToHumanString m =
     foldl (\<lambda>ret p. ret @ to_string (unat (st_seqno p)) @ ''->'' @ to_string (unat (st_time p)) @ '','')
       [] (stm_pairs m)"

end
