(* ===== verification/Seqno_Time_Props.thy ===== *)
theory Seqno_Time_Props
  imports Seqno_Time
begin

text \<open>
  Properties of the mapping from sequence numbers to times: the queries of an enforced mapping give
  the best bounds its pairs allow, the limits are kept by the operations under what their callers promise,
  pruning and copying keep the answers they are meant to keep, and the encoding round-trips.
\<close>

section \<open>Ordered pairs\<close>

definition pair_before :: "SeqnoTimePair \<Rightarrow> SeqnoTimePair \<Rightarrow> bool" where
  "pair_before a b \<longleftrightarrow> st_seqno a < st_seqno b \<and> st_time a \<le> st_time b"

abbreviation ordered :: "SeqnoTimePair list \<Rightarrow> bool" where
  "ordered \<equiv> sorted_wrt pair_before"

lemma takeWhile_filter: "sorted_wrt (\<lambda>a b. P b \<longrightarrow> P a) xs \<Longrightarrow> takeWhile P xs = filter P xs"
proof (induction xs)
  case (Cons x xs)
  then show ?case by (cases "P x") (auto simp: filter_empty_conv)
qed simp

lemma last_Max:
  "ys \<noteq> [] \<Longrightarrow> sorted_wrt (\<lambda>a b. f a \<le> (f b :: u64)) ys \<Longrightarrow> f (last ys) = Max (insert 0 (f ` set ys))"
  by (cases ys rule: rev_cases)
    (auto simp: sorted_wrt_append less_imp_le intro!: Max_eqI [symmetric])

lemma proximal_Max:
  assumes "sorted_wrt (\<lambda>a b. (P b \<longrightarrow> P a) \<and> f a \<le> (f b :: u64)) xs"
  shows "(if length (takeWhile P xs) = 0 then 0 else f (xs ! (length (takeWhile P xs) - 1))) =
    Max (insert 0 (f ` {x \<in> set xs. P x}))"
proof -
  have tw: "takeWhile P xs = filter P xs"
    by (rule takeWhile_filter, rule sorted_wrt_mono_rel [OF _ assms]) simp
  show ?thesis
  proof (cases "filter P xs = []")
    case True
    then have e: "{x \<in> set xs. P x} = {}" by (auto simp: filter_empty_conv)
    show ?thesis unfolding e tw True by simp
  next
    case False
    have "sorted_wrt (\<lambda>a b. f a \<le> f b) (filter P xs)"
      by (rule sorted_wrt_filter, rule sorted_wrt_mono_rel [OF _ assms]) simp
    from last_Max [OF False this] have "f (last (takeWhile P xs)) = Max (insert 0 (f ` {x \<in> set xs. P x}))"
      by (simp add: tw)
    moreover have "xs ! (length (takeWhile P xs) - 1) = last (takeWhile P xs)"
      using False tw by (metis diff_less last_conv_nth length_greater_0_conv takeWhile_nth zero_less_one)
    ultimately show ?thesis using False tw by simp
  qed
qed

lemma ProximalTime_Max:
  assumes "ordered (stm_pairs m)"
  shows "GetProximalTimeBeforeSeqno m s = Max (insert 0 (st_time ` {p \<in> set (stm_pairs m). st_seqno p < s}))"
proof -
  have "sorted_wrt (\<lambda>a b. (st_seqno b < s \<longrightarrow> st_seqno a < s) \<and> st_time a \<le> st_time b) (stm_pairs m)"
    by (rule sorted_wrt_mono_rel [OF _ assms]) (auto simp: pair_before_def)
  from proximal_Max [OF this] show ?thesis
    by (simp add: GetProximalTimeBeforeSeqno_def FindGreaterEqSeqno_def lower_bound_def SeqnoLess_def
        kUnknownTimeBeforeAll_def Let_def split: if_splits)
qed

lemma ProximalSeqno_Max:
  assumes "ordered (stm_pairs m)"
  shows "GetProximalSeqnoBeforeTime m t = Max (insert 0 (st_seqno ` {p \<in> set (stm_pairs m). st_time p \<le> t}))"
proof -
  have "sorted_wrt (\<lambda>a b. (st_time b \<le> t \<longrightarrow> st_time a \<le> t) \<and> st_seqno a \<le> st_seqno b) (stm_pairs m)"
    by (rule sorted_wrt_mono_rel [OF _ assms]) (auto simp: pair_before_def)
  from proximal_Max [OF this] show ?thesis
    by (simp add: GetProximalSeqnoBeforeTime_def FindGreaterTime_def upper_bound_def TimeLess_def
        kUnknownSeqnoBeforeAll_def Let_def not_less split: if_splits)
qed

section \<open>Pruning by time\<close>

lemma pop_old_suffix: "suffix (pop_old c ps) ps"
  by (induction c ps rule: pop_old.induct) (auto intro: suffix_ConsI)

lemma pop_old_last: "ps \<noteq> [] \<Longrightarrow> pop_old c ps \<noteq> [] \<and> last (pop_old c ps) = last ps"
  by (induction c ps rule: pop_old.induct) auto

lemma pop_old_span: "1 < length (pop_old c ps) \<Longrightarrow> ordered ps \<Longrightarrow> c < st_time (pop_old c ps ! 1)"
proof (induction c ps rule: pop_old.induct)
  case (1 c p q ps)
  then show ?case
    by (cases "st_time p \<le> c \<and> st_time q \<le> c") (auto simp: pair_before_def not_le)
qed simp_all

lemma pop_old_keeps: "c < st_time a \<Longrightarrow> \<exists>zs. pop_old c (xs @ [a, q]) = zs @ [a, q]"
proof (induction xs)
  case (Cons x xs)
  then show ?case by (cases xs) (auto simp: not_le)
qed (simp add: not_le)

lemma ordered_subseq: "subseq ys xs \<Longrightarrow> ordered xs \<Longrightarrow> ordered ys"
  by (induction rule: list_emb.induct) (auto dest: list_emb_set)

lemma suffix_ordered: "suffix ys xs \<Longrightarrow> ordered xs \<Longrightarrow> ordered ys"
  by (auto simp: suffix_def sorted_wrt_append)

lemma pop_old_Max:
  assumes "ordered ps" "c \<le> t"
  shows "Max (insert 0 (st_seqno ` {p \<in> set (pop_old c ps). st_time p \<le> t})) =
    Max (insert 0 (st_seqno ` {p \<in> set ps. st_time p \<le> t}))"
  using assms
proof (induction c ps rule: pop_old.induct)
  case (1 c p q ps)
  show ?case
  proof (cases "st_time p \<le> c \<and> st_time q \<le> c")
    case True
    have "Max (insert 0 (st_seqno ` {x \<in> set (p # q # ps). st_time x \<le> t})) =
        Max (insert (st_seqno p) (insert 0 (st_seqno ` {x \<in> set (q # ps). st_time x \<le> t})))"
      using True 1 by (intro arg_cong [of _ _ Max]) auto
    also have "\<dots> = Max (insert 0 (st_seqno ` {x \<in> set (q # ps). st_time x \<le> t}))"
    proof -
      have "st_seqno p \<le> Max (insert 0 (st_seqno ` {x \<in> set (q # ps). st_time x \<le> t}))"
        using True 1 by (intro Max.coboundedI [of _ "st_seqno q", THEN order_trans [rotated]])
          (auto simp: pair_before_def)
      then show ?thesis by (simp add: max_def)
    qed
    finally show ?thesis using 1 True by simp
  next
    case False
    then show ?thesis by auto
  qed
qed simp_all

section \<open>Sorting and merging\<close>

text \<open>Pairs that agree on the order of events, none of them the unknown sequence number or time.\<close>

definition chronological :: "SeqnoTimePair list \<Rightarrow> bool" where
  "chronological ps \<longleftrightarrow> (\<forall>a \<in> set ps. st_seqno a \<noteq> 0 \<and> st_time a \<noteq> 0) \<and>
     (\<forall>a \<in> set ps. \<forall>b \<in> set ps. st_seqno a < st_seqno b \<longrightarrow> st_time a \<le> st_time b)"

lemma less_eq_pair: "p \<le> q \<longleftrightarrow> st_seqno p < st_seqno q \<or> st_seqno p = st_seqno q \<and> st_time p \<le> st_time q"
  by (auto simp: less_eq_SeqnoTimePair_def)

lemma Pair_Merge_cases:
  assumes "p \<le> q" "st_time p \<le> st_time q"
  shows "Pair_Merge p q = (True, p) \<or> Pair_Merge p q = (True, q)
    \<or> Pair_Merge p q = (False, p) \<and> pair_before p q"
  using assms
  by (cases p; cases q) (auto simp: Pair_Merge_def less_eq_pair pair_before_def)

lemma chronological_subset: "chronological xs \<Longrightarrow> set ys \<subseteq> set xs \<Longrightarrow> chronological ys"
  unfolding chronological_def by blast

lemma merge_loop_ordered:
  assumes "chronological (p # ps)" "sorted (p # ps)"
  shows "ordered (merge_loop p ps) \<and> set (merge_loop p ps) \<subseteq> set (p # ps)
    \<and> (\<forall>q \<in> set (merge_loop p ps). st_seqno p \<le> st_seqno q \<and> st_time p \<le> st_time q)"
  using assms
proof (induction p ps rule: merge_loop.induct)
  case (2 p q ps)
  have pq: "p \<le> q" using 2 by simp
  have le: "st_seqno p \<le> st_seqno q" "st_time p \<le> st_time q"
    using 2 pq by (auto simp: chronological_def less_eq_pair)
  have c: "chronological (p # ps)" "chronological (q # ps)"
    using 2(3) by (auto elim: chronological_subset)
  have s: "sorted (p # ps)" "sorted (q # ps)" using 2(4) by auto
  consider "Pair_Merge p q = (True, p)" | "Pair_Merge p q = (True, q)"
    | "Pair_Merge p q = (False, p)" "pair_before p q"
    using Pair_Merge_cases [OF pq le(2)] by blast
  then show ?case
  proof cases
    case 1
    with 2(1) [OF 1 [symmetric] refl _ c(1) s(1)] show ?thesis by auto
  next
    case 2
    with "2.IH"(1) [OF 2 [symmetric] refl _ c(2) s(2)] le show ?thesis by (auto intro: order_trans)
  next
    case 3
    with "2.IH"(2) [OF 3(1) [symmetric] refl _ c(2) s(2)] le show ?thesis
      by (auto simp: pair_before_def intro: order_trans less_le_trans)
  qed
qed simp

lemma SortAndMerge_ordered:
  assumes "chronological (stm_pairs m)"
  shows "ordered (stm_pairs (SortAndMerge m)) \<and> set (stm_pairs (SortAndMerge m)) \<subseteq> set (stm_pairs m)"
proof (cases "sort (stm_pairs m)")
  case (Cons p ps)
  then have "set (p # ps) = set (stm_pairs m)" by (metis set_sort)
  then have "chronological (p # ps)" using chronological_subset [OF assms] by simp
  moreover have "sorted (p # ps)" by (metis Cons sorted_sort)
  ultimately show ?thesis
    using merge_loop_ordered [of p ps] \<open>set (p # ps) = set (stm_pairs m)\<close> Cons
    by (simp add: SortAndMerge_def)
qed (simp add: SortAndMerge_def)

section \<open>Removal by capacity\<close>

abbreviation live :: "SeqnoTimePair \<Rightarrow> bool" where
  "live p \<equiv> st_time p \<noteq> kUnknownTimeBeforeAll"

text \<open>
  The state of the greedy removal: the ends are live, and the queue holds each live pair between
  them once.
\<close>

definition queued :: "SeqnoTimePair list \<Rightarrow> RemovalCandidate list \<Rightarrow> bool" where
  "queued ps pq \<longleftrightarrow> 2 \<le> length ps \<and> live (ps ! 0) \<and> live (ps ! (length ps - 1)) \<and>
     distinct (map rc_it pq) \<and> set (map rc_it pq) = {i. 0 < i \<and> i < length ps - 1 \<and> live (ps ! i)}"

lemma queuedD:
  assumes "queued ps pq"
  shows "2 \<le> length ps" "live (ps ! 0)" "live (ps ! (length ps - 1))" "distinct (map rc_it pq)"
    and queued_its: "set (map rc_it pq) = {i. 0 < i \<and> i < length ps - 1 \<and> live (ps ! i)}"
  using assms unfolding queued_def by simp_all

lemma queued_it:
  assumes "queued ps (rc # pq)"
  shows "0 < rc_it rc" "rc_it rc < length ps - 1" "live (ps ! rc_it rc)"
proof -
  have "rc_it rc \<in> set (map rc_it (rc # pq))" by simp
  then show "0 < rc_it rc" "rc_it rc < length ps - 1" "live (ps ! rc_it rc)"
    unfolding queued_its [OF assms] by auto
qed

lemma first_time_ex: "p \<in> set ps \<Longrightarrow> live p \<Longrightarrow> \<exists>t. first_time ps = Some t"
  by (induction ps) auto

lemma actual_gap_ex:
  assumes "2 \<le> length ps" "live (ps ! 0)" "live (ps ! (length ps - 1))" "0 < i" "i < length ps - 1"
  shows "\<exists>g. actual_gap ps i = Some g"
proof -
  have "ps \<noteq> []" "i + 1 < length ps" using assms by auto
  then have "ps ! (length ps - 1) = last (drop (i + 1) ps)" "drop (i + 1) ps \<noteq> []"
    using last_conv_nth [of ps] last_drop [of "i + 1" ps] by simp_all
  then have "ps ! (length ps - 1) \<in> set (drop (i + 1) ps)" by (metis last_in_set)
  moreover have "ps ! 0 \<in> set (rev (take i ps))"
    using assms nth_mem [of 0 "take i ps"] by simp
  ultimately obtain a b where "first_time (drop (i + 1) ps) = Some a" "first_time (rev (take i ps)) = Some b"
    using assms(2,3) first_time_ex by meson
  then show ?thesis by (simp add: actual_gap_def)
qed

lemma queued_length:
  assumes "queued ps pq"
  shows "length pq + 2 = length (filter live ps)"
proof -
  let ?I = "{i. i < length ps \<and> live (ps ! i)}"
  have "length pq = card {i. 0 < i \<and> i < length ps - 1 \<and> live (ps ! i)}"
    using assms distinct_card [of "map rc_it pq"] by (simp add: queued_def)
  moreover have ends: "2 \<le> length ps" "live (ps ! 0)" "live (ps ! (length ps - 1))"
    using assms by (simp_all add: queued_def)
  have "i \<in> ?I \<longleftrightarrow> i \<in> insert 0 (insert (length ps - 1) {i. 0 < i \<and> i < length ps - 1 \<and> live (ps ! i)})"
    for i using ends by (cases "i = 0"; cases "i = length ps - 1") auto
  then have "?I = insert 0 (insert (length ps - 1) {i. 0 < i \<and> i < length ps - 1 \<and> live (ps ! i)})"
    by blast
  moreover have "card \<dots> = 2 + card {i. 0 < i \<and> i < length ps - 1 \<and> live (ps ! i)}"
    using ends by (simp add: card_insert_if)
  ultimately show ?thesis by (simp add: length_filter_conv_card)
qed

lemma queued_mark:
  assumes "queued ps (rc # pq)"
  shows "queued (mark ps (rc_it rc)) pq"
proof -
  note rc = queued_it [OF assms] and its = queued_its [OF assms]
  have "rc_it ` set pq = set (map rc_it (rc # pq)) - {rc_it rc}"
    using queuedD(4) [OF assms] by auto
  also have "\<dots> = {i. 0 < i \<and> i < length ps - 1 \<and> live (ps ! i)} - {rc_it rc}"
    by (simp only: its)
  also have "\<dots> = {i. 0 < i \<and> i < length ps - 1 \<and> live (mark ps (rc_it rc) ! i)}"
    using rc by (auto simp: mark_def nth_list_update)
  finally show ?thesis using queuedD [OF assms] rc by (simp add: queued_def mark_def)
qed

lemma queued_mset:
  assumes "mset pq = mset pq'"
  shows "queued ps pq = queued ps pq'"
proof -
  have "mset (map rc_it pq) = mset (map rc_it pq')" using assms by simp
  from mset_eq_imp_distinct_iff [OF this] mset_eq_setD [OF this]
  show ?thesis unfolding queued_def by (simp only:)
qed

lemma filter_mark:
  assumes "i < length ps" "live (ps ! i)"
  shows "Suc (length (filter live (mark ps i))) = length (filter live ps)
    \<and> subseq (filter live (mark ps i)) (filter live ps)"
proof -
  have ps: "ps = take i ps @ ps ! i # drop (Suc i) ps" using assms(1) by (rule id_take_nth_drop)
  have mk: "mark ps i = take i ps @ SeqnoTimePair (st_seqno (ps ! i)) 0 # drop (Suc i) ps"
    using assms(1) by (simp add: mark_def upd_conv_take_nth_drop kUnknownTimeBeforeAll_def)
  show ?thesis
    using assms(2) by (subst (2 4) ps, simp add: mk kUnknownTimeBeforeAll_def) (auto intro: list_emb_append_mono)
qed

lemma remove_candidates_ok:
  assumes "queued ps pq" "n \<le> length pq"
  shows "\<exists>ps'. remove_candidates ps pq n = Some ps'
    \<and> length (filter live ps') + n = length (filter live ps)
    \<and> subseq (filter live ps') (filter live ps)
    \<and> length ps' = length ps \<and> ps' ! 0 = ps ! 0 \<and> ps' ! (length ps - 1) = ps ! (length ps - 1)"
  using assms
proof (induction ps pq n rule: remove_candidates.induct)
  case (3 ps c cs n)
  obtain rc pq where pop: "pq_pop ps c cs = (rc, pq)" by (cases "pq_pop ps c cs")
  have q: "queued ps (rc # pq)"
    using 3(3) mset_pq_pop [OF pop] queued_mset [of "rc # pq" "c # cs"] by simp
  note rc = queued_it [OF q] and ends = queuedD [OF q]
  obtain g where g: "actual_gap ps (rc_it rc) = Some g"
    using actual_gap_ex [OF ends(1-3) rc(1,2)] by blast
  have len: "length pq = length cs"
    using arg_cong [of _ _ size, OF mset_pq_pop [OF pop]] by simp
  show ?case
  proof (cases "rc_gap rc = g")
    case True
    with 3(1) [OF pop [symmetric] refl g True] queued_mark [OF q] 3(4) len
    obtain ps' where "remove_candidates (mark ps (rc_it rc)) pq n = Some ps'"
      "length (filter live ps') + n = length (filter live (mark ps (rc_it rc)))"
      "subseq (filter live ps') (filter live (mark ps (rc_it rc)))"
      "length ps' = length ps" "ps' ! 0 = ps ! 0" "ps' ! (length ps - 1) = ps ! (length ps - 1)"
      using rc by (auto simp: mark_def)
    then show ?thesis
      using filter_mark [of "rc_it rc" ps] rc pop g True
      by (auto intro: subseq_order.trans)
  next
    case False
    moreover have "queued ps (RemovalCandidate g (rc_it rc) # pq)"
      using q unfolding queued_def by simp
    ultimately show ?thesis
      using 3(2) [OF pop [symmetric] refl g False] 3(4) len pop g by simp
  qed
qed simp_all

lemma queue_candidates_its: "map rc_it (queue_candidates a i b ps) = [i ..< i + length ps]"
  by (induction ps arbitrary: a i b) (simp_all del: upt_Suc add: upt_conv_Cons)

lemma queued_initial:
  assumes "\<forall>x \<in> set (p # q # ps). live x"
  shows "queued (p # q # ps) (queue_candidates (st_time p) 1 (st_time q) ps)"
proof -
  define xs where "xs = p # q # ps"
  have l: "live (xs ! i)" if "i < length xs" for i
    using assms nth_mem [OF that] unfolding xs_def [symmetric] by blast
  have len: "length xs = length ps + 2" by (simp add: xs_def)
  then have "set [1 ..< 1 + length ps] = {i. 0 < i \<and> i < length xs - 1 \<and> live (xs ! i)}"
    using l by (auto simp del: upt_Suc)
  moreover have "live (xs ! 0)" "live (xs ! (length xs - 1))" using l len by simp_all
  ultimately show ?thesis
    unfolding queued_def queue_candidates_its xs_def [symmetric] using len
    by (simp del: upt_Suc)
qed

lemma ends_filter:
  assumes "xs \<noteq> []"
  shows "P (hd xs) \<Longrightarrow> hd (filter P xs) = hd xs" "P (last xs) \<Longrightarrow> last (filter P xs) = last xs"
  using assms by (cases xs; simp) (cases xs rule: rev_cases; simp)

lemma capacity_update [simp]:
  "effective_capacity (m\<lparr>stm_pairs := ps\<rparr>) b = effective_capacity m b"
  "effective_capacity (m\<lparr>stm_enforced := e\<rparr>) b = effective_capacity m b"
  "effective_capacity (m\<lparr>stm_max_time_span := x\<rparr>) b = effective_capacity m b"
  by (simp_all add: effective_capacity_def strict_capacity_def)

lemma effective_ge: "strict_capacity m \<le> effective_capacity m s"
  by (auto simp: effective_capacity_def Let_def)

lemma effective_mono: "effective_capacity m s \<le> effective_capacity m False"
  using effective_ge [of m False] by (cases s) (auto simp: effective_capacity_def Let_def)

lemma strict_ge: "stm_capacity m \<noteq> 0 \<Longrightarrow> 2 \<le> unat (strict_capacity m)"
proof -
  assume "stm_capacity m \<noteq> 0"
  then have "unat (strict_capacity m) \<noteq> 0" "unat (strict_capacity m) \<noteq> 1"
    by (auto simp: strict_capacity_def word_unat_eq_iff split: if_splits)
  then show ?thesis by linarith
qed

text \<open>
  What \<^verbatim>\<open>EnforceCapacity\<close> does to a mapping whose times are known: it does nothing within the
  effective capacity, and beyond it keeps exactly the strict capacity, the first and the last pair
  among them.
\<close>

lemma EnforceCapacity_ok:
  assumes "\<forall>p \<in> set (stm_pairs m). live p" "stm_capacity m \<noteq> 0"
  shows "\<exists>ps. EnforceCapacity m s = Some (m\<lparr>stm_pairs := ps\<rparr>) \<and> subseq ps (stm_pairs m)
    \<and> (if length (stm_pairs m) \<le> unat (effective_capacity m s) then ps = stm_pairs m
       else length ps = unat (strict_capacity m) \<and> hd ps = hd (stm_pairs m) \<and> last ps = last (stm_pairs m))"
proof (cases "length (stm_pairs m) \<le> unat (effective_capacity m s)")
  case True
  then show ?thesis using assms(2) by (simp add: EnforceCapacity_def)
next
  case False
  let ?ps = "stm_pairs m"
  have cap: "2 \<le> unat (strict_capacity m)" "unat (strict_capacity m) < length ?ps"
    using strict_ge [OF assms(2)] False effective_ge [of m s] by (auto simp: word_le_nat_alt)
  then obtain p q xs where ps: "?ps = p # q # xs"
    by (cases ?ps rule: remdups_adj.cases) auto
  let ?pq = "queue_candidates (st_time p) 1 (st_time q) xs"
  have "queued ?ps ?pq" using queued_initial [of p q xs] assms(1) unfolding ps by simp
  moreover have "length ?ps - unat (strict_capacity m) \<le> length ?pq"
    using arg_cong [OF queue_candidates_its, of length "st_time p" 1 "st_time q" xs] cap ps by simp
  ultimately obtain ps' where r: "remove_candidates ?ps ?pq (length ?ps - unat (strict_capacity m)) = Some ps'"
    "length (filter live ps') + (length ?ps - unat (strict_capacity m)) = length (filter live ?ps)"
    "subseq (filter live ps') (filter live ?ps)" "length ps' = length ?ps"
    "ps' ! 0 = ?ps ! 0" "ps' ! (length ?ps - 1) = ?ps ! (length ?ps - 1)"
    using remove_candidates_ok by blast
  have all: "filter live ?ps = ?ps" using assms(1) by simp
  have ne: "?ps \<noteq> []" "ps' \<noteq> []" using r(4) ps by auto
  then have "hd ps' = hd ?ps" "last ps' = last ?ps"
    using r(4-6) by (simp_all add: hd_conv_nth last_conv_nth)
  moreover have "live (hd ?ps)" "live (last ?ps)" using ne(1) assms(1) by simp_all
  ultimately have "hd (filter live ps') = hd ?ps" "last (filter live ps') = last ?ps"
    using ends_filter [OF ne(2), of live] by simp_all
  then show ?thesis
    using r all cap False assms(2) ps by (auto simp: EnforceCapacity_def)
qed

section \<open>Known pairs and their order\<close>

definition known :: "SeqnoTimePair list \<Rightarrow> bool" where
  "known ps \<longleftrightarrow> (\<forall>a \<in> set ps. st_seqno a \<noteq> 0 \<and> st_time a \<noteq> 0)"

abbreviation seqno_sorted :: "SeqnoTimePair list \<Rightarrow> bool" where
  "seqno_sorted \<equiv> sorted_wrt (\<lambda>a b. st_seqno a < st_seqno b)"

lemma known_simps [simp]:
  "known []" "known (p # ps) \<longleftrightarrow> st_seqno p \<noteq> 0 \<and> st_time p \<noteq> 0 \<and> known ps"
  "known (xs @ ys) \<longleftrightarrow> known xs \<and> known ys"
  by (auto simp: known_def)

lemma known_subset: "known xs \<Longrightarrow> set ys \<subseteq> set xs \<Longrightarrow> known ys"
  unfolding known_def by blast

lemma chronological_known: "chronological ps \<Longrightarrow> known ps"
  by (simp add: chronological_def known_def)

lemma seqno_sorted_length:
  assumes "seqno_sorted ps" "known ps"
  shows "length ps \<le> unat (- 1 :: u64)"
proof -
  have "distinct (map st_seqno ps)" using assms(1) by (induction ps) auto
  then have "length ps = card (st_seqno ` set ps)" by (metis distinct_card length_map set_map)
  also have "\<dots> \<le> card (UNIV - {0 :: u64})" using assms(2) by (intro card_mono) (auto simp: known_def)
  also have "\<dots> = unat (- 1 :: u64)"
    by (simp add: card_Diff_singleton card_word unsigned_minus_1_eq_mask mask_eq_exp_minus_1)
  finally show ?thesis .
qed

section \<open>The limits of an enforced mapping\<close>

definition within_span :: "u64 \<Rightarrow> SeqnoTimePair list \<Rightarrow> bool" where
  "within_span span ps \<longleftrightarrow>
     (1 < length ps \<and> span \<le> st_time (last ps) \<longrightarrow> st_time (last ps) - span < st_time (ps ! 1))"

definition within_capacity :: "SeqnoToTimeMapping \<Rightarrow> bool" where
  "within_capacity m \<longleftrightarrow> (if stm_capacity m = 0 then stm_pairs m = []
     else length (stm_pairs m) \<le> unat (effective_capacity m False))"

definition stm_inv :: "SeqnoToTimeMapping \<Rightarrow> bool" where
  "stm_inv m \<longleftrightarrow> chronological (stm_pairs m) \<and>
     (stm_enforced m \<longrightarrow> ordered (stm_pairs m) \<and> within_capacity m
        \<and> within_span (stm_max_time_span m) (stm_pairs m))"

lemma diff_le_mono_word: "(c :: u64) \<le> a \<Longrightarrow> a \<le> b \<Longrightarrow> a - c \<le> b - c"
  by (simp add: word_le_nat_alt unat_sub)

lemma EnforceMaxTimeSpan_ok:
  assumes "ordered (stm_pairs m)" and "now = 0 \<or> (\<forall>p \<in> set (stm_pairs m). st_time p \<le> now)"
  shows "\<exists>ps. EnforceMaxTimeSpan m now = m\<lparr>stm_pairs := ps\<rparr> \<and> suffix ps (stm_pairs m)
    \<and> within_span (stm_max_time_span m) ps"
proof -
  let ?ps = "stm_pairs m" and ?span = "stm_max_time_span m"
  have pop: "within_span ?span (pop_old c ?ps)" if "st_time (last ?ps) - ?span \<le> c \<or> st_time (last ?ps) < ?span" for c
    using that pop_old_last [of ?ps c] pop_old_span [of c ?ps] assms(1) suffix_length_le [OF pop_old_suffix, of c ?ps]
    by (cases "?ps = []") (auto simp: within_span_def)
  have small: "within_span ?span ?ps" if "length ?ps \<le> 1 \<or> st_time (last ?ps) < ?span"
    using that by (auto simp: within_span_def)
  have last: "st_time (last ?ps) \<le> now" if "0 < now" "\<not> length ?ps \<le> 1"
    using assms(2) that last_in_set [of ?ps] by (cases "?ps = []") auto
  show ?thesis
  proof (cases "length ?ps \<le> 1 \<or> (if 0 < now then now else st_time (last ?ps)) < ?span")
    case True
    then have "EnforceMaxTimeSpan m now = m" by (auto simp: EnforceMaxTimeSpan_def Let_def)
    moreover have "within_span ?span ?ps" using True small last by (auto split: if_splits dest: le_less_trans)
    ultimately show ?thesis by (auto intro!: exI [of _ ?ps])
  next
    case False
    let ?c = "(if 0 < now then now else st_time (last ?ps)) - ?span"
    have "EnforceMaxTimeSpan m now = m\<lparr>stm_pairs := pop_old ?c ?ps\<rparr>"
      using False by (auto simp: EnforceMaxTimeSpan_def Let_def)
    moreover have "st_time (last ?ps) - ?span \<le> ?c \<or> st_time (last ?ps) < ?span"
      using False last diff_le_mono_word [of ?span "st_time (last ?ps)" now] by (auto simp: not_less)
    ultimately show ?thesis using pop pop_old_suffix by blast
  qed
qed

lemma within_span_subset:
  assumes "ordered ps" "ordered ps'" "set ps' \<subseteq> set ps" "hd ps' = hd ps" "last ps' = last ps" "within_span span ps"
  shows "within_span span ps'"
proof (cases "1 < length ps'")
  case True
  then obtain a b xs where ps': "ps' = a # b # xs" by (cases ps' rule: remdups_adj.cases) auto
  then have "b \<in> set ps" "a \<in> set ps" using assms(3) by auto
  moreover have "st_seqno a < st_seqno b" using assms(2) ps' by (simp add: pair_before_def)
  ultimately obtain c ys where ps: "ps = a # c # ys" "b = c \<or> b \<in> set ys"
    using assms(4) ps' by (cases ps rule: remdups_adj.cases) auto
  then have "st_time c \<le> st_time b" using assms(1) by (auto simp: pair_before_def)
  then show ?thesis using assms(5,6) ps ps' by (auto simp: within_span_def)
qed (simp add: within_span_def)

lemma EnforceCapacity_inv:
  assumes "chronological (stm_pairs m)" "ordered (stm_pairs m)" "within_span (stm_max_time_span m) (stm_pairs m)"
    and "stm_enforced m"
  shows "\<exists>ps. EnforceCapacity m s = Some (m\<lparr>stm_pairs := ps\<rparr>) \<and> set ps \<subseteq> set (stm_pairs m)
    \<and> stm_inv (m\<lparr>stm_pairs := ps\<rparr>)"
proof (cases "stm_capacity m = 0")
  case True
  then show ?thesis
    by (intro exI [of _ "[]"])
      (simp add: EnforceCapacity_def stm_inv_def chronological_def within_span_def within_capacity_def)
next
  case False
  have "\<forall>p \<in> set (stm_pairs m). live p"
    using assms(1) by (simp add: chronological_def kUnknownTimeBeforeAll_def)
  from EnforceCapacity_ok [OF this False, of s] obtain ps where
    e: "EnforceCapacity m s = Some (m\<lparr>stm_pairs := ps\<rparr>)" "subseq ps (stm_pairs m)"
    "if length (stm_pairs m) \<le> unat (effective_capacity m s) then ps = stm_pairs m
       else length ps = unat (strict_capacity m) \<and> hd ps = hd (stm_pairs m) \<and> last ps = last (stm_pairs m)"
    by blast
  have sub: "set ps \<subseteq> set (stm_pairs m)" using list_emb_set [OF e(2)] by auto
  have ord: "ordered ps" using e(2) assms(2) by (rule ordered_subseq)
  have "hd ps = hd (stm_pairs m)" "last ps = last (stm_pairs m)" using e(3) by (auto split: if_splits)
  then have "within_span (stm_max_time_span m) ps"
    using within_span_subset [OF assms(2) ord sub _ _ assms(3)] by simp
  moreover have "length ps \<le> unat (effective_capacity m False)"
    using e(3) effective_mono [of m s] effective_ge [of m False]
    by (auto simp: word_le_nat_alt split: if_splits)
  moreover have "chronological ps" using assms(1) sub by (rule chronological_subset)
  ultimately show ?thesis using e(1) ord sub False
    by (intro exI [of _ ps]) (simp add: stm_inv_def within_capacity_def)
qed

lemma enforce_both:
  assumes "chronological (stm_pairs m)" "ordered (stm_pairs m)" "stm_enforced m"
    and "now = 0 \<or> (\<forall>p \<in> set (stm_pairs m). st_time p \<le> now)"
  shows "\<exists>m'. EnforceCapacity (EnforceMaxTimeSpan m now) s = Some m' \<and> stm_inv m'"
proof -
  obtain ps where ps: "EnforceMaxTimeSpan m now = m\<lparr>stm_pairs := ps\<rparr>" "suffix ps (stm_pairs m)"
    "within_span (stm_max_time_span m) ps"
    using EnforceMaxTimeSpan_ok [OF assms(2,4)] by blast
  then have "chronological ps" "ordered ps"
    using chronological_subset [OF assms(1) set_mono_suffix] suffix_ordered [OF _ assms(2)] by auto
  with EnforceCapacity_inv [of "m\<lparr>stm_pairs := ps\<rparr>" s] ps assms(3) show ?thesis by auto
qed

lemma SetMaxTimeSpan_inv: "stm_inv m \<Longrightarrow> stm_inv (SetMaxTimeSpan m x)"
proof -
  assume inv: "stm_inv m"
  show ?thesis
  proof (cases "stm_enforced m")
    case True
    obtain ps where ps: "EnforceMaxTimeSpan (m\<lparr>stm_max_time_span := x\<rparr>) 0 = m\<lparr>stm_max_time_span := x, stm_pairs := ps\<rparr>"
      "suffix ps (stm_pairs m)" "within_span x ps"
      using EnforceMaxTimeSpan_ok [of "m\<lparr>stm_max_time_span := x\<rparr>" 0] inv True by (auto simp: stm_inv_def)
    moreover have "length ps \<le> length (stm_pairs m)" "set ps \<subseteq> set (stm_pairs m)" "ordered ps"
      using suffix_length_le [OF ps(2)] set_mono_suffix [OF ps(2)] suffix_ordered [OF ps(2)] inv True
      by (simp_all add: stm_inv_def)
    ultimately show ?thesis using inv True
      by (auto simp: SetMaxTimeSpan_def stm_inv_def within_capacity_def elim: chronological_subset)
  qed (use inv in \<open>simp add: SetMaxTimeSpan_def stm_inv_def\<close>)
qed

lemma SetCapacity_inv: "stm_inv m \<Longrightarrow> \<exists>m'. SetCapacity m c = Some m' \<and> stm_inv m'"
  using EnforceCapacity_inv [of "m\<lparr>stm_capacity := c\<rparr>" True]
  by (cases "stm_enforced m") (auto simp: SetCapacity_def stm_inv_def Let_def)

lemma SortAndMerge_fields:
  "stm_enforced (SortAndMerge m)" "stm_max_time_span (SortAndMerge m) = stm_max_time_span m"
  "stm_capacity (SortAndMerge m) = stm_capacity m"
  by (simp_all add: SortAndMerge_def)

lemma SortAndMerge_enforce:
  assumes "chronological (stm_pairs m)" and "now = 0 \<or> (\<forall>p \<in> set (stm_pairs m). st_time p \<le> now)"
  shows "\<exists>m'. EnforceCapacity (EnforceMaxTimeSpan (SortAndMerge m) now) s = Some m' \<and> stm_inv m'"
  using SortAndMerge_ordered [OF assms(1)] assms chronological_subset [OF assms(1)]
  by (intro enforce_both) (auto simp: SortAndMerge_fields)

lemma Enforce_inv:
  assumes "stm_inv m" and "now = 0 \<or> (\<forall>p \<in> set (stm_pairs m). st_time p \<le> now)"
  shows "\<exists>m'. Enforce m now = Some m' \<and> stm_inv m'"
  using assms SortAndMerge_enforce [of m now True] enforce_both [of m now True] EnforceCapacity_inv [of m True]
  by (auto simp: Enforce_def stm_inv_def Let_def)

lemma Pair_Merge_either: "st_seqno p \<le> st_seqno q \<Longrightarrow> Pair_Merge p q = (b, r) \<Longrightarrow> r = p \<or> r = q"
  by (cases p; cases q) (auto simp: Pair_Merge_def min_def max_def split: if_splits)

lemma chronological_append:
  "chronological (xs @ [q]) \<Longrightarrow> p \<in> set xs \<Longrightarrow> st_seqno p < st_seqno q \<Longrightarrow> st_time p \<le> st_time q"
  by (auto simp: chronological_def)

lemma Append_tail_ordered:
  assumes "ordered ps" "ps \<noteq> []" "chronological (ps @ [q])" "st_seqno (last ps) \<le> st_seqno q"
  shows "ordered (butlast ps @ [q])" "st_seqno (last ps) < st_seqno q \<Longrightarrow> ordered (ps @ [q])"
proof -
  obtain xs l where ps: "ps = xs @ [l]" using assms(2) by (cases ps rule: rev_cases) auto
  have "pair_before a q" if "a \<in> set xs" for a
    using that assms(1,3,4) ps chronological_append [OF assms(3), of a]
    by (auto simp: pair_before_def sorted_wrt_append)
  then show "ordered (butlast ps @ [q])" using assms(1) ps by (simp add: sorted_wrt_append)
  show "ordered (ps @ [q])" if "st_seqno (last ps) < st_seqno q"
    using that assms(1,3) \<open>\<And>a. a \<in> set xs \<Longrightarrow> pair_before a q\<close> ps
      chronological_append [OF assms(3), of l]
    by (auto simp: sorted_wrt_append pair_before_def)
qed

lemma STM_Append_inv:
  assumes "stm_inv m" and "seqno \<noteq> 0 \<longrightarrow> chronological (stm_pairs m @ [SeqnoTimePair seqno time])"
  shows "\<exists>b m'. STM_Append m seqno time = Some (b, m') \<and> stm_inv m'"
proof -
  let ?q = "SeqnoTimePair seqno time" and ?ps = "stm_pairs m" 
  let ?l = "last ?ps"
  have finish: "\<exists>b m'. map_option (Pair c) (EnforceCapacity (EnforceMaxTimeSpan
        (if \<not> stm_enforced m1 then SortAndMerge m1 else m1) 0) False) = Some (b, m') \<and> stm_inv m'"
    if "chronological ps" "stm_enforced m \<longrightarrow> ordered ps" "m1 = m\<lparr>stm_pairs := ps\<rparr>" for c m1 ps
    using SortAndMerge_enforce [of m1 0 False] enforce_both [of m1 0 False] that by auto
  consider "stm_capacity m = 0" | "stm_capacity m \<noteq> 0" "seqno \<noteq> 0" "?ps = []"
    | "stm_capacity m \<noteq> 0" "seqno = 0" | "stm_capacity m \<noteq> 0" "seqno \<noteq> 0" "?ps \<noteq> []" by blast
  then show ?thesis
  proof cases
    case 1
    then show ?thesis using assms(1) by (auto simp: STM_Append_def)
  next
    case 2
    have "2 \<le> unat (effective_capacity m False)"
      using strict_ge [OF 2(1)] effective_ge [of m False] by (simp add: word_le_nat_alt)
    then show ?thesis using 2 assms
      by (auto simp: STM_Append_def stm_inv_def within_span_def within_capacity_def)
  next
    case 3
    then show ?thesis using finish [of ?ps m False] assms(1) by (simp add: STM_Append_def stm_inv_def Let_def)
  next
    case 4
    have chr: "chronological (?ps @ [?q])" using assms(2) 4 by simp
    have sub: "chronological xs" if "set xs \<subseteq> set (?ps @ [?q])" for xs
      using chronological_subset [OF chr that] .
    have bl: "butlast ?ps @ [?l] = ?ps" using 4 by simp
    have tl: "set (butlast ?ps @ [?q]) \<subseteq> set (?ps @ [?q])" by (auto dest: in_set_butlastD)
    note tail = Append_tail_ordered [OF _ 4(3) chr]
    obtain mg r where r: "Pair_Merge ?l ?q = (mg, r)" by (cases "Pair_Merge ?l ?q")
    show ?thesis
    proof (cases "st_seqno ?l \<le> seqno")
      case True
      have either: "r = ?l \<or> r = ?q" using Pair_Merge_either r True by simp
      show ?thesis
      proof (cases mg)
        case merged: True
        have "stm_enforced m \<longrightarrow> ordered (butlast ?ps @ [r])"
          using either tail(1) assms(1) True bl by (auto simp: stm_inv_def)
        moreover have "chronological (butlast ?ps @ [r])" using either sub [OF tl] assms(1) bl
          by (auto simp: stm_inv_def)
        ultimately show ?thesis
          using finish [of "butlast ?ps @ [r]" _ False, OF _ _ refl] 4 True r merged
          by (simp add: STM_Append_def Let_def)
      next
        case False
        have nm: "st_seqno ?l < seqno" "st_time ?l < time" "r = ?l"
          using r False True by (auto simp: Pair_Merge_def split: if_splits)
        have "stm_enforced m \<longrightarrow> ordered (?ps @ [?q])"
          using tail(2) nm True assms(1) by (simp add: stm_inv_def)
        then show ?thesis
          using finish [of "?ps @ [?q]" _ True, OF chr _ refl] 4 True r False nm bl
          by (auto simp: STM_Append_def Let_def)
      qed
    next
      case False
      then show ?thesis
        using finish [of ?ps m False] finish [of "?ps @ [?q]" _ True, OF chr _ refl] assms(1) 4
        by (cases "stm_enforced m") (simp_all add: STM_Append_def stm_inv_def Let_def)
    qed
  qed
qed

lemma CopyFromSeqnoRange_pairs:
  "stm_pairs (CopyFromSeqnoRange m src a b) = stm_pairs m @
     take ((if b < a then FindGreaterEqSeqno src a else FindGreaterSeqno src b) - (FindGreaterEqSeqno src a - 1))
       (drop (FindGreaterEqSeqno src a - 1) (stm_pairs src))"
  by (simp add: CopyFromSeqnoRange_def Let_def)

lemma not_less_max: "\<not> (x :: u64) < - 1 \<Longrightarrow> x = - 1"
  by (simp add: antisym word_n1_ge not_less)

lemma within_span_max: "chronological ps \<Longrightarrow> within_span (- 1) ps"
  using not_less_max [of "st_time (last ps)"]
  by (auto simp: within_span_def chronological_def not_less word_gt_0 dest: nth_mem [of 1])

lemma effective_unlimited: "stm_capacity m = - 1 \<Longrightarrow> effective_capacity m False = - 1"
  by (simp add: effective_capacity_def strict_capacity_def Let_def)

section \<open>Copying a range\<close>

lemma Max_dominated:
  assumes "finite B" "A \<subseteq> B" "A \<noteq> {}" "\<And>b. b \<in> B \<Longrightarrow> \<exists>a \<in> A. b \<le> (a :: u64)"
  shows "Max A = Max B"
proof (rule antisym)
  show "Max A \<le> Max B" using assms by (intro Max_mono)
  have "Max B \<in> B" using assms by (intro Max_in) auto
  then obtain a where "a \<in> A" "Max B \<le> a" using assms(4) by blast
  then show "Max B \<le> Max A" using assms(1,2) by (meson Max_ge finite_subset order_trans)
qed

lemma takeWhile_length_mono:
  "(\<And>x. P x \<Longrightarrow> Q x) \<Longrightarrow> length (takeWhile P xs) \<le> length (takeWhile Q xs)"
  by (induction xs) auto

lemma nth_length_takeWhile_pred: "n < length (takeWhile P xs) \<Longrightarrow> P (xs ! n)"
  by (metis nth_mem set_takeWhileD takeWhile_nth)

lemma Copy_ProximalTime:
  assumes "ordered (stm_pairs src)" "stm_pairs m = []" "a \<le> s" "s \<le> b"
  shows "GetProximalTimeBeforeSeqno (CopyFromSeqnoRange m src a b) s = GetProximalTimeBeforeSeqno src s"
proof -
  let ?ps = "stm_pairs src"
  define i where "i = FindGreaterEqSeqno src a"
  define F where "F = takeWhile (\<lambda>p. st_seqno p \<le> b) ?ps"
  define c where "c = drop (i - 1) F"
  have F: "F = filter (\<lambda>p. st_seqno p \<le> b) ?ps"
    unfolding F_def by (rule takeWhile_filter, rule sorted_wrt_mono_rel [OF _ assms(1)]) (auto simp: pair_before_def)
  have lF: "length F = FindGreaterSeqno src b"
    by (simp add: F_def FindGreaterSeqno_def upper_bound_def SeqnoLess_def not_less)
  have Ft: "F = take (FindGreaterSeqno src b) ?ps"
    unfolding lF [symmetric] unfolding F_def by (rule takeWhile_eq_take)
  have copy: "stm_pairs (CopyFromSeqnoRange m src a b) = c"
    using assms by (simp add: CopyFromSeqnoRange_pairs c_def Ft drop_take i_def)
  have ordF: "ordered F" unfolding F using assms(1) by (rule sorted_wrt_filter)
  then have ordc: "ordered c" by (simp add: c_def sorted_wrt_drop)
  have dom: "\<exists>q \<in> set c. st_seqno q < s \<and> st_time p \<le> st_time q" if pF: "p \<in> set F" "st_seqno p < s" for p
  proof -
    obtain j where j: "j < length F" "F ! j = p" using pF(1) by (auto simp: in_set_conv_nth)
    show ?thesis
    proof (cases "j < i - 1")
      case True
      have tw: "length (takeWhile (\<lambda>p. st_seqno p < a) ?ps) = i"
        by (simp add: i_def FindGreaterEqSeqno_def lower_bound_def SeqnoLess_def)
      have "i \<le> length F"
        unfolding tw [symmetric] F_def using assms(3,4) by (intro takeWhile_length_mono) auto
      then have i1: "i - 1 < length F" "F ! (i - 1) = ?ps ! (i - 1)" using True by (auto simp: F_def takeWhile_nth)
      have "st_seqno (?ps ! (i - 1)) < a"
        using True tw nth_length_takeWhile_pred [of "i - 1" "\<lambda>p. st_seqno p < a" ?ps] by simp
      moreover have "F ! (i - 1) \<in> set c"
        using i1 by (auto simp: c_def in_set_conv_nth intro!: exI [of _ 0])
      moreover have "pair_before p (F ! (i - 1))" using sorted_wrt_nth_less [OF ordF True i1(1)] j by simp
      ultimately show ?thesis using assms(3) i1
        by (intro bexI [of _ "F ! (i - 1)"]) (auto simp: pair_before_def)
    next
      case False
      then have "p \<in> set c" using j by (auto simp: c_def in_set_conv_nth intro!: exI [of _ "j - (i - 1)"])
      then show ?thesis using pF(2) by auto
    qed
  qed
  have "Max (insert 0 (st_time ` {p \<in> set c. st_seqno p < s})) = Max (insert 0 (st_time ` {p \<in> set F. st_seqno p < s}))"
    using dom by (intro Max_dominated) (auto simp: c_def dest: in_set_dropD)
  also have "{p \<in> set F. st_seqno p < s} = {p \<in> set ?ps. st_seqno p < s}"
    using assms(4) by (auto simp: F)
  finally show ?thesis
    using ProximalTime_Max [OF assms(1)] ProximalTime_Max [of "CopyFromSeqnoRange m src a b"] copy ordc by simp
qed

section \<open>Encoding\<close>

lemma encode_deltas_append: "encode_deltas base ps dest = dest @ encode_deltas base ps []"
proof (induction ps arbitrary: base dest)
  case (Cons p ps)
  show ?case
    using Cons [of p "Pair_Encode (ComputeDelta p base) dest"] Cons [of p "Pair_Encode (ComputeDelta p base) []"]
    by (simp add: Pair_Encode_def PutVarint64Varint64_def)
qed simp

lemma ApplyDelta_Compute: "ApplyDelta (ComputeDelta p base) base = p"
  by (cases p) (simp add: ApplyDelta_def ComputeDelta_def)

context varint_decoder
begin

lemma Pair_Decode_enc: "Pair_Decode E (Pair_Encode p [] @ rest) = Inr (p, rest)"
  by (cases p) (simp add: Pair_Decode_def Pair_Encode_def PutVarint64Varint64_def GetVarint64_enc)

lemma decode_deltas_enc:
  "decode_deltas E (length ps) base (encode_deltas base ps [] @ rest) qs = (Inr rest, qs @ ps)"
proof (induction ps arbitrary: base qs)
  case (Cons p ps)
  have "encode_deltas base (p # ps) [] @ rest =
      Pair_Encode (ComputeDelta p base) [] @ encode_deltas p ps [] @ rest"
    using encode_deltas_append [of p ps "Pair_Encode (ComputeDelta p base) []"] by simp
  then show ?case using Cons [of p "qs @ [p]"]
    by (simp add: Pair_Decode_enc ApplyDelta_Compute Let_def)
qed simp

lemma DecodeImpl_enc:
  assumes "length (stm_pairs m) < 2 ^ 64"
  shows "DecodeImpl E (STM_EncodeTo m []) qs = (Status_OK, qs @ stm_pairs m)"
proof (cases "stm_pairs m = []")
  case False
  have "unat (of_nat (length (stm_pairs m)) :: u64) = length (stm_pairs m)"
    using assms by (simp add: unat_of_nat)
  moreover have "STM_EncodeTo m [] = EncodeVarint64 (of_nat (length (stm_pairs m))) @
      encode_deltas (SeqnoTimePair 0 0) (stm_pairs m) [] @ []"
    using False encode_deltas_append [of "SeqnoTimePair 0 0" "stm_pairs m" "PutVarint64 [] (of_nat (length (stm_pairs m)))"]
    by (simp add: STM_EncodeTo_def PutVarint64_def)
  ultimately show ?thesis
    by (simp only: DecodeImpl_def GetVarint64_enc decode_deltas_enc option.case prod.case sum.case)
      (simp add: decode_deltas_enc)
qed (simp add: STM_EncodeTo_def DecodeImpl_def)

end

lemma decode_deltas_prefix: "decode_deltas E n base input qs = (r, ps) \<Longrightarrow> \<exists>zs. ps = qs @ zs"
  by (induction n arbitrary: base input qs) (fastforce split: sum.splits prod.splits simp: Let_def)+

lemma DecodeImpl_prefix: "DecodeImpl E input qs = (s, ps) \<Longrightarrow> \<exists>zs. ps = qs @ zs"
  by (auto simp: DecodeImpl_def dest!: decode_deltas_prefix split: if_splits option.splits prod.splits sum.splits)

section \<open>Mappings of arbitrary pairs\<close>

text \<open>
  What holds whatever the order of the recorded times: the pairs of an enforced mapping are sorted
  by sequence number and within the capacity, as long as no pair is the unknown sequence number
  or time.
\<close>

definition stm_inv0 :: "SeqnoToTimeMapping \<Rightarrow> bool" where
  "stm_inv0 m \<longleftrightarrow> known (stm_pairs m) \<and> (stm_enforced m \<longrightarrow> seqno_sorted (stm_pairs m) \<and> within_capacity m)"

lemma seqno_sorted_subseq: "subseq ys xs \<Longrightarrow> seqno_sorted xs \<Longrightarrow> seqno_sorted ys"
  by (induction rule: list_emb.induct) (auto dest: list_emb_set)

lemma merge_loop_sorted:
  assumes "sorted (p # ps)"
  shows "seqno_sorted (merge_loop p ps) \<and> set (merge_loop p ps) \<subseteq> set (p # ps)
    \<and> (\<forall>q \<in> set (merge_loop p ps). st_seqno p \<le> st_seqno q)"
  using assms
proof (induction p ps rule: merge_loop.induct)
  case (2 p q ps)
  have pq: "p \<le> q" "st_seqno p \<le> st_seqno q" using 2(3) by (auto simp: less_eq_pair)
  have s: "sorted (p # ps)" "sorted (q # ps)" using 2(3) by auto
  obtain mg r where r: "Pair_Merge p q = (mg, r)" by (cases "Pair_Merge p q")
  have either: "r = p \<or> r = q" using Pair_Merge_either [OF pq(2) r] .
  show ?case
  proof (cases mg)
    case True
    have "sorted (r # ps)" "st_seqno p \<le> st_seqno r" using either s pq(2) by auto
    with "2.IH"(1) [OF r [symmetric] refl True] r True either show ?thesis by (auto intro: order_trans)
  next
    case False
    have "st_seqno p < st_seqno q" "r = p" using r False pq(2) by (auto simp: Pair_Merge_def split: if_splits)
    with "2.IH"(2) [OF r [symmetric] refl False s(2)] r False show ?thesis by (auto intro: less_le_trans)
  qed
qed simp

lemma SortAndMerge_sorted:
  "seqno_sorted (stm_pairs (SortAndMerge m)) \<and> set (stm_pairs (SortAndMerge m)) \<subseteq> set (stm_pairs m)"
proof (cases "sort (stm_pairs m)")
  case (Cons p ps)
  then have "set (p # ps) = set (stm_pairs m)" by (metis set_sort)
  moreover have "sorted (p # ps)" by (metis Cons sorted_sort)
  ultimately show ?thesis using merge_loop_sorted [of p ps] Cons by (simp add: SortAndMerge_def)
qed (simp add: SortAndMerge_def)

lemma EnforceMaxTimeSpan_suffix:
  "\<exists>ps. EnforceMaxTimeSpan m now = m\<lparr>stm_pairs := ps\<rparr> \<and> suffix ps (stm_pairs m)"
proof -
  have "\<exists>ps. m = m\<lparr>stm_pairs := ps\<rparr> \<and> suffix ps (stm_pairs m)" by (intro exI [of _ "stm_pairs m"]) simp
  then show ?thesis using pop_old_suffix by (auto simp: EnforceMaxTimeSpan_def Let_def)
qed

lemma EnforceCapacity_inv0:
  assumes "known (stm_pairs m)" "seqno_sorted (stm_pairs m)"
  shows "\<exists>m'. EnforceCapacity m s = Some m' \<and> stm_inv0 m'"
proof (cases "stm_capacity m = 0")
  case True
  then show ?thesis by (simp add: EnforceCapacity_def stm_inv0_def within_capacity_def)
next
  case False
  have "\<forall>p \<in> set (stm_pairs m). live p" using assms(1) by (simp add: known_def kUnknownTimeBeforeAll_def)
  from EnforceCapacity_ok [OF this False, of s] obtain ps where
    e: "EnforceCapacity m s = Some (m\<lparr>stm_pairs := ps\<rparr>)" "subseq ps (stm_pairs m)"
    "if length (stm_pairs m) \<le> unat (effective_capacity m s) then ps = stm_pairs m
       else length ps = unat (strict_capacity m) \<and> hd ps = hd (stm_pairs m) \<and> last ps = last (stm_pairs m)"
    by blast
  have "length ps \<le> unat (effective_capacity m False)"
    using e(3) effective_mono [of m s] effective_ge [of m False]
    by (auto simp: word_le_nat_alt split: if_splits)
  moreover have "known ps" using known_subset [OF assms(1)] list_emb_set [OF e(2)] by blast
  ultimately show ?thesis
    using e(1) seqno_sorted_subseq [OF e(2) assms(2)] False by (simp add: stm_inv0_def within_capacity_def)
qed

lemma enforce_both0:
  assumes "known (stm_pairs m)" "seqno_sorted (stm_pairs m)"
  shows "\<exists>m'. EnforceCapacity (EnforceMaxTimeSpan m now) s = Some m' \<and> stm_inv0 m'"
proof -
  obtain ps where ps: "EnforceMaxTimeSpan m now = m\<lparr>stm_pairs := ps\<rparr>" "suffix ps (stm_pairs m)"
    using EnforceMaxTimeSpan_suffix by blast
  then have "known ps" "seqno_sorted ps"
    using known_subset [OF assms(1) set_mono_suffix] assms(2) by (auto simp: suffix_def sorted_wrt_append)
  with EnforceCapacity_inv0 [of "m\<lparr>stm_pairs := ps\<rparr>" s] ps show ?thesis by simp
qed

lemma SortAndMerge_enforce0:
  assumes "known (stm_pairs m)"
  shows "\<exists>m'. EnforceCapacity (EnforceMaxTimeSpan (SortAndMerge m) now) s = Some m' \<and> stm_inv0 m'"
  using SortAndMerge_sorted [of m] known_subset [OF assms] by (intro enforce_both0) auto

lemma SetMaxTimeSpan_inv0:
  assumes "stm_inv0 m"
  shows "stm_inv0 (SetMaxTimeSpan m x)"
proof (cases "stm_enforced m")
  case True
  obtain ps where ps: "EnforceMaxTimeSpan (m\<lparr>stm_max_time_span := x\<rparr>) 0 = m\<lparr>stm_max_time_span := x, stm_pairs := ps\<rparr>"
    "suffix ps (stm_pairs m)"
    using EnforceMaxTimeSpan_suffix [of "m\<lparr>stm_max_time_span := x\<rparr>" 0] by auto
  have "known ps" using known_subset [OF _ set_mono_suffix [OF ps(2)]] assms by (simp add: stm_inv0_def)
  then show ?thesis using ps assms True suffix_length_le [OF ps(2)]
    by (auto simp: SetMaxTimeSpan_def stm_inv0_def within_capacity_def suffix_def sorted_wrt_append)
qed (use assms in \<open>simp add: SetMaxTimeSpan_def stm_inv0_def\<close>)

lemma SetCapacity_inv0: "stm_inv0 m \<Longrightarrow> \<exists>m'. SetCapacity m c = Some m' \<and> stm_inv0 m'"
  using EnforceCapacity_inv0 [of "m\<lparr>stm_capacity := c\<rparr>" True]
  by (cases "stm_enforced m") (auto simp: SetCapacity_def stm_inv0_def Let_def)

lemma Enforce_inv0: "stm_inv0 m \<Longrightarrow> \<exists>m'. Enforce m now = Some m' \<and> stm_inv0 m'"
  using SortAndMerge_enforce0 [of m now True] enforce_both0 [of m now True] EnforceCapacity_inv0 [of m True]
  by (auto simp: Enforce_def stm_inv0_def Let_def)

lemma Append_finish0:
  assumes "known ps" "stm_enforced m \<longrightarrow> seqno_sorted ps"
  shows "\<exists>b m'. map_option (Pair c) (EnforceCapacity (EnforceMaxTimeSpan
        (if stm_enforced m then m\<lparr>stm_pairs := ps\<rparr> else SortAndMerge (m\<lparr>stm_pairs := ps\<rparr>)) 0) False) = Some (b, m')
    \<and> stm_inv0 m'"
  using SortAndMerge_enforce0 [of "m\<lparr>stm_pairs := ps\<rparr>" 0 False] enforce_both0 [of "m\<lparr>stm_pairs := ps\<rparr>" 0 False] assms
  by auto

lemma sorted_snoc:
  "seqno_sorted ps \<Longrightarrow> ps \<noteq> [] \<Longrightarrow> st_seqno (last ps) < st_seqno q \<Longrightarrow> seqno_sorted (ps @ [q])"
  "seqno_sorted ps \<Longrightarrow> ps \<noteq> [] \<Longrightarrow> st_seqno (last ps) \<le> st_seqno q \<Longrightarrow> seqno_sorted (butlast ps @ [q])"
  by (cases ps rule: rev_cases; fastforce simp: sorted_wrt_append)+

lemma STM_Append_inv0:
  assumes "stm_inv0 m" and "seqno \<noteq> 0 \<longrightarrow> time \<noteq> 0"
  shows "\<exists>b m'. STM_Append m seqno time = Some (b, m') \<and> stm_inv0 m'"
proof -
  let ?q = "SeqnoTimePair seqno time" and ?ps = "stm_pairs m"
  let ?l = "last ?ps"
  have k: "known ?ps" "stm_enforced m \<longrightarrow> seqno_sorted ?ps" using assms(1) by (simp_all add: stm_inv0_def)
  consider "stm_capacity m = 0" | "stm_capacity m \<noteq> 0" "seqno \<noteq> 0" "?ps = []"
    | "stm_capacity m \<noteq> 0" "seqno = 0" | "stm_capacity m \<noteq> 0" "seqno \<noteq> 0" "?ps \<noteq> []" by blast
  then show ?thesis
  proof cases
    case 1
    then show ?thesis using assms(1) by (auto simp: STM_Append_def)
  next
    case 2
    have "2 \<le> unat (effective_capacity m False)"
      using strict_ge [OF 2(1)] effective_ge [of m False] by (simp add: word_le_nat_alt)
    then show ?thesis using 2 assms by (auto simp: STM_Append_def stm_inv0_def within_capacity_def)
  next
    case 3
    then show ?thesis using Append_finish0 [OF k, of False]
      by (cases "stm_enforced m") (simp_all add: STM_Append_def Let_def)
  next
    case 4
    have "st_seqno ?l \<noteq> 0" "st_time ?l \<noteq> 0" using k(1) 4(3) by (simp_all add: known_def)
    then have kq: "known (?ps @ [?q])" "known (butlast ?ps @ [?q])" "known (butlast ?ps @ [?l])" "butlast ?ps @ [?l] = ?ps" "butlast ?ps @ [?l, ?q] = ?ps @ [?q]"
      using k assms(2) 4 known_subset [OF k(1), of "butlast ?ps"] by (auto dest: in_set_butlastD)
    obtain mg r where r: "Pair_Merge ?l ?q = (mg, r)" by (cases "Pair_Merge ?l ?q")
    show ?thesis
    proof (cases "st_seqno ?l \<le> seqno")
      case True
      have "r = ?l \<or> r = ?q" using Pair_Merge_either r True by simp
      then have kr: "known (butlast ?ps @ [r])" "stm_enforced m \<longrightarrow> seqno_sorted (butlast ?ps @ [r])"
        using kq k(2) sorted_snoc(2) [of ?ps ?q] True 4(3) by (auto simp del: known_simps)
      have nm: "st_seqno ?l < seqno \<and> st_time ?l < time \<and> r = ?l" if "\<not> mg"
        using r that True by (auto simp: Pair_Merge_def split: if_splits)
      have "stm_enforced m \<longrightarrow> seqno_sorted (?ps @ [?q])" if "\<not> mg"
        using nm [OF that] sorted_snoc(1) [of ?ps ?q] k 4(3) by simp
      then show ?thesis
        using Append_finish0 [OF kr, of False] Append_finish0 [OF kq(1), of m True] 4 True r nm kq(4)
        by (cases mg; cases "stm_enforced m") (simp_all add: STM_Append_def Let_def kq(5))
    next
      case False
      then show ?thesis
        using Append_finish0 [OF k, of False] Append_finish0 [OF kq(1), of m True] 4
        by (cases "stm_enforced m") (simp_all add: STM_Append_def Let_def)
    qed
  qed
qed

section \<open>Interpolated pairs\<close>

text \<open>
  The assertions of \<^verbatim>\<open>PrePopulate\<close> on its arguments, that the last sequence number is not the largest
  word, on which the loop does not end, and that the product of the interpolation does not wrap.
\<close>

definition prepopulate_ok :: "u64 \<Rightarrow> u64 \<Rightarrow> u64 \<Rightarrow> u64 \<Rightarrow> bool" where
  "prepopulate_ok from_seqno to_seqno from_time to_time \<longleftrightarrow>
     0 < from_seqno \<and> from_seqno < to_seqno \<and> to_seqno \<noteq> - 1 \<and> 0 < from_time \<and> from_time \<le> to_time \<and>
     unat (to_time - from_time) * unat (to_seqno - from_seqno) < 2 ^ 64"

definition interpolated :: "u64 \<Rightarrow> u64 \<Rightarrow> u64 \<Rightarrow> u64 \<Rightarrow> nat \<Rightarrow> SeqnoTimePair" where
  "interpolated from_seqno to_seqno from_time to_time n = SeqnoTimePair (of_nat n)
     (from_time + (to_time - from_time) * (of_nat n - from_seqno) div (to_seqno - from_seqno))"

lemma PrePopulate_loop_spec:
  assumes "to_seqno \<noteq> - 1" and "unat i \<le> unat to_seqno + 1"
  shows "PrePopulate_loop i from_seqno to_seqno from_time to_time ps =
    Some (ps @ map (interpolated from_seqno to_seqno from_time to_time) [unat i ..< unat to_seqno + 1])"
  using assms
proof (induction "unat to_seqno + 1 - unat i" arbitrary: i ps)
  case 0
  then show ?case by (subst PrePopulate_loop.simps) (simp add: word_le_nat_alt)
next
  case (Suc n)
  then have le: "unat i \<le> unat to_seqno" by simp
  have "unat to_seqno \<noteq> unat (- 1 :: u64)" using assms(1) unfolding word_unat_eq_iff [of to_seqno "- 1"] .
  then have "unat i + 1 < 2 ^ 64"
    using le unat_u64_less [of to_seqno] by (simp add: unsigned_minus_1_eq_mask mask_eq_exp_minus_1)
  then have i1: "unat (i + 1) = unat i + 1" using unat_add_lem [of i 1] by simp
  have "[unat i ..< unat to_seqno + 1] = unat i # [unat i + 1 ..< unat to_seqno + 1]"
    using le by (simp add: upt_conv_Cons del: upt_Suc)
  moreover have "interpolated from_seqno to_seqno from_time to_time (unat i) = SeqnoTimePair i
      (from_time + (to_time - from_time) * (i - from_seqno) div (to_seqno - from_seqno))"
    by (simp add: interpolated_def)
  ultimately show ?case
    using Suc.hyps(1) [of "i + 1"] Suc.hyps(2) Suc.prems le i1
    by (subst PrePopulate_loop.simps) (simp add: word_le_nat_alt del: upt_Suc)
qed

lemma interpolated_time:
  assumes "prepopulate_ok f t ft tt" and "unat f \<le> n" and "n \<le> unat t"
  shows "unat (st_time (interpolated f t ft tt n)) =
      unat ft + (unat tt - unat ft) * (n - unat f) div (unat t - unat f)"
    and "unat (st_time (interpolated f t ft tt n)) \<le> unat tt"
    and "unat (st_seqno (interpolated f t ft tt n)) = n"
proof -
  have ok: "f < t" "ft \<le> tt" "unat (tt - ft) * unat (t - f) < 2 ^ 64" using assms(1) by (auto simp: prepopulate_ok_def)
  have n: "unat (of_nat n :: u64) = n"
    using le_less_trans [OF assms(3) unsigned_less [of t]] by (simp add: unat_of_nat)
  then have d: "unat (tt - ft) = unat tt - unat ft" "unat (t - f) = unat t - unat f"
    "unat (of_nat n - f) = n - unat f"
    using ok assms(2) by (simp_all add: unat_sub word_le_nat_alt word_less_nat_alt)
  have le: "(unat tt - unat ft) * (n - unat f) \<le> (unat tt - unat ft) * (unat t - unat f)"
    using assms(3) by (auto intro: mult_le_mono2 diff_le_mono)
  also have "\<dots> < 2 ^ 64" using ok(3) d by simp
  finally have p: "unat ((tt - ft) * (of_nat n - f)) = (unat tt - unat ft) * (n - unat f)"
    using d unat_mult_lem [of "tt - ft" "of_nat n - f"] by simp
  have "(unat tt - unat ft) * (n - unat f) div (unat t - unat f) \<le>
      (unat tt - unat ft) * (unat t - unat f) div (unat t - unat f)"
    by (rule div_le_mono [OF le])
  also have "\<dots> = unat tt - unat ft" using ok(1) by (simp add: word_less_nat_alt)
  finally have q: "(unat tt - unat ft) * (n - unat f) div (unat t - unat f) \<le> unat tt - unat ft" .
  have "unat ((tt - ft) * (of_nat n - f) div (t - f)) = (unat tt - unat ft) * (n - unat f) div (unat t - unat f)"
    by (simp add: unat_div p d)
  moreover have "unat ft + (unat tt - unat ft) * (n - unat f) div (unat t - unat f) < 2 ^ 64"
    using q ok(2) unat_u64_less [of tt] by (simp add: word_le_nat_alt)
  ultimately show time: "unat (st_time (interpolated f t ft tt n)) =
      unat ft + (unat tt - unat ft) * (n - unat f) div (unat t - unat f)"
    using unat_add_lem [of ft "(tt - ft) * (of_nat n - f) div (t - f)"] by (simp add: interpolated_def)
  show "unat (st_time (interpolated f t ft tt n)) \<le> unat tt"
    unfolding time using q ok(2) by (simp add: word_le_nat_alt)
  show "unat (st_seqno (interpolated f t ft tt n)) = n" by (simp add: interpolated_def n)
qed

text \<open>What \<^verbatim>\<open>PrePopulate\<close> adds: one pair per sequence number, in order, with times that rise from the first to
  the last.\<close>

lemma PrePopulate_pairs:
  assumes "prepopulate_ok f t ft tt" and "stm_pairs m = []"
  shows "\<exists>ps. PrePopulate m f t ft tt = Some (True, m\<lparr>stm_pairs := ps\<rparr>) \<and> length ps = unat t - unat f + 1
    \<and> ordered ps \<and> chronological ps \<and> (\<forall>p \<in> set ps. ft \<le> st_time p \<and> st_time p \<le> tt)"
proof -
  let ?p = "interpolated f t ft tt"
  have ok: "0 < f" "f < t" "t \<noteq> - 1" "0 < ft" using assms(1) by (auto simp: prepopulate_ok_def)
  then have le: "unat f \<le> unat t" "0 < unat f" "0 < unat ft" by (simp_all add: word_less_nat_alt unat_gt_0)
  define ns where "ns = [unat f ..< unat t + 1]"
  note time = interpolated_time [OF assms(1)]
  have mono: "pair_before (?p a) (?p b)" if "unat f \<le> a" "a < b" "b \<le> unat t" for a b
  proof -
    have "(unat tt - unat ft) * (a - unat f) div (unat t - unat f) \<le>
        (unat tt - unat ft) * (b - unat f) div (unat t - unat f)"
      using that by (intro div_le_mono mult_le_mono2) simp
    then show ?thesis
      using that time(1,3) [of a] time(1,3) [of b] by (simp add: pair_before_def word_less_nat_alt word_le_nat_alt)
  qed
  have "sorted_wrt (\<lambda>a b. pair_before (?p a) (?p b)) ns"
    using mono by (intro sorted_wrt_mono_rel [OF _ sorted_wrt_upt [of "unat f" "unat t + 1", folded ns_def]])
      (auto simp: ns_def)
  then have ord: "ordered (map ?p ns)" by (simp add: sorted_wrt_map)
  have bounds: "ft \<le> st_time (?p n) \<and> st_time (?p n) \<le> tt \<and> st_seqno (?p n) \<noteq> 0 \<and> st_time (?p n) \<noteq> 0"
    if "n \<in> set ns" for n
    using that time [of n] le by (auto simp: ns_def word_le_nat_alt unat_eq_0 [symmetric])
  then have "chronological (map ?p ns)"
    unfolding chronological_def
    using mono ok(4) time(3) by (auto simp: ns_def word_less_nat_alt pair_before_def word_le_nat_alt)
  then show ?thesis
    using PrePopulate_loop_spec [of t f f ft tt "[]"] ok(3) le ord bounds assms(2)
    by (intro exI [of _ "map ?p ns"]) (auto simp: PrePopulate_def ns_def simp del: upt_Suc)
qed

section \<open>Copied and decoded pairs\<close>

text \<open>
  \<^verbatim>\<open>CopyFromSeqnoRange\<close> and \<^verbatim>\<open>DecodeFrom\<close> append pairs and leave the enforced state, unless they start from
  an empty mapping without limits.
\<close>

definition adds :: "SeqnoToTimeMapping \<Rightarrow> SeqnoTimePair list \<Rightarrow> SeqnoToTimeMapping" where
  "adds m qs = m\<lparr>stm_pairs := stm_pairs m @ qs, stm_enforced := stm_enforced m \<and> stm_pairs m = [] \<and>
     \<not> stm_max_time_span m < - 1 \<and> \<not> stm_capacity m < - 1\<rparr>"

lemma adds_pairs [simp]: "stm_pairs (adds m qs) = stm_pairs m @ qs"
  by (simp add: adds_def)

lemma Copy_adds:
  "\<exists>n k. CopyFromSeqnoRange m src a b = adds m (take n (drop k (stm_pairs src)))"
proof -
  let ?i = "FindGreaterEqSeqno src a"
  have "CopyFromSeqnoRange m src a b =
      adds m (take ((if b < a then ?i else FindGreaterSeqno src b) - (?i - 1)) (drop (?i - 1) (stm_pairs src)))"
    by (auto simp: CopyFromSeqnoRange_def adds_def Let_def)
  then show ?thesis by blast
qed

lemma Decode_adds:
  assumes "STM_DecodeFrom E m str = (s, m')"
  shows "\<exists>qs. drop (length (stm_pairs m)) (stm_pairs m') = qs \<and> m' = (if ok s then adds m qs else m)"
proof -
  obtain s1 zs where d: "DecodeImpl E str (stm_pairs m) = (s1, stm_pairs m @ zs)"
    using DecodeImpl_prefix [of E str "stm_pairs m"] by (cases "DecodeImpl E str (stm_pairs m)") auto
  then show ?thesis
    using assms by (auto simp: STM_DecodeFrom_def adds_def Let_def split: if_splits)
qed

lemma adds_inv0:
  assumes "stm_inv0 m" "known qs" "seqno_sorted qs"
  shows "stm_inv0 (adds m qs)"
  using assms seqno_sorted_length [OF assms(3,2)] not_less_max [of "stm_capacity m"]
  by (auto simp: stm_inv0_def adds_def within_capacity_def effective_unlimited)

lemma chronological_sorted: "chronological ps \<Longrightarrow> seqno_sorted ps \<Longrightarrow> ordered ps"
  by (induction ps) (auto simp: chronological_def pair_before_def)

lemma adds_inv:
  assumes "stm_inv m" "chronological (stm_pairs m @ qs)" "seqno_sorted qs"
  shows "stm_inv (adds m qs)"
proof -
  have qs: "chronological qs" using chronological_subset [OF assms(2)] by simp
  show ?thesis
    using assms qs seqno_sorted_length [OF assms(3) chronological_known [OF qs]] not_less_max [of "stm_capacity m"]
      not_less_max [of "stm_max_time_span m"] within_span_max [OF qs] chronological_sorted [OF qs]
    by (auto simp: stm_inv_def adds_def within_capacity_def effective_unlimited)
qed

section \<open>Sequences of operations\<close>

text \<open>
  The states a mapping can reach by its public operations, each with what its caller promises. New pairs
  are known, that is, neither the sequence number nor the time is zero (a sequence number zero is skipped
  by the operations themselves). The source of a copy is a reachable enforced mapping. Bytes that
  decode, decode to known pairs in the order of their sequence numbers, as \<^verbatim>\<open>EncodeTo\<close> writes them.
  \<^verbatim>\<open>PrePopulate\<close> is called on an empty mapping, under its assertions and for no more pairs than the
  capacity.

  With the flag \<open>c\<close> the history is chronological: new pairs agree in order with those already there,
  the clock passed to \<^verbatim>\<open>Enforce\<close> is not behind, and \<^verbatim>\<open>PrePopulate\<close> stays within the time span. Without it
  they may come in any order, as historical data may.
\<close>

definition admits :: "bool \<Rightarrow> SeqnoToTimeMapping \<Rightarrow> SeqnoTimePair list \<Rightarrow> bool" where
  "admits c m qs \<longleftrightarrow> known qs \<and> (c \<longrightarrow> chronological (stm_pairs m @ qs))"

inductive stm_reachable :: "varint_ext \<Rightarrow> bool \<Rightarrow> SeqnoToTimeMapping \<Rightarrow> bool" for E c where
  reach_new: "stm_reachable E c SeqnoToTimeMapping_new"
| reach_span: "stm_reachable E c m \<Longrightarrow> stm_reachable E c (SetMaxTimeSpan m span)"
| reach_capacity: "stm_reachable E c m \<Longrightarrow> SetCapacity m n = Some m' \<Longrightarrow> stm_reachable E c m'"
| reach_enforce: "stm_reachable E c m \<Longrightarrow> c \<longrightarrow> now = 0 \<or> (\<forall>p \<in> set (stm_pairs m). st_time p \<le> now) \<Longrightarrow>
    Enforce m now = Some m' \<Longrightarrow> stm_reachable E c m'"
| reach_add: "stm_reachable E c m \<Longrightarrow> seqno \<noteq> 0 \<longrightarrow> admits c m [SeqnoTimePair seqno time] \<Longrightarrow>
    stm_reachable E c (AddUnenforced m seqno time)"
| reach_append: "stm_reachable E c m \<Longrightarrow> seqno \<noteq> 0 \<longrightarrow> admits c m [SeqnoTimePair seqno time] \<Longrightarrow>
    STM_Append m seqno time = Some (added, m') \<Longrightarrow> stm_reachable E c m'"
| reach_clear: "stm_reachable E c m \<Longrightarrow> stm_reachable E c (STM_Clear m)"
| reach_copy: "stm_reachable E c m \<Longrightarrow> stm_reachable E c src \<Longrightarrow> stm_enforced src \<Longrightarrow>
    admits c m (stm_pairs src) \<Longrightarrow> stm_reachable E c (CopyFromSeqnoRange m src from_seqno to_seqno)"
| reach_decode: "stm_reachable E c m \<Longrightarrow> STM_DecodeFrom E m pairs_str = (s, m') \<Longrightarrow>
    ok s \<longrightarrow> admits c m (drop (length (stm_pairs m)) (stm_pairs m')) \<and>
      seqno_sorted (drop (length (stm_pairs m)) (stm_pairs m')) \<Longrightarrow> stm_reachable E c m'"
| reach_prepopulate: "stm_reachable E c m \<Longrightarrow> stm_pairs m = [] \<Longrightarrow>
    prepopulate_ok from_seqno to_seqno from_time to_time \<Longrightarrow>
    to_seqno - from_seqno < stm_capacity m \<Longrightarrow> c \<longrightarrow> to_time - from_time < stm_max_time_span m \<Longrightarrow>
    PrePopulate m from_seqno to_seqno from_time to_time = Some (success, m') \<Longrightarrow> stm_reachable E c m'"

lemma PrePopulate_within_capacity:
  assumes "prepopulate_ok f t ft tt" and "length ps = unat t - unat f + 1" and "t - f < stm_capacity m"
  shows "within_capacity (m\<lparr>stm_pairs := ps\<rparr>)"
proof -
  have "unat (t - f) = unat t - unat f" using assms(1) by (simp add: prepopulate_ok_def unat_sub word_le_nat_alt word_less_nat_alt)
  then have "length ps \<le> unat (stm_capacity m)" using assms(2,3) by (simp add: word_less_nat_alt)
  moreover have "stm_capacity m \<le> strict_capacity m" by (simp add: strict_capacity_def)
  ultimately show ?thesis
    using effective_ge [of m False] assms(3) by (auto simp: within_capacity_def word_le_nat_alt)
qed

lemma PrePopulate_within_span:
  assumes "\<forall>p \<in> set ps. ft \<le> st_time p \<and> st_time p \<le> tt" and "ft \<le> tt" and "tt - ft < span"
  shows "within_span span ps"
proof -
  have "st_time (last ps) - span < st_time (ps ! 1)" if "1 < length ps" "span \<le> st_time (last ps)"
  proof -
    have "last ps \<in> set ps" "ps ! 1 \<in> set ps" using that(1) by (auto intro: last_in_set)
    then have "st_time (last ps) \<le> tt" "ft \<le> st_time (ps ! 1)" using assms(1) by auto
    then show ?thesis
      using assms(2,3) that(2) by (simp add: word_le_nat_alt word_less_nat_alt unat_sub)
  qed
  then show ?thesis by (simp add: within_span_def)
qed

lemma seqno_sorted_part: "seqno_sorted ps \<Longrightarrow> seqno_sorted (take n (drop k ps))"
  by (simp add: sorted_wrt_take sorted_wrt_drop)

lemma set_part: "set (take n (drop k ps)) \<subseteq> set ps"
  by (meson order_trans set_drop_subset set_take_subset)

lemma reachable_inv0: "stm_reachable E c m \<Longrightarrow> stm_inv0 m"
proof (induction rule: stm_reachable.induct)
  case (reach_capacity m n m')
  then show ?case using SetCapacity_inv0 [of m n] by simp
next
  case (reach_enforce m now m')
  then show ?case using Enforce_inv0 [of m now] by simp
next
  case (reach_add m seqno time)
  then show ?case by (auto simp: AddUnenforced_def stm_inv0_def admits_def)
next
  case (reach_append m seqno time added m')
  then show ?case using STM_Append_inv0 [of m seqno time] by (auto simp: admits_def)
next
  case (reach_copy m src a b)
  obtain n k where "CopyFromSeqnoRange m src a b = adds m (take n (drop k (stm_pairs src)))"
    using Copy_adds by blast
  then show ?case using reach_copy adds_inv0 seqno_sorted_part known_subset [OF _ set_part]
    by (simp add: stm_inv0_def)
next
  case (reach_decode m str s m')
  obtain qs where "drop (length (stm_pairs m)) (stm_pairs m') = qs" "m' = (if ok s then adds m qs else m)"
    using Decode_adds [OF reach_decode(2)] by blast
  then show ?case using reach_decode adds_inv0 [of m qs] by (simp add: admits_def)
next
  case (reach_prepopulate m f t ft tt success m')
  then show ?case
    using PrePopulate_pairs [of f t ft tt m] PrePopulate_within_capacity [of f t ft tt _ m] chronological_known
    by (auto simp: stm_inv0_def pair_before_def elim!: sorted_wrt_mono_rel [rotated])
next
  case (reach_span m span)
  then show ?case by (simp add: SetMaxTimeSpan_inv0)
qed (simp_all add: stm_inv0_def SeqnoToTimeMapping_new_def STM_Clear_def within_capacity_def)

lemma reachable_inv: "stm_reachable E c m \<Longrightarrow> c \<Longrightarrow> stm_inv m"
proof (induction rule: stm_reachable.induct)
  case reach_new
  show ?case
    by (simp add: stm_inv_def SeqnoToTimeMapping_new_def chronological_def within_capacity_def within_span_def)
next
  case (reach_span m span)
  then show ?case by (simp add: SetMaxTimeSpan_inv)
next
  case (reach_capacity m n m')
  then show ?case using SetCapacity_inv [of m n] by simp
next
  case (reach_enforce m now m')
  then show ?case using Enforce_inv [of m now] by simp
next
  case (reach_add m seqno time)
  then show ?case by (auto simp: AddUnenforced_def stm_inv_def admits_def)
next
  case (reach_append m seqno time added m')
  then show ?case using STM_Append_inv [of m seqno time] by (auto simp: admits_def)
next
  case (reach_clear m)
  then show ?case
    by (simp add: STM_Clear_def stm_inv_def chronological_def within_capacity_def within_span_def)
next
  case (reach_copy m src a b)
  obtain n k where copy: "CopyFromSeqnoRange m src a b = adds m (take n (drop k (stm_pairs src)))"
    using Copy_adds by blast
  have "set (stm_pairs m @ take n (drop k (stm_pairs src))) \<subseteq> set (stm_pairs m @ stm_pairs src)"
    using set_part [of n k "stm_pairs src"] by (simp only: set_append) blast
  moreover have "chronological (stm_pairs m @ stm_pairs src)" "stm_inv m" "stm_inv0 src"
    using reach_copy reachable_inv0 by (simp_all add: admits_def)
  ultimately have "chronological (stm_pairs m @ take n (drop k (stm_pairs src)))" "seqno_sorted (stm_pairs src)"
    using chronological_subset reach_copy(3) by (blast, simp add: stm_inv0_def)
  with \<open>stm_inv m\<close> show ?case unfolding copy by (intro adds_inv seqno_sorted_part)
next
  case (reach_decode m str s m')
  obtain qs where "drop (length (stm_pairs m)) (stm_pairs m') = qs" "m' = (if ok s then adds m qs else m)"
    using Decode_adds [OF reach_decode(2)] by blast
  then show ?case using reach_decode adds_inv [of m qs] by (simp add: admits_def)
next
  case (reach_prepopulate m f t ft tt success m')
  then obtain ps where ps: "m' = m\<lparr>stm_pairs := ps\<rparr>" "length ps = unat t - unat f + 1" "ordered ps" "chronological ps"
    "\<forall>p \<in> set ps. ft \<le> st_time p \<and> st_time p \<le> tt"
    using PrePopulate_pairs [of f t ft tt m] by auto
  then show ?case
    using reach_prepopulate PrePopulate_within_capacity [of f t ft tt ps m] PrePopulate_within_span [OF ps(5)]
    by (simp add: stm_inv_def prepopulate_ok_def)
qed

section \<open>Properties\<close>

text \<open>
  C9. In every state that a mapping reaches by its public operations, with pairs in any order: an enforced
  mapping is sorted by sequence number and holds no more pairs than its capacity and one eighth, and no
  operation runs out of the bounds of the deque. If the history is chronological, an enforced mapping is
  sorted by time as well and has one pair at most that is older than the time span allows.
  The callers' promises are those of \<^term>\<open>stm_reachable\<close>; the one that \<^verbatim>\<open>PrePopulate\<close> is not called for
  more pairs than fit is needed: the call does not enforce the limits, and an enforced mapping stays enforced
  with as many pairs as it was asked for.
\<close>

theorem reachable_mapping_within_limits:
  assumes "stm_reachable E c m"
  shows "(stm_enforced m \<longrightarrow> seqno_sorted (stm_pairs m) \<and> within_capacity m
      \<and> (c \<longrightarrow> ordered (stm_pairs m) \<and> within_span (stm_max_time_span m) (stm_pairs m)))
    \<and> (\<exists>m'. SetCapacity m n = Some m') \<and> (\<exists>m'. Enforce m now = Some m')
    \<and> (time \<noteq> 0 \<longrightarrow> (\<exists>r. STM_Append m seqno time = Some r))
    \<and> (stm_pairs m = [] \<and> prepopulate_ok from_seqno to_seqno from_time to_time \<longrightarrow>
        (\<exists>m'. PrePopulate m from_seqno to_seqno from_time to_time = Some (True, m')
          \<and> stm_enforced m' = stm_enforced m \<and> length (stm_pairs m') = unat to_seqno - unat from_seqno + 1))"
proof -
  note inv = reachable_inv0 [OF assms] and chr = reachable_inv [OF assms]
  have "\<exists>r. STM_Append m seqno time = Some r" if "time \<noteq> 0"
    using STM_Append_inv0 [OF inv, of seqno time] that by blast
  moreover have "\<exists>m'. PrePopulate m from_seqno to_seqno from_time to_time = Some (True, m')
      \<and> stm_enforced m' = stm_enforced m \<and> length (stm_pairs m') = unat to_seqno - unat from_seqno + 1"
    if "stm_pairs m = []" "prepopulate_ok from_seqno to_seqno from_time to_time"
    using PrePopulate_pairs [OF that(2,1)] by fastforce
  ultimately show ?thesis
    using inv chr SetCapacity_inv0 [OF inv, of n] Enforce_inv0 [OF inv, of now]
    by (auto simp: stm_inv_def stm_inv0_def)
qed

theorem reachable_mapping_within_limits_witness:
  "within_capacity (SeqnoToTimeMapping_new\<lparr>stm_pairs := [SeqnoTimePair 10 500]\<rparr>)
   \<and> (\<exists>m'. SetCapacity (SeqnoToTimeMapping_new\<lparr>stm_pairs := [SeqnoTimePair 10 500]\<rparr>) 3 = Some m')
   \<and> (\<exists>r. STM_Append (SeqnoToTimeMapping_new\<lparr>stm_pairs := [SeqnoTimePair 10 500]\<rparr>) 20 600 = Some r)
   \<and> (\<exists>m'. PrePopulate (SeqnoToTimeMapping_new\<lparr>stm_capacity := 2\<rparr>) 1 10 100 200 = Some (True, m')
        \<and> stm_enforced m' \<and> length (stm_pairs m') = 10)"
proof -
  have "stm_reachable leb128_ext True (SeqnoToTimeMapping_new\<lparr>stm_pairs := [SeqnoTimePair 10 500]\<rparr>)"
    by (rule reach_append [OF reach_new, where seqno = 10 and time = 500 and added = True])
      (simp_all add: admits_def chronological_def SeqnoToTimeMapping_new_def STM_Append_def)
  from reachable_mapping_within_limits [OF this, of 3 0 600 20 1 10 100 200]
  have "within_capacity (SeqnoToTimeMapping_new\<lparr>stm_pairs := [SeqnoTimePair 10 500]\<rparr>)"
    "\<exists>m'. SetCapacity (SeqnoToTimeMapping_new\<lparr>stm_pairs := [SeqnoTimePair 10 500]\<rparr>) 3 = Some m'"
    "\<exists>r. STM_Append (SeqnoToTimeMapping_new\<lparr>stm_pairs := [SeqnoTimePair 10 500]\<rparr>) 20 600 = Some r"
    by (simp_all add: SeqnoToTimeMapping_new_def)
  moreover have "stm_reachable leb128_ext True (SeqnoToTimeMapping_new\<lparr>stm_capacity := 2\<rparr>)"
    by (rule reach_capacity [OF reach_new, where n = 2])
      (simp add: SetCapacity_def SeqnoToTimeMapping_new_def EnforceCapacity_def Let_def)
  from reachable_mapping_within_limits [OF this, of 3 0 600 20 1 10 100 200]
  have "\<exists>m'. PrePopulate (SeqnoToTimeMapping_new\<lparr>stm_capacity := 2\<rparr>) 1 10 100 200 = Some (True, m')
        \<and> stm_enforced m' \<and> length (stm_pairs m') = 10"
    by (simp add: prepopulate_ok_def SeqnoToTimeMapping_new_def)
  ultimately show ?thesis by blast
qed

text \<open>
  C11. The queries of an enforced mapping give the best known bounds: the time returned for a sequence
  number is the latest recorded at an earlier sequence number, the sequence number returned for a
  time is the latest recorded at or before that time, and zero stands for no such pair.
\<close>

theorem proximal_queries_best:
  assumes "ordered (stm_pairs m)"
  shows "GetProximalTimeBeforeSeqno m s = Max (insert 0 (st_time ` {p \<in> set (stm_pairs m). st_seqno p < s}))
    \<and> GetProximalSeqnoBeforeTime m t = Max (insert 0 (st_seqno ` {p \<in> set (stm_pairs m). st_time p \<le> t}))"
  using ProximalTime_Max [OF assms] ProximalSeqno_Max [OF assms] by simp

theorem proximal_queries_best_witness:
  "GetProximalTimeBeforeSeqno
     \<lparr>stm_max_time_span = - 1, stm_capacity = - 1,
       stm_pairs = [SeqnoTimePair 10 500, SeqnoTimePair 20 600, SeqnoTimePair 30 700], stm_enforced = True\<rparr> 21
   = Max (insert 0 (st_time ` {SeqnoTimePair 10 500, SeqnoTimePair 20 600}))"
proof -
  let ?ps = "[SeqnoTimePair 10 500, SeqnoTimePair 20 600, SeqnoTimePair 30 700]"
  have "{p \<in> set ?ps. st_seqno p < 21} = {SeqnoTimePair 10 500, SeqnoTimePair 20 600}" by auto
  then show ?thesis
    using proximal_queries_best [of "\<lparr>stm_max_time_span = - 1, stm_capacity = - 1, stm_pairs = ?ps,
        stm_enforced = True\<rparr>" 21 0] by (simp add: pair_before_def)
qed

text \<open>
  C13. Pruning by time loses nothing that the time span protects. With the reference time \<open>now\<close>, or the newest
  pair's time if \<open>now\<close> is zero: if it is less than the span, nothing is pruned. Otherwise, for every time
  from the reference minus the span on, the sequence number returned is the same before and after, and at most
  one pair that is no newer than this cutoff is left. The newest pair is always kept and only the oldest are
  removed.
\<close>

theorem prune_keeps_recent_answers:
  assumes "stm_enforced m" and "ordered (stm_pairs m)"
  shows "let ref = (if now = 0 then st_time (last (stm_pairs m)) else now);
      m' = EnforceMaxTimeSpan m now
    in m' = m\<lparr>stm_pairs := stm_pairs m'\<rparr> \<and> suffix (stm_pairs m') (stm_pairs m)
      \<and> (stm_pairs m \<noteq> [] \<longrightarrow> stm_pairs m' \<noteq> [] \<and> last (stm_pairs m') = last (stm_pairs m))
      \<and> (if ref < stm_max_time_span m then m' = m
         else (ref - stm_max_time_span m \<le> t \<longrightarrow> GetProximalSeqnoBeforeTime m' t = GetProximalSeqnoBeforeTime m t)
           \<and> (1 < length (stm_pairs m') \<longrightarrow> ref - stm_max_time_span m < st_time (stm_pairs m' ! 1)))"
proof -
  define ref where "ref = (if now = 0 then st_time (last (stm_pairs m)) else now)"
  let ?c = "ref - stm_max_time_span m" and ?ps = "stm_pairs m"
  have same: "GetProximalSeqnoBeforeTime (m\<lparr>stm_pairs := pop_old ?c ?ps\<rparr>) t = GetProximalSeqnoBeforeTime m t"
    if "?c \<le> t"
    using ProximalSeqno_Max [OF assms(2)] pop_old_Max [OF assms(2) that]
      ProximalSeqno_Max [of "m\<lparr>stm_pairs := pop_old ?c ?ps\<rparr>"] suffix_ordered [OF pop_old_suffix assms(2)]
    by simp
  have "EnforceMaxTimeSpan m now =
      (if length ?ps \<le> 1 \<or> ref < stm_max_time_span m then m else m\<lparr>stm_pairs := pop_old ?c ?ps\<rparr>)"
    by (simp add: EnforceMaxTimeSpan_def ref_def Let_def word_gt_0)
  then show ?thesis
    unfolding ref_def [symmetric] Let_def
    using same pop_old_suffix [of ?c ?ps] pop_old_last [of ?ps ?c] pop_old_span [of ?c ?ps] assms(2)
    by simp
qed

theorem prune_keeps_recent_answers_witness:
  "GetProximalSeqnoBeforeTime (EnforceMaxTimeSpan
     \<lparr>stm_max_time_span = 50, stm_capacity = - 1,
       stm_pairs = [SeqnoTimePair 10 500, SeqnoTimePair 20 600, SeqnoTimePair 30 700], stm_enforced = True\<rparr> 680) 660
   = GetProximalSeqnoBeforeTime
     \<lparr>stm_max_time_span = 50, stm_capacity = - 1,
       stm_pairs = [SeqnoTimePair 10 500, SeqnoTimePair 20 600, SeqnoTimePair 30 700], stm_enforced = True\<rparr> 660"
  using prune_keeps_recent_answers [of "\<lparr>stm_max_time_span = 50, stm_capacity = - 1,
       stm_pairs = [SeqnoTimePair 10 500, SeqnoTimePair 20 600, SeqnoTimePair 30 700], stm_enforced = True\<rparr>" 680 660]
  by (simp add: pair_before_def Let_def)

text \<open>
  C12. Reducing a mapping to its capacity always ends without leaving the deque, keeps exactly as many
  pairs as the capacity says (two for a capacity of one), in their order, and among them the oldest
  and the newest; a mapping within the capacity is left alone.
\<close>

theorem EnforceCapacity_keeps_ends:
  assumes "\<forall>p \<in> set (stm_pairs m). st_time p \<noteq> 0" and "stm_capacity m \<noteq> 0"
  shows "\<exists>ps. EnforceCapacity m strict = Some (m\<lparr>stm_pairs := ps\<rparr>) \<and> subseq ps (stm_pairs m)
    \<and> (if length (stm_pairs m) \<le> unat (effective_capacity m strict) then ps = stm_pairs m
       else length ps = unat (strict_capacity m) \<and> hd ps = hd (stm_pairs m) \<and> last ps = last (stm_pairs m))"
  using EnforceCapacity_ok [OF _ assms(2), of strict] assms(1) by (simp add: kUnknownTimeBeforeAll_def)

theorem EnforceCapacity_keeps_ends_witness:
  "\<exists>ps. EnforceCapacity
     \<lparr>stm_max_time_span = - 1, stm_capacity = 2,
       stm_pairs = [SeqnoTimePair 10 500, SeqnoTimePair 20 600, SeqnoTimePair 30 700], stm_enforced = True\<rparr> True
     = Some \<lparr>stm_max_time_span = - 1, stm_capacity = 2, stm_pairs = ps, stm_enforced = True\<rparr>
     \<and> length ps = 2 \<and> hd ps = SeqnoTimePair 10 500 \<and> last ps = SeqnoTimePair 30 700"
  using EnforceCapacity_keeps_ends [of "\<lparr>stm_max_time_span = - 1, stm_capacity = 2,
       stm_pairs = [SeqnoTimePair 10 500, SeqnoTimePair 20 600, SeqnoTimePair 30 700], stm_enforced = True\<rparr>" True]
  by (auto simp: effective_capacity_def strict_capacity_def Let_def)

text \<open>
  C37. Copying the range of sequence numbers from \<open>a\<close> to \<open>b\<close> into an empty mapping copies enough: for
  every sequence number in the range the copy returns the same time as the source.
\<close>

theorem copy_range_keeps_answers:
  assumes "ordered (stm_pairs src)" and "stm_pairs m = []" and "a \<le> s" and "s \<le> b"
  shows "GetProximalTimeBeforeSeqno (CopyFromSeqnoRange m src a b) s = GetProximalTimeBeforeSeqno src s"
  using assms by (rule Copy_ProximalTime)

theorem copy_range_keeps_answers_witness:
  "GetProximalTimeBeforeSeqno (CopyFromSeqnoRange SeqnoToTimeMapping_new
     \<lparr>stm_max_time_span = - 1, stm_capacity = - 1,
       stm_pairs = [SeqnoTimePair 10 500, SeqnoTimePair 20 600, SeqnoTimePair 30 700], stm_enforced = True\<rparr> 25 40) 28
   = GetProximalTimeBeforeSeqno
     \<lparr>stm_max_time_span = - 1, stm_capacity = - 1,
       stm_pairs = [SeqnoTimePair 10 500, SeqnoTimePair 20 600, SeqnoTimePair 30 700], stm_enforced = True\<rparr> 28"
  by (rule copy_range_keeps_answers) (simp_all add: pair_before_def SeqnoToTimeMapping_new_def)

text \<open>
  C38. The delta encoding round-trips, whatever the pairs (differences wrap around): decoding what
  \<^verbatim>\<open>EncodeTo\<close> wrote appends the pairs, and an input that does not decode leaves the mapping as it was.
\<close>

theorem mapping_encoding_roundtrip:
  assumes "varint_decoder E" and "length (stm_pairs src) < 2 ^ 64"
  shows "fst (STM_DecodeFrom E m (STM_EncodeTo src [])) = Status_OK
    \<and> stm_pairs (snd (STM_DecodeFrom E m (STM_EncodeTo src []))) = stm_pairs m @ stm_pairs src
    \<and> (\<not> ok (fst (STM_DecodeFrom E m input)) \<longrightarrow> snd (STM_DecodeFrom E m input) = m)"
proof -
  have "snd (STM_DecodeFrom E m input) = m" if "\<not> ok (fst (STM_DecodeFrom E m input))"
    using that DecodeImpl_prefix [of E input "stm_pairs m"]
    by (cases "DecodeImpl E input (stm_pairs m)") (auto simp: STM_DecodeFrom_def Let_def split: if_splits)
  then show ?thesis
    using varint_decoder.DecodeImpl_enc [OF assms, of "stm_pairs m"]
    by (simp add: STM_DecodeFrom_def Let_def)
qed

theorem mapping_encoding_roundtrip_witness:
  "fst (STM_DecodeFrom leb128_ext SeqnoToTimeMapping_new (STM_EncodeTo
     \<lparr>stm_max_time_span = - 1, stm_capacity = - 1, stm_pairs = [SeqnoTimePair 10 500, SeqnoTimePair 20 600],
       stm_enforced = True\<rparr> [])) = Status_OK"
  using mapping_encoding_roundtrip [OF leb.varint_decoder_axioms, of "\<lparr>stm_max_time_span = - 1, stm_capacity = - 1,
     stm_pairs = [SeqnoTimePair 10 500, SeqnoTimePair 20 600], stm_enforced = True\<rparr>" SeqnoToTimeMapping_new "[]"]
  by simp

text \<open>
  C40. After a clock reset an enforced mapping need not be sorted by time. Appending a pair with a greater
  sequence number and an earlier time than the newest pair replaces that pair, whatever the pairs before it are.
  The mapping stays enforced, and if the new time is also earlier than the time of the pair before, its times
  are out of order, while the search in \<^verbatim>\<open>GetProximalSeqnoBeforeTime\<close> requires them sorted.
\<close>

theorem append_after_clock_reset:
  assumes "stm_enforced m" and "within_capacity m" and "stm_pairs m = ps @ [l]"
    and "st_seqno l < seqno" and "time < st_time l"
  shows "let m' = EnforceMaxTimeSpan (m\<lparr>stm_pairs := ps @ [SeqnoTimePair seqno time]\<rparr>) 0
    in STM_Append m seqno time = Some (False, m') \<and> stm_enforced m'
      \<and> last (stm_pairs m') = SeqnoTimePair seqno time
      \<and> (ps \<noteq> [] \<and> time < st_time (last ps) \<longrightarrow> \<not> sorted_wrt (\<lambda>a b. st_time a \<le> st_time b) (stm_pairs m'))"
proof -
  let ?q = "SeqnoTimePair seqno time"
  let ?m = "m\<lparr>stm_pairs := ps @ [?q]\<rparr>"
  obtain qs where e: "EnforceMaxTimeSpan ?m 0 = m\<lparr>stm_pairs := qs\<rparr>" "suffix qs (ps @ [?q])"
    using EnforceMaxTimeSpan_suffix [of ?m 0] by auto
  have cap: "stm_capacity m \<noteq> 0" "length (ps @ [l]) \<le> unat (effective_capacity m False)"
    using assms(2,3) by (auto simp: within_capacity_def split: if_splits)
  then have "EnforceCapacity (EnforceMaxTimeSpan ?m 0) False = Some (EnforceMaxTimeSpan ?m 0)"
    using suffix_length_le [OF e(2)] e(1) by (simp add: EnforceCapacity_def)
  moreover have "Pair_Merge l ?q = (True, ?q)" "st_seqno l \<le> seqno" "seqno \<noteq> 0"
    using assms(4,5) by (auto simp: Pair_Merge_def)
  ultimately have app: "STM_Append m seqno time = Some (False, EnforceMaxTimeSpan ?m 0)"
    using assms(1,3) cap by (simp add: STM_Append_def)
  have qs: "qs = ps @ [?q] \<or> (\<exists>c. qs = pop_old c (ps @ [?q]) \<and> c \<le> time)"
    using arg_cong [OF e(1), of stm_pairs] by (auto simp: EnforceMaxTimeSpan_def Let_def not_less word_sub_le split: if_splits)
  then have last: "last qs = ?q" using pop_old_last [of "ps @ [?q]"] by auto
  have "\<not> sorted_wrt (\<lambda>a b. st_time a \<le> st_time b) qs" if ps: "ps \<noteq> []" "time < st_time (last ps)"
  proof -
    obtain xs a where a: "ps = xs @ [a]" using ps(1) by (cases ps rule: rev_cases) auto
    then have "time < st_time a" using ps(2) by simp
    moreover from this obtain zs where "qs = zs @ [a, ?q]"
      using qs a pop_old_keeps [of _ a xs ?q] by (auto dest: le_less_trans)
    ultimately show ?thesis by (simp add: sorted_wrt_append not_le)
  qed
  then show ?thesis using app e(1) last assms(1) by (simp add: Let_def)
qed

theorem append_after_clock_reset_witness:
  "STM_Append \<lparr>stm_max_time_span = - 1, stm_capacity = - 1,
       stm_pairs = [SeqnoTimePair 10 500, SeqnoTimePair 20 600], stm_enforced = True\<rparr> 30 400
   = Some (False, \<lparr>stm_max_time_span = - 1, stm_capacity = - 1,
       stm_pairs = [SeqnoTimePair 10 500, SeqnoTimePair 30 400], stm_enforced = True\<rparr>)"
  using append_after_clock_reset [of "\<lparr>stm_max_time_span = - 1, stm_capacity = - 1,
       stm_pairs = [SeqnoTimePair 10 500, SeqnoTimePair 20 600], stm_enforced = True\<rparr>"
       "[SeqnoTimePair 10 500]" "SeqnoTimePair 20 600" 30 400]
  by (simp add: within_capacity_def effective_unlimited EnforceMaxTimeSpan_def Let_def
      unsigned_minus_1_eq_mask mask_eq_exp_minus_1)

end
