(* ===== verification/Wal_Edit.thy ===== *)
theory Wal_Edit
  imports Db_Format
begin

text \<open>
  \<^verbatim>\<open>db/wal_edit.h\<close> and \<^verbatim>\<open>db/wal_edit.cc\<close>: the records of added and deleted WALs in the manifest and the
  set of live WALs. The ordered map of a WAL set is the list of its entries in key order, an
  iterator a position in it. The size of a file on disk is a parameter (\<^verbatim>\<open>Env::GetFileSize\<close>).
\<close>

section \<open>Records\<close>

type_synonym WalNumber = u64

record WalMetadata = wm_synced_size_bytes :: u64

definition kUnknownWalSize :: u64 where "kUnknownWalSize = - 1"

definition WalMetadata_default :: WalMetadata where
  "WalMetadata_default = \<lparr>wm_synced_size_bytes = kUnknownWalSize\<rparr>"

definition HasSyncedSize :: "WalMetadata \<Rightarrow> bool" where
  "HasSyncedSize meta \<longleftrightarrow> wm_synced_size_bytes meta \<noteq> kUnknownWalSize"

definition SetSyncedSizeInBytes :: "WalMetadata \<Rightarrow> u64 \<Rightarrow> WalMetadata" where
  "SetSyncedSizeInBytes meta bytes = meta\<lparr>wm_synced_size_bytes := bytes\<rparr>"

definition GetSyncedSizeInBytes :: "WalMetadata \<Rightarrow> u64" where
  "GetSyncedSizeInBytes meta = wm_synced_size_bytes meta"

abbreviation kTerminate :: u32 where "kTerminate \<equiv> 1"
abbreviation kSyncedSize :: u32 where "kSyncedSize \<equiv> 2"

record WalAddition =
  wa_number :: WalNumber
  wa_metadata :: WalMetadata

definition WalAddition_default :: WalAddition where
  "WalAddition_default = \<lparr>wa_number = 0, wa_metadata = WalMetadata_default\<rparr>"

text \<open>\<^verbatim>\<open>PutVarint32\<close> takes a \<^verbatim>\<open>uint32_t\<close>: the 64-bit size is converted.\<close>

definition WalAddition_EncodeTo :: "WalAddition \<Rightarrow> bytes \<Rightarrow> bytes" where
  "WalAddition_EncodeTo wal dst =
     (let dst = PutVarint64 dst (wa_number wal);
          dst = (if HasSyncedSize (wa_metadata wal)
                 then PutVarint32 (PutVarint32 dst kSyncedSize) (ucast (GetSyncedSizeInBytes (wa_metadata wal)))
                 else dst)
      in PutVarint32 dst kTerminate)"

partial_function (option) WalAddition_Decode_loop ::
  "varint_ext \<Rightarrow> WalAddition \<Rightarrow> bytes \<Rightarrow> (Status \<times> WalAddition \<times> bytes) option" where
  "WalAddition_Decode_loop E wal src =
     (case GetVarint32 E src of
        None \<Rightarrow> Some (Status_Corruption ''WalAddition'' ''Error decoding tag'', wal, src)
      | Some (tag_value, src) \<Rightarrow>
          if tag_value = kSyncedSize then
            (case GetVarint64 E src of
               None \<Rightarrow> Some (Status_Corruption ''WalAddition'' ''Error decoding WAL file size'', wal, src)
             | Some (sz, src) \<Rightarrow>
                 WalAddition_Decode_loop E
                   (wal\<lparr>wa_metadata := SetSyncedSizeInBytes (wa_metadata wal) sz\<rparr>) src)
          else if tag_value = kTerminate then Some (Status_OK, wal, src)
          else Some (Status_Corruption ''WalAddition'' (''Unknown tag '' @ to_string (unat tag_value)), wal, src))"

definition WalAddition_DecodeFrom ::
  "varint_ext \<Rightarrow> WalAddition \<Rightarrow> bytes \<Rightarrow> (Status \<times> WalAddition \<times> bytes) option" where
  "WalAddition_DecodeFrom E wal src =
     (case GetVarint64 E src of
        None \<Rightarrow> Some (Status_Corruption ''WalAddition'' ''Error decoding WAL log number'', wal, src)
      | Some (number, src) \<Rightarrow> WalAddition_Decode_loop E (wal\<lparr>wa_number := number\<rparr>) src)"

definition WalAddition_DebugString :: "WalAddition \<Rightarrow> string" where
  "WalAddition_DebugString wal =
     ''log_number: '' @ to_string (unat (wa_number wal)) @ '' synced_size_in_bytes: '' @
     to_string (unat (GetSyncedSizeInBytes (wa_metadata wal)))"

record WalDeletion = wd_number :: WalNumber

definition WalDeletion_IsEmpty :: "WalDeletion \<Rightarrow> bool" where
  "WalDeletion_IsEmpty wal \<longleftrightarrow> wd_number wal = 0"

definition WalDeletion_EncodeTo :: "WalDeletion \<Rightarrow> bytes \<Rightarrow> bytes" where
  "WalDeletion_EncodeTo wal dst = PutVarint64 dst (wd_number wal)"

definition WalDeletion_DecodeFrom :: "varint_ext \<Rightarrow> WalDeletion \<Rightarrow> bytes \<Rightarrow> Status \<times> WalDeletion \<times> bytes" where
  "WalDeletion_DecodeFrom E wal src =
     (case GetVarint64 E src of
        None \<Rightarrow> (Status_Corruption ''WalDeletion'' ''Error decoding WAL log number'', wal, src)
      | Some (number, src) \<Rightarrow> (Status_OK, wal\<lparr>wd_number := number\<rparr>, src))"

definition WalDeletion_DebugString :: "WalDeletion \<Rightarrow> string" where
  "WalDeletion_DebugString wal = ''log_number: '' @ to_string (unat (wd_number wal))"

section \<open>The set of WALs\<close>

record WalSet =
  ws_wals :: "(WalNumber \<times> WalMetadata) list"
  ws_min_wal_number_to_keep :: WalNumber

definition WalSet_new :: WalSet where
  "WalSet_new = \<lparr>ws_wals = [], ws_min_wal_number_to_keep = 0\<rparr>"

text \<open>\<^verbatim>\<open>std::map::lower_bound\<close> and insertion before an iterator.\<close>

definition wals_lower_bound :: "(WalNumber \<times> WalMetadata) list \<Rightarrow> WalNumber \<Rightarrow> nat" where
  "wals_lower_bound wals n = length (takeWhile (\<lambda>w. fst w < n) wals)"

definition wals_insert :: "nat \<Rightarrow> 'a \<Rightarrow> 'a list \<Rightarrow> 'a list" where
  "wals_insert it x xs = take it xs @ x # drop it xs"

definition AddWal :: "WalSet \<Rightarrow> WalAddition \<Rightarrow> Status \<times> WalSet" where
  "AddWal ws wal =
     (if wa_number wal < ws_min_wal_number_to_keep ws then (Status_OK, ws)
      else
        let it = wals_lower_bound (ws_wals ws) (wa_number wal);
            existing = (it \<noteq> length (ws_wals ws) \<and> fst (ws_wals ws ! it) = wa_number wal)
        in if \<not> existing then
             (Status_OK, ws\<lparr>ws_wals := wals_insert it (wa_number wal, wa_metadata wal) (ws_wals ws)\<rparr>)
           else if \<not> HasSyncedSize (wa_metadata wal) then
             (Status_Corruption ''WalSet::AddWal''
                (''WAL '' @ to_string (unat (wa_number wal)) @ '' is created more than once''), ws)
           else
             let old = snd (ws_wals ws ! it)
             in if HasSyncedSize old \<and>
                   GetSyncedSizeInBytes (wa_metadata wal) \<le> GetSyncedSizeInBytes old
                then (Status_OK, ws)
                else (Status_OK, ws\<lparr>ws_wals := (ws_wals ws)[it := (fst (ws_wals ws ! it),
                        SetSyncedSizeInBytes old (GetSyncedSizeInBytes (wa_metadata wal)))]\<rparr>))"

fun AddWals_loop :: "Status \<Rightarrow> WalSet \<Rightarrow> WalAddition list \<Rightarrow> Status \<times> WalSet" where
  "AddWals_loop s ws [] = (s, ws)"
| "AddWals_loop s ws (wal # wals) =
     (let (s, ws) = AddWal ws wal in if \<not> ok s then (s, ws) else AddWals_loop s ws wals)"

definition AddWals :: "WalSet \<Rightarrow> WalAddition list \<Rightarrow> Status \<times> WalSet" where
  "AddWals ws wals = AddWals_loop Status_OK ws wals"

definition DeleteWalsBefore :: "WalSet \<Rightarrow> WalNumber \<Rightarrow> Status \<times> WalSet" where
  "DeleteWalsBefore ws wal =
     (if ws_min_wal_number_to_keep ws < wal then
        let ws = ws\<lparr>ws_min_wal_number_to_keep := wal\<rparr>
        in (Status_OK, ws\<lparr>ws_wals := drop (wals_lower_bound (ws_wals ws) wal) (ws_wals ws)\<rparr>)
      else (Status_OK, ws))"

definition WalSet_Reset :: "WalSet \<Rightarrow> WalSet" where
  "WalSet_Reset ws = ws\<lparr>ws_wals := [], ws_min_wal_number_to_keep := 0\<rparr>"

text \<open>The environment's \<^verbatim>\<open>GetFileSize\<close> gives a status and a size for a file name.\<close>

fun CheckWals_loop :: "(string \<Rightarrow> Status \<times> u64) \<Rightarrow> (WalNumber \<Rightarrow> string option) \<Rightarrow> Status \<Rightarrow>
    (WalNumber \<times> WalMetadata) list \<Rightarrow> Status" where
  "CheckWals_loop GetFileSize logs_on_disk s [] = s"
| "CheckWals_loop GetFileSize logs_on_disk s ((log_number, wal_meta) # wals) =
     (if \<not> HasSyncedSize wal_meta then CheckWals_loop GetFileSize logs_on_disk s wals
      else
        (case logs_on_disk log_number of
           None \<Rightarrow> Status_Corruption (''Missing WAL with log number: '' @ to_string (unat log_number) @ ''.'') []
         | Some file \<Rightarrow>
             let (s, log_file_size) = GetFileSize file
             in if \<not> ok s then s
                else if log_file_size < GetSyncedSizeInBytes wal_meta then
                  Status_Corruption
                    (''Size mismatch: WAL (log number: '' @ to_string (unat log_number) @ '') in MANIFEST is '' @
                     to_string (unat (GetSyncedSizeInBytes wal_meta)) @ '' bytes , but actually is '' @
                     to_string (unat log_file_size) @ '' bytes on disk.'') []
                else CheckWals_loop GetFileSize logs_on_disk s wals))"

definition CheckWals :: "(string \<Rightarrow> Status \<times> u64) \<Rightarrow> (WalNumber \<Rightarrow> string option) \<Rightarrow> WalSet \<Rightarrow> Status" where
  "CheckWals GetFileSize logs_on_disk ws = CheckWals_loop GetFileSize logs_on_disk Status_OK (ws_wals ws)"

section \<open>Specification\<close>

text \<open>The manifest edits that concern WALs, and their effect on a set of WALs.\<close>

datatype WalEvent = EAdd WalNumber u64 | EDelete WalNumber

fun apply_event :: "WalSet \<Rightarrow> WalEvent \<Rightarrow> WalSet" where
  "apply_event ws (EAdd n sz) = snd (AddWal ws \<lparr>wa_number = n, wa_metadata = \<lparr>wm_synced_size_bytes = sz\<rparr>\<rparr>)"
| "apply_event ws (EDelete n) = snd (DeleteWalsBefore ws n)"

text \<open>
  What the edits say, whatever their order: the bound is the largest deletion, a WAL is there when it
  was added and is not below the bound, and its size is the largest synced size, or unknown.
\<close>

definition event_bound :: "WalEvent set \<Rightarrow> WalNumber" where
  "event_bound ev = Max (insert 0 {n. EDelete n \<in> ev})"

definition event_size :: "WalEvent set \<Rightarrow> WalNumber \<Rightarrow> u64" where
  "event_size ev n = (if \<exists>s. EAdd n s \<in> ev \<and> s \<noteq> kUnknownWalSize
     then Max {s. EAdd n s \<in> ev \<and> s \<noteq> kUnknownWalSize} else kUnknownWalSize)"

definition event_wal :: "WalEvent set \<Rightarrow> WalNumber \<Rightarrow> WalMetadata option" where
  "event_wal ev n = (if event_bound ev \<le> n \<and> (\<exists>s. EAdd n s \<in> ev)
     then Some \<lparr>wm_synced_size_bytes = event_size ev n\<rparr> else None)"

section \<open>Lemmas\<close>

definition wals_sorted :: "(WalNumber \<times> 'a) list \<Rightarrow> bool" where
  "wals_sorted = sorted_wrt (\<lambda>v w. fst v < fst w)"

lemma wals_sorted_distinct: "wals_sorted xs \<Longrightarrow> distinct (map fst xs)"
  unfolding wals_sorted_def by (induction xs) auto

text \<open>The position found by \<^verbatim>\<open>lower_bound\<close> splits the entries.\<close>

lemma lower_bound_split:
  assumes "wals_sorted xs"
  shows "\<forall>w \<in> set (take (wals_lower_bound xs n) xs). fst w < n"
    and "\<forall>w \<in> set (drop (wals_lower_bound xs n) xs). n \<le> fst w"
proof -
  have "xs = takeWhile (\<lambda>w. fst w < n) xs @ dropWhile (\<lambda>w. fst w < n) xs" by simp
  then have t: "take (wals_lower_bound xs n) xs = takeWhile (\<lambda>w. fst w < n) xs"
    and d: "drop (wals_lower_bound xs n) xs = dropWhile (\<lambda>w. fst w < n) xs"
    unfolding wals_lower_bound_def by (simp_all add: takeWhile_eq_take [symmetric] dropWhile_eq_drop [symmetric])
  show "\<forall>w \<in> set (take (wals_lower_bound xs n) xs). fst w < n"
    unfolding t by (auto dest: set_takeWhileD)
  show "\<forall>w \<in> set (drop (wals_lower_bound xs n) xs). n \<le> fst w"
    unfolding d using assms by (induction xs) (auto simp: wals_sorted_def not_less split: if_splits dest: less_le_trans)
qed

lemma wals_split:
  assumes "wals_sorted xs"
  obtains A D where "xs = A @ D" "wals_lower_bound xs n = length A" "\<forall>w \<in> set A. fst w < n" "\<forall>w \<in> set D. n \<le> fst w"
proof (rule that)
  show "xs = take (wals_lower_bound xs n) xs @ drop (wals_lower_bound xs n) xs" by simp
  show "wals_lower_bound xs n = length (take (wals_lower_bound xs n) xs)"
    by (simp add: wals_lower_bound_def length_takeWhile_le)
qed (rule lower_bound_split [OF assms])+

text \<open>What \<^verbatim>\<open>AddWal\<close> does to the entries, seen as a map.\<close>

definition wal_update :: "(WalNumber \<Rightarrow> WalMetadata option) \<Rightarrow> WalNumber \<Rightarrow> WalMetadata \<Rightarrow> (WalNumber \<Rightarrow> WalMetadata option)" where
  "wal_update f n meta =
     (case f n of
        None \<Rightarrow> f(n \<mapsto> meta)
      | Some old \<Rightarrow>
          if HasSyncedSize meta \<and> (HasSyncedSize old \<longrightarrow> GetSyncedSizeInBytes old < GetSyncedSizeInBytes meta)
          then f(n \<mapsto> meta) else f)"

lemma map_of_below: "\<forall>w \<in> set A. fst w < (n :: u64) \<Longrightarrow> map_of A n = None"
  by (auto simp: map_of_eq_None_iff)

lemma metadata_eq: "SetSyncedSizeInBytes old (GetSyncedSizeInBytes meta) = meta" for old meta :: WalMetadata
  by (cases old; cases meta) (simp add: SetSyncedSizeInBytes_def GetSyncedSizeInBytes_def)

lemma AddWal_map:
  assumes "wals_sorted (ws_wals ws)" and "ws_min_wal_number_to_keep ws \<le> wa_number wal"
  shows "wals_sorted (ws_wals (snd (AddWal ws wal)))
    \<and> map_of (ws_wals (snd (AddWal ws wal))) = wal_update (map_of (ws_wals ws)) (wa_number wal) (wa_metadata wal)
    \<and> ws_min_wal_number_to_keep (snd (AddWal ws wal)) = ws_min_wal_number_to_keep ws"
proof -
  let ?n = "wa_number wal" and ?m = "wa_metadata wal"
  obtain A D where AD: "ws_wals ws = A @ D" "wals_lower_bound (A @ D) ?n = length A"
    "\<forall>w \<in> set A. fst w < ?n" "\<forall>w \<in> set D. ?n \<le> fst w"
    using wals_split [OF assms(1), of ?n] by metis
  have A: "map_of A ?n = None" "?n \<notin> dom (map_of A)" using map_of_below [OF AD(3)] by auto
  have srt: "wals_sorted (A @ D)" using assms(1) AD(1) by simp
  show ?thesis
  proof (cases "D \<noteq> [] \<and> fst (hd D) = ?n")
    case True
    then obtain old D' where D: "D = (?n, old) # D'" by (cases D) auto
    have up: "map_of (A @ (?n, ?m) # D') = (map_of (A @ D))(?n \<mapsto> ?m)"
      using A(2) D by (simp add: map_add_upd_left)
    have at: "map_of (A @ D) ?n = Some old" "(A @ D) ! length A = (?n, old)" "D \<noteq> []"
      "(A @ D)[length A := x] = A @ x # D'" for x
      using A(1) D by (simp_all add: map_add_def)
    have "wals_sorted (A @ (?n, ?m) # D')"
      using srt D by (auto simp: wals_sorted_def sorted_wrt_append)
    then show ?thesis
      using assms(2) AD(1,2) up at srt
      by (auto simp: AddWal_def Let_def wal_update_def metadata_eq simp del: map_of_append)
  next
    case False
    then have "map_of D ?n = None"
      using AD(4) srt by (cases D) (auto simp: map_of_eq_None_iff wals_sorted_def sorted_wrt_append)
    moreover have "\<not> (length A \<noteq> length (A @ D) \<and> fst ((A @ D) ! length A) = ?n)"
      using False by (cases D) auto
    moreover have "wals_sorted (A @ (?n, ?m) # D)"
      using srt AD(3,4) calculation(1)
      by (auto simp: wals_sorted_def sorted_wrt_append map_of_eq_None_iff less_le)
    moreover have "map_of (A @ (?n, ?m) # D) = (map_of (A @ D))(?n \<mapsto> ?m)"
      "map_of (A @ D) ?n = None"
      using A calculation(1) by (simp_all add: map_add_upd_left)
    ultimately show ?thesis
      using assms(2) AD(1,2)
      by (auto simp: AddWal_def Let_def wal_update_def wals_insert_def simp del: map_of_append)
  qed
qed

lemma DeleteWalsBefore_map:
  assumes "wals_sorted (ws_wals ws)" and "ws_min_wal_number_to_keep ws < n"
  shows "wals_sorted (ws_wals (snd (DeleteWalsBefore ws n)))
    \<and> map_of (ws_wals (snd (DeleteWalsBefore ws n))) = map_of (ws_wals ws) |` {k. n \<le> k}
    \<and> ws_min_wal_number_to_keep (snd (DeleteWalsBefore ws n)) = n"
proof -
  obtain A D where AD: "ws_wals ws = A @ D" "wals_lower_bound (A @ D) n = length A"
    "\<forall>w \<in> set A. fst w < n" "\<forall>w \<in> set D. n \<le> fst w"
    using wals_split [OF assms(1), of n] by metis
  have "map_of D k = (map_of (A @ D) |` {k. n \<le> k}) k" for k
  proof (cases "n \<le> k")
    case True
    then have "map_of A k = None" using AD(3) by (auto simp: map_of_eq_None_iff)
    then show ?thesis using True by (simp add: map_add_def)
  next
    case False
    then have "map_of D k = None" using AD(4) by (auto simp: map_of_eq_None_iff)
    then show ?thesis using False by simp
  qed
  then have "map_of D = map_of (A @ D) |` {k. n \<le> k}" by blast
  then show ?thesis using assms AD(1,2)
    by (simp add: DeleteWalsBefore_def wals_sorted_def sorted_wrt_append)
qed

lemma finite_events:
  assumes "finite ev"
  shows "finite {n. EDelete n \<in> ev}" "finite {s. EAdd n s \<in> ev \<and> P s}"
proof -
  have "finite (EDelete -` ev)" "finite (EAdd n -` ev)"
    using assms by (auto intro!: finite_vimageI simp: inj_def)
  then show "finite {n. EDelete n \<in> ev}" "finite {s. EAdd n s \<in> ev \<and> P s}"
    by (auto elim!: rev_finite_subset)
qed

lemma event_bound_insert:
  "event_bound (insert (EAdd n s) ev) = event_bound ev"
  "finite ev \<Longrightarrow> event_bound (insert (EDelete n) ev) = max n (event_bound ev)"
proof -
  show "event_bound (insert (EAdd n s) ev) = event_bound ev" by (simp add: event_bound_def)
  have "{k. EDelete k \<in> insert (EDelete n) ev} = insert n {k. EDelete k \<in> ev}" by auto
  then show "event_bound (insert (EDelete n) ev) = max n (event_bound ev)" if "finite ev"
    using finite_events(1) [OF that] unfolding event_bound_def
    by (simp only:) (subst insert_commute, rule Max_insert, simp_all)
qed

definition synced_sizes :: "WalEvent set \<Rightarrow> WalNumber \<Rightarrow> u64 set" where
  "synced_sizes ev n = {s. EAdd n s \<in> ev \<and> s \<noteq> kUnknownWalSize}"

lemma event_size_Max: "event_size ev n = (if synced_sizes ev n = {} then kUnknownWalSize else Max (synced_sizes ev n))"
  by (auto simp: event_size_def synced_sizes_def)

lemma synced_sizes_insert: "synced_sizes (insert (EAdd n s) ev) k =
    (if k = n \<and> s \<noteq> kUnknownWalSize then insert s (synced_sizes ev k) else synced_sizes ev k)"
  by (auto simp: synced_sizes_def)

lemma event_wal_add:
  assumes "finite ev" "event_bound ev \<le> n"
  shows "event_wal (insert (EAdd n s) ev) = wal_update (event_wal ev) n \<lparr>wm_synced_size_bytes = s\<rparr>"
proof
  fix k
  have fin: "finite (synced_sizes ev n)"
    unfolding synced_sizes_def using assms(1) by (rule finite_events)
  have known: "synced_sizes ev n \<noteq> {} \<Longrightarrow> Max (synced_sizes ev n) \<noteq> kUnknownWalSize"
    using Max_in [OF fin] by (auto simp: synced_sizes_def)
  have none: "(\<forall>s. EAdd n s \<notin> ev) \<Longrightarrow> synced_sizes ev n = {}" by (simp add: synced_sizes_def)
  show "event_wal (insert (EAdd n s) ev) k = wal_update (event_wal ev) n \<lparr>wm_synced_size_bytes = s\<rparr> k"
    using assms(2) fin known none
    by (cases "k = n"; cases "synced_sizes ev n = {}")
      (auto simp: event_wal_def event_bound_insert wal_update_def event_size_Max synced_sizes_insert
        HasSyncedSize_def GetSyncedSizeInBytes_def max_def simp del: Max_less_iff Max_ge_iff
        split: if_splits option.split)
qed

lemma event_wal_below: "n < event_bound ev \<Longrightarrow> event_wal (insert (EAdd n s) ev) = event_wal ev"
  by (rule ext) (auto simp: event_wal_def event_bound_insert event_size_Max synced_sizes_insert)

lemma event_wal_delete:
  "finite ev \<Longrightarrow> event_wal (insert (EDelete n) ev) = event_wal ev |` {k. n \<le> k}"
  by (rule ext) (auto simp: event_wal_def event_bound_insert event_size_def restrict_map_def)

lemma run_events:
  "let ws = foldl apply_event WalSet_new evs in
     wals_sorted (ws_wals ws) \<and> map_of (ws_wals ws) = event_wal (set evs)
     \<and> ws_min_wal_number_to_keep ws = event_bound (set evs)"
proof (induction evs rule: rev_induct)
  case Nil
  show ?case by (auto simp: WalSet_new_def wals_sorted_def event_wal_def event_bound_def fun_eq_iff)
next
  case (snoc e evs)
  define ws where "ws = foldl apply_event WalSet_new evs"
  have IH: "wals_sorted (ws_wals ws)" "map_of (ws_wals ws) = event_wal (set evs)"
    "ws_min_wal_number_to_keep ws = event_bound (set evs)"
    using snoc by (simp_all add: ws_def Let_def)
  show ?case
  proof (cases e)
    case (EAdd n s)
    let ?wal = "\<lparr>wa_number = n, wa_metadata = \<lparr>wm_synced_size_bytes = s\<rparr>\<rparr>"
    show ?thesis
    proof (cases "event_bound (set evs) \<le> n")
      case True
      then show ?thesis
        using AddWal_map [of ws ?wal] IH EAdd event_wal_add [OF _ True]
        by (simp add: ws_def [symmetric] event_bound_insert Let_def)
    next
      case False
      then have "AddWal ws ?wal = (Status_OK, ws)" using IH(3) by (simp add: AddWal_def not_le)
      then show ?thesis
        using False IH EAdd event_wal_below [of n "set evs" s]
        by (simp add: ws_def [symmetric] event_bound_insert Let_def not_le)
    qed
  next
    case (EDelete n)
    show ?thesis
    proof (cases "event_bound (set evs) < n")
      case True
      then show ?thesis
        using DeleteWalsBefore_map [of ws n] IH EDelete
        by (simp add: ws_def [symmetric] event_bound_insert event_wal_delete Let_def max_absorb1 less_imp_le)
    next
      case False
      have "event_wal (set evs) |` {k. n \<le> k} = event_wal (set evs)"
        using False by (auto simp: fun_eq_iff restrict_map_def event_wal_def)
      moreover have "DeleteWalsBefore ws n = (Status_OK, ws)" using False IH(3) by (simp add: DeleteWalsBefore_def)
      ultimately show ?thesis
        using False IH EDelete
        by (simp add: ws_def [symmetric] event_bound_insert event_wal_delete Let_def max_absorb2 not_less)
    qed
  qed
qed

lemma wals_sorted_unique:
  assumes "wals_sorted xs" "wals_sorted ys" "map_of xs = map_of ys"
  shows "xs = ys"
proof -
  have keys: "map fst xs = map fst ys"
  proof (rule strict_sorted_equal)
    show "sorted_wrt (<) (map fst xs)" "sorted_wrt (<) (map fst ys)"
      using assms(1,2) by (simp_all add: wals_sorted_def sorted_wrt_map)
    show "set (map fst xs) = set (map fst ys)"
      using assms(3) by (metis dom_map_of_conv_image_fst set_map)
  qed
  have vals: "map (\<lambda>k. (k, the (map_of zs k))) (map fst zs) = zs" if "wals_sorted zs" for zs :: "(WalNumber \<times> 'a) list"
    using map_of_is_SomeI [OF wals_sorted_distinct [OF that]] by (auto intro!: map_idI)
  show ?thesis using vals [OF assms(1)] vals [OF assms(2)] keys assms(3) by metis
qed

lemma CheckWals_loop_ok:
  "ok s \<Longrightarrow> ok (CheckWals_loop F D s wals) \<longleftrightarrow>
     (\<forall>(n, m) \<in> set wals. HasSyncedSize m \<longrightarrow>
        (\<exists>f. D n = Some f \<and> ok (fst (F f)) \<and> GetSyncedSizeInBytes m \<le> snd (F f)))"
  by (induction F D s wals rule: CheckWals_loop.induct)
    (auto simp: Let_def not_less split: option.splits prod.splits if_splits)

context varint_decoder
begin

lemma WalAddition_loop_end:
  "WalAddition_Decode_loop E wal (EncodeVarint32 kTerminate @ rest) = Some (Status_OK, wal, rest)"
  by (subst WalAddition_Decode_loop.simps) (simp add: GetVarint32_enc)

lemma WalAddition_loop_size:
  "WalAddition_Decode_loop E wal (EncodeVarint32 kSyncedSize @ EncodeVarint32 v @ rest) =
     WalAddition_Decode_loop E (wal\<lparr>wa_metadata := SetSyncedSizeInBytes (wa_metadata wal) (ucast v)\<rparr>) rest"
  by (subst WalAddition_Decode_loop.simps) (simp add: GetVarint32_enc EncodeVarint32_eq [of v] GetVarint64_enc)

lemma WalAddition_roundtrip:
  "WalAddition_DecodeFrom E WalAddition_default (WalAddition_EncodeTo wal [] @ rest) =
     Some (Status_OK, \<lparr>wa_number = wa_number wal, wa_metadata =
       if HasSyncedSize (wa_metadata wal)
       then \<lparr>wm_synced_size_bytes = take_bit 32 (GetSyncedSizeInBytes (wa_metadata wal))\<rparr>
       else wa_metadata wal\<rparr>, rest)"
proof -
  have "ucast (ucast x :: u32) = take_bit 32 x" for x :: u64
    by (simp add: unsigned_ucast_eq)
  then show ?thesis
    by (cases wal; cases "wa_metadata wal")
      (simp add: WalAddition_DecodeFrom_def WalAddition_EncodeTo_def PutVarint64_def PutVarint32_def
        GetVarint64_enc WalAddition_loop_size WalAddition_loop_end WalAddition_default_def
        SetSyncedSizeInBytes_def GetSyncedSizeInBytes_def HasSyncedSize_def WalMetadata_default_def)
qed

end

section \<open>Properties\<close>

text \<open>
  C10. A WAL set does not depend on the order in which the edits of the manifest are applied, which
  the threads that sync WALs do not control: after any sequence of additions and deletions the bound is
  the largest deletion, the WALs are those added and not below the bound, each with the largest
  synced size that was recorded for it; and sequences of the same edits give the same set.
\<close>

theorem wal_set_order_independent:
  "ws_min_wal_number_to_keep (foldl apply_event WalSet_new evs) = event_bound (set evs)
   \<and> map_of (ws_wals (foldl apply_event WalSet_new evs)) = event_wal (set evs)
   \<and> (set evs' = set evs \<longrightarrow> foldl apply_event WalSet_new evs' = foldl apply_event WalSet_new evs)"
proof -
  have "foldl apply_event WalSet_new evs' = foldl apply_event WalSet_new evs" if "set evs' = set evs"
    using run_events [of evs] run_events [of evs'] that
    by (intro WalSet.equality) (auto simp: Let_def intro: wals_sorted_unique)
  then show ?thesis using run_events [of evs] by (auto simp: Let_def)
qed

theorem wal_set_order_independent_witness:
  "foldl apply_event WalSet_new [EAdd 4 20, EDelete 3, EAdd 4 10, EAdd 2 5] =
   foldl apply_event WalSet_new [EAdd 4 10, EAdd 2 5, EAdd 4 20, EDelete 3]"
  using wal_set_order_independent [of "[EAdd 4 10, EAdd 2 5, EAdd 4 20, EDelete 3]"
      "[EAdd 4 20, EDelete 3, EAdd 4 10, EAdd 2 5]"]
  by (simp add: insert_commute)

text \<open>
  C14. The check of the WALs against the disk is exact: it succeeds if and only if every WAL whose size
  has been synced has a file, of a size that can be read and is not smaller than the synced size; WALs
  that have not been synced may be missing.
\<close>

theorem CheckWals_exact:
  "ok (CheckWals GetFileSize logs_on_disk ws) \<longleftrightarrow>
     (\<forall>(n, m) \<in> set (ws_wals ws). HasSyncedSize m \<longrightarrow>
        (\<exists>f. logs_on_disk n = Some f \<and> ok (fst (GetFileSize f)) \<and> GetSyncedSizeInBytes m \<le> snd (GetFileSize f)))"
  unfolding CheckWals_def by (rule CheckWals_loop_ok) simp

theorem CheckWals_exact_witness:
  "ok (CheckWals (\<lambda>f. (Status_OK, of_nat (length f))) [7 \<mapsto> ''123'']
     \<lparr>ws_wals = [(5, \<lparr>wm_synced_size_bytes = - 1\<rparr>), (7, \<lparr>wm_synced_size_bytes = 2\<rparr>)], ws_min_wal_number_to_keep = 0\<rparr>)"
  using CheckWals_exact [of "\<lambda>f. (Status_OK, of_nat (length f))" "[7 \<mapsto> ''123'']"
      "\<lparr>ws_wals = [(5, \<lparr>wm_synced_size_bytes = - 1\<rparr>), (7, \<lparr>wm_synced_size_bytes = 2\<rparr>)], ws_min_wal_number_to_keep = 0\<rparr>"]
  by (simp add: HasSyncedSize_def kUnknownWalSize_def GetSyncedSizeInBytes_def)

text \<open>
  C39. A WAL addition is decoded to the WAL that was encoded, except that the synced size goes through
  a 32-bit word: a size of 4 GiB or more is read back modulo 4 GiB. The loop that reads the tags ends.
\<close>

theorem wal_addition_roundtrip:
  assumes "varint_decoder E"
  shows "WalAddition_DecodeFrom E WalAddition_default (WalAddition_EncodeTo wal [] @ rest) =
     Some (Status_OK, \<lparr>wa_number = wa_number wal, wa_metadata =
       if HasSyncedSize (wa_metadata wal)
       then \<lparr>wm_synced_size_bytes = take_bit 32 (GetSyncedSizeInBytes (wa_metadata wal))\<rparr>
       else wa_metadata wal\<rparr>, rest)"
  using varint_decoder.WalAddition_roundtrip [OF assms] .

theorem wal_addition_roundtrip_witness:
  "WalAddition_DecodeFrom leb128_ext WalAddition_default (WalAddition_EncodeTo
       \<lparr>wa_number = 3, wa_metadata = \<lparr>wm_synced_size_bytes = 2 ^ 32 + 7\<rparr>\<rparr> [] @ [])
   = Some (Status_OK, \<lparr>wa_number = 3, wa_metadata = \<lparr>wm_synced_size_bytes = 7\<rparr>\<rparr>, [])"
  using wal_addition_roundtrip [OF leb.varint_decoder_axioms,
      of "\<lparr>wa_number = 3, wa_metadata = \<lparr>wm_synced_size_bytes = 2 ^ 32 + 7\<rparr>\<rparr>" "[]"]
  by (simp add: HasSyncedSize_def kUnknownWalSize_def GetSyncedSizeInBytes_def)

end
