(* ===== verification/Lru_Handle_Table.thy ===== *)
theory Lru_Handle_Table
  imports Xiao_Status "HOL-Library.Monad_Syntax" "HOL-Library.Multiset"
begin

text \<open>
  \<^verbatim>\<open>cache/lru_cache.h\<close> and \<^verbatim>\<open>cache/lru_cache.cc\<close>, first part: the cache entry \<^verbatim>\<open>LRUHandle\<close> and the
  chained hash table \<^verbatim>\<open>LRUHandleTable\<close>. Entries live at addresses of an explicit heap, since the
  hash chains and the LRU list are intrusive lists through the same objects. \<^term>\<open>None\<close> is the result
  of reading a null or a freed pointer, of an index out of range and of a failed assertion; the loops
  over chains are partial functions, for which \<^term>\<open>None\<close> also stands for not ending.
\<close>

section \<open>Cache entries\<close>

type_synonym addr = nat
type_synonym ObjectPtr = nat

abbreviation nullptr :: addr where "nullptr \<equiv> 0"

datatype Priority = HIGH | LOW | BOTTOM

datatype CacheMetadataChargePolicy = kDontChargeCacheMetadata | kFullChargeCacheMetadata

text \<open>Of a helper the cache uses whether it has a deleter and whether it has the secondary cache callbacks.\<close>

record CacheItemHelper =
  ch_del_cb :: bool
  ch_size_cb :: bool

definition IsSecondaryCacheCompatible :: "CacheItemHelper \<Rightarrow> bool" where
  "IsSecondaryCacheCompatible helper \<longleftrightarrow> ch_size_cb helper"

record LRUHandle =
  h_value :: ObjectPtr
  h_helper :: CacheItemHelper
  h_next_hash :: addr
  h_next :: addr
  h_prev :: addr
  h_total_charge :: u64
  h_key_length :: u64
  h_hash :: u32
  h_refs :: u32
  h_m_flags :: byte
  h_im_flags :: byte
  h_key_data :: bytes

type_synonym heap = "addr \<rightharpoonup> LRUHandle"

definition M_IN_CACHE :: byte where "M_IN_CACHE = push_bit 0 1"
definition M_HAS_HIT :: byte where "M_HAS_HIT = push_bit 1 1"
definition M_IN_HIGH_PRI_POOL :: byte where "M_IN_HIGH_PRI_POOL = push_bit 2 1"
definition M_IN_LOW_PRI_POOL :: byte where "M_IN_LOW_PRI_POOL = push_bit 3 1"

definition IM_IS_HIGH_PRI :: byte where "IM_IS_HIGH_PRI = push_bit 0 1"
definition IM_IS_LOW_PRI :: byte where "IM_IS_LOW_PRI = push_bit 1 1"
definition IM_IS_STANDALONE :: byte where "IM_IS_STANDALONE = push_bit 2 1"

definition handle_key :: "LRUHandle \<Rightarrow> bytes" where
  "handle_key h = take (unat (h_key_length h)) (h_key_data h)"

definition handle_Ref :: "LRUHandle \<Rightarrow> LRUHandle" where
  "handle_Ref h = h\<lparr>h_refs := h_refs h + 1\<rparr>"

definition handle_Unref :: "LRUHandle \<Rightarrow> (bool \<times> LRUHandle) option" where
  "handle_Unref h =
     (if h_refs h > 0 then Some (h_refs h - 1 = 0, h\<lparr>h_refs := h_refs h - 1\<rparr>) else None)"

definition HasRefs :: "LRUHandle \<Rightarrow> bool" where "HasRefs h \<longleftrightarrow> h_refs h > 0"
definition InCache :: "LRUHandle \<Rightarrow> bool" where "InCache h \<longleftrightarrow> h_m_flags h AND M_IN_CACHE \<noteq> 0"
definition IsHighPri :: "LRUHandle \<Rightarrow> bool" where "IsHighPri h \<longleftrightarrow> h_im_flags h AND IM_IS_HIGH_PRI \<noteq> 0"
definition InHighPriPool :: "LRUHandle \<Rightarrow> bool" where
  "InHighPriPool h \<longleftrightarrow> h_m_flags h AND M_IN_HIGH_PRI_POOL \<noteq> 0"
definition IsLowPri :: "LRUHandle \<Rightarrow> bool" where "IsLowPri h \<longleftrightarrow> h_im_flags h AND IM_IS_LOW_PRI \<noteq> 0"
definition InLowPriPool :: "LRUHandle \<Rightarrow> bool" where
  "InLowPriPool h \<longleftrightarrow> h_m_flags h AND M_IN_LOW_PRI_POOL \<noteq> 0"
definition HasHit :: "LRUHandle \<Rightarrow> bool" where "HasHit h \<longleftrightarrow> h_m_flags h AND M_HAS_HIT \<noteq> 0"
definition IsStandalone :: "LRUHandle \<Rightarrow> bool" where
  "IsStandalone h \<longleftrightarrow> h_im_flags h AND IM_IS_STANDALONE \<noteq> 0"

definition SetInCache :: "bool \<Rightarrow> LRUHandle \<Rightarrow> LRUHandle" where
  "SetInCache in_cache h =
     h\<lparr>h_m_flags := if in_cache then h_m_flags h OR M_IN_CACHE else h_m_flags h AND NOT M_IN_CACHE\<rparr>"

definition SetPriority :: "Priority \<Rightarrow> LRUHandle \<Rightarrow> LRUHandle" where
  "SetPriority priority h =
     h\<lparr>h_im_flags :=
        (case priority of
           HIGH \<Rightarrow> (h_im_flags h OR IM_IS_HIGH_PRI) AND NOT IM_IS_LOW_PRI
         | LOW \<Rightarrow> (h_im_flags h AND NOT IM_IS_HIGH_PRI) OR IM_IS_LOW_PRI
         | BOTTOM \<Rightarrow> (h_im_flags h AND NOT IM_IS_HIGH_PRI) AND NOT IM_IS_LOW_PRI)\<rparr>"

definition SetInHighPriPool :: "bool \<Rightarrow> LRUHandle \<Rightarrow> LRUHandle" where
  "SetInHighPriPool b h =
     h\<lparr>h_m_flags := if b then h_m_flags h OR M_IN_HIGH_PRI_POOL else h_m_flags h AND NOT M_IN_HIGH_PRI_POOL\<rparr>"

definition SetInLowPriPool :: "bool \<Rightarrow> LRUHandle \<Rightarrow> LRUHandle" where
  "SetInLowPriPool b h =
     h\<lparr>h_m_flags := if b then h_m_flags h OR M_IN_LOW_PRI_POOL else h_m_flags h AND NOT M_IN_LOW_PRI_POOL\<rparr>"

definition SetHit :: "LRUHandle \<Rightarrow> LRUHandle" where
  "SetHit h = h\<lparr>h_m_flags := h_m_flags h OR M_HAS_HIT\<rparr>"

definition SetIsStandalone :: "bool \<Rightarrow> LRUHandle \<Rightarrow> LRUHandle" where
  "SetIsStandalone b h =
     h\<lparr>h_im_flags := if b then h_im_flags h OR IM_IS_STANDALONE else h_im_flags h AND NOT IM_IS_STANDALONE\<rparr>"

text \<open>The size of a handle on a machine with 64-bit pointers: seven words, two halves, three bytes, padding.\<close>

definition sizeof_LRUHandle :: u64 where "sizeof_LRUHandle = 72"

definition CalcuMetaCharge :: "CacheMetadataChargePolicy \<Rightarrow> LRUHandle \<Rightarrow> u64" where
  "CalcuMetaCharge policy h =
     (if policy \<noteq> kFullChargeCacheMetadata then 0 else sizeof_LRUHandle - 1 + h_key_length h)"

definition CalcTotalCharge :: "u64 \<Rightarrow> CacheMetadataChargePolicy \<Rightarrow> LRUHandle \<Rightarrow> LRUHandle" where
  "CalcTotalCharge charge policy h = h\<lparr>h_total_charge := charge + CalcuMetaCharge policy h\<rparr>"

definition handle_GetCharge :: "CacheMetadataChargePolicy \<Rightarrow> LRUHandle \<Rightarrow> u64 option" where
  "handle_GetCharge policy h =
     (let meta_charge = CalcuMetaCharge policy h
      in if meta_charge \<le> h_total_charge h then Some (h_total_charge h - meta_charge) else None)"

definition check :: "bool \<Rightarrow> unit option" where
  "check b = (if b then Some () else None)"

definition update_at :: "heap \<Rightarrow> addr \<Rightarrow> (LRUHandle \<Rightarrow> LRUHandle) \<Rightarrow> heap option" where
  "update_at hp a f = (case hp a of None \<Rightarrow> None | Some h \<Rightarrow> Some (hp(a \<mapsto> f h)))"

section \<open>The hash table\<close>

record LRUHandleTable =
  tb_length_bits :: nat
  tb_list :: "addr list"
  tb_elems :: u32
  tb_max_length_bits :: nat

definition LRUHandleTable_new :: "nat \<Rightarrow> LRUHandleTable" where
  "LRUHandleTable_new max_upper_hash_bits =
     \<lparr>tb_length_bits = 4, tb_list = replicate (2 ^ 4) nullptr, tb_elems = 0,
      tb_max_length_bits = max_upper_hash_bits\<rparr>"

text \<open>A pointer to a pointer to an entry: a bucket of the table, or the link field of an entry.\<close>

datatype slot = Bucket nat | NextHash addr

definition read_slot :: "addr list \<Rightarrow> heap \<Rightarrow> slot \<Rightarrow> addr option" where
  "read_slot lst hp ptr =
     (case ptr of
        Bucket i \<Rightarrow> if i < length lst then Some (lst ! i) else None
      | NextHash a \<Rightarrow> map_option h_next_hash (hp a))"

definition write_slot :: "addr list \<Rightarrow> heap \<Rightarrow> slot \<Rightarrow> addr \<Rightarrow> (addr list \<times> heap) option" where
  "write_slot lst hp ptr v =
     (case ptr of
        Bucket i \<Rightarrow> if i < length lst then Some (lst[i := v], hp) else None
      | NextHash a \<Rightarrow> map_option (\<lambda>hp. (lst, hp)) (update_at hp a (h_next_hash_update (\<lambda>_. v))))"

definition bucket_of :: "nat \<Rightarrow> u32 \<Rightarrow> nat" where
  "bucket_of length_bits hash = unat (drop_bit (32 - length_bits) hash)"

partial_function (option) FindPointer_loop ::
  "addr list \<Rightarrow> heap \<Rightarrow> bytes \<Rightarrow> u32 \<Rightarrow> slot \<Rightarrow> slot option" where
  "FindPointer_loop lst hp key hash ptr =
     do {
       a \<leftarrow> read_slot lst hp ptr;
       if a = nullptr then Some ptr
       else do {
         h \<leftarrow> hp a;
         if h_hash h \<noteq> hash \<or> key \<noteq> handle_key h then FindPointer_loop lst hp key hash (NextHash a)
         else Some ptr
       }
     }"

definition FindPointer :: "LRUHandleTable \<Rightarrow> heap \<Rightarrow> bytes \<Rightarrow> u32 \<Rightarrow> slot option" where
  "FindPointer tb hp key hash =
     FindPointer_loop (tb_list tb) hp key hash (Bucket (bucket_of (tb_length_bits tb) hash))"

definition Table_Lookup :: "LRUHandleTable \<Rightarrow> heap \<Rightarrow> bytes \<Rightarrow> u32 \<Rightarrow> addr option" where
  "Table_Lookup tb hp key hash =
     do { ptr \<leftarrow> FindPointer tb hp key hash; read_slot (tb_list tb) hp ptr }"

partial_function (option) Resize_chain ::
  "nat \<Rightarrow> addr list \<Rightarrow> heap \<Rightarrow> u32 \<Rightarrow> addr \<Rightarrow> (addr list \<times> heap \<times> u32) option" where
  "Resize_chain new_length_bits new_list hp cnt h =
     (if h = nullptr then Some (new_list, hp, cnt)
      else do {
        e \<leftarrow> hp h;
        let next = h_next_hash e;
        let i = bucket_of new_length_bits (h_hash e);
        p \<leftarrow> read_slot new_list hp (Bucket i);
        hp \<leftarrow> update_at hp h (h_next_hash_update (\<lambda>_. p));
        (new_list, hp) \<leftarrow> write_slot new_list hp (Bucket i) h;
        Resize_chain new_length_bits new_list hp (cnt + 1) next
      })"

fun Resize_loop ::
  "nat \<Rightarrow> addr list \<Rightarrow> addr list \<Rightarrow> heap \<Rightarrow> u32 \<Rightarrow> (addr list \<times> heap \<times> u32) option" where
  "Resize_loop new_length_bits [] new_list hp cnt = Some (new_list, hp, cnt)"
| "Resize_loop new_length_bits (h # hs) new_list hp cnt =
     do {
       (new_list, hp, cnt) \<leftarrow> Resize_chain new_length_bits new_list hp cnt h;
       Resize_loop new_length_bits hs new_list hp cnt
     }"

definition Resize :: "LRUHandleTable \<Rightarrow> heap \<Rightarrow> (LRUHandleTable \<times> heap) option" where
  "Resize tb hp =
     (if tb_max_length_bits tb \<le> tb_length_bits tb then Some (tb, hp)
      else if 31 \<le> tb_length_bits tb then Some (tb, hp)
      else do {
        let old_length = 2 ^ tb_length_bits tb;
        let new_length_bits = tb_length_bits tb + 1;
        (new_list, hp, cnt) \<leftarrow> Resize_loop new_length_bits (take old_length (tb_list tb))
            (replicate (2 ^ new_length_bits) nullptr) hp 0;
        check (tb_elems tb = cnt);
        Some (tb\<lparr>tb_list := new_list, tb_length_bits := new_length_bits\<rparr>, hp)
      })"

definition Table_Insert :: "LRUHandleTable \<Rightarrow> heap \<Rightarrow> addr \<Rightarrow> (addr \<times> LRUHandleTable \<times> heap) option" where
  "Table_Insert tb hp h =
     do {
       e \<leftarrow> hp h;
       ptr \<leftarrow> FindPointer tb hp (handle_key e) (h_hash e);
       old \<leftarrow> read_slot (tb_list tb) hp ptr;
       next \<leftarrow> (if old = nullptr then Some nullptr else map_option h_next_hash (hp old));
       hp \<leftarrow> update_at hp h (h_next_hash_update (\<lambda>_. next));
       (lst, hp) \<leftarrow> write_slot (tb_list tb) hp ptr h;
       let tb = tb\<lparr>tb_list := lst\<rparr>;
       if old = nullptr then do {
         let tb = tb\<lparr>tb_elems := tb_elems tb + 1\<rparr>;
         if drop_bit (tb_length_bits tb) (tb_elems tb) > 0 then do {
           (tb, hp) \<leftarrow> Resize tb hp;
           Some (old, tb, hp)
         } else Some (old, tb, hp)
       } else Some (old, tb, hp)
     }"

definition Table_Remove :: "LRUHandleTable \<Rightarrow> heap \<Rightarrow> bytes \<Rightarrow> u32 \<Rightarrow> (addr \<times> LRUHandleTable \<times> heap) option" where
  "Table_Remove tb hp key hash =
     do {
       ptr \<leftarrow> FindPointer tb hp key hash;
       result \<leftarrow> read_slot (tb_list tb) hp ptr;
       if result = nullptr then Some (result, tb, hp)
       else do {
         next \<leftarrow> map_option h_next_hash (hp result);
         (lst, hp) \<leftarrow> write_slot (tb_list tb) hp ptr next;
         Some (result, tb\<lparr>tb_list := lst, tb_elems := tb_elems tb - 1\<rparr>, hp)
       }
     }"

text \<open>The entries that \<^verbatim>\<open>ApplyToEntriesRange\<close> calls its function on, in order.\<close>

partial_function (option) chain_entries :: "heap \<Rightarrow> addr \<Rightarrow> addr list option" where
  "chain_entries hp h =
     (if h = nullptr then Some []
      else do {
        e \<leftarrow> hp h;
        check (InCache e);
        rest \<leftarrow> chain_entries hp (h_next_hash e);
        Some (h # rest)
      })"

fun range_entries :: "heap \<Rightarrow> addr list \<Rightarrow> addr list option" where
  "range_entries hp [] = Some []"
| "range_entries hp (h # hs) =
     do { es \<leftarrow> chain_entries hp h; rest \<leftarrow> range_entries hp hs; Some (es @ rest) }"

definition ApplyToEntriesRange :: "LRUHandleTable \<Rightarrow> heap \<Rightarrow> nat \<Rightarrow> nat \<Rightarrow> addr list option" where
  "ApplyToEntriesRange tb hp index_begin index_end =
     do {
       check (index_begin < index_end \<longrightarrow> index_end \<le> length (tb_list tb));
       range_entries hp (take (index_end - index_begin) (drop index_begin (tb_list tb)))
     }"

declare FindPointer_loop.simps [code] Resize_chain.simps [code] chain_entries.simps [code]

section \<open>Chains\<close>

fun chain :: "heap \<Rightarrow> addr \<Rightarrow> addr list \<Rightarrow> bool" where
  "chain hp p [] \<longleftrightarrow> p = nullptr"
| "chain hp p (a # as) \<longleftrightarrow> p = a \<and> a \<noteq> nullptr \<and> (\<exists>h. hp a = Some h \<and> chain hp (h_next_hash h) as)"

abbreviation link :: "heap \<Rightarrow> addr \<Rightarrow> addr option" where
  "link hp a \<equiv> map_option h_next_hash (hp a)"

definition ident :: "heap \<Rightarrow> addr \<Rightarrow> bytes \<times> u32" where
  "ident hp a = (handle_key (the (hp a)), h_hash (the (hp a)))"

text \<open>Heaps that differ in the links of the hash chains only.\<close>

definition same_but_links :: "heap \<Rightarrow> heap \<Rightarrow> bool" where
  "same_but_links hp hp' \<longleftrightarrow>
     (\<forall>a. map_option (h_next_hash_update (\<lambda>_. 0)) (hp a) = map_option (h_next_hash_update (\<lambda>_. 0)) (hp' a))"

lemma same_but_links_refl [simp]: "same_but_links hp hp"
  by (simp add: same_but_links_def)

lemma same_but_links_trans: "same_but_links hp hp' \<Longrightarrow> same_but_links hp' hp'' \<Longrightarrow> same_but_links hp hp''"
  by (simp add: same_but_links_def)

lemma same_but_links_upd: "hp a = Some h \<Longrightarrow> same_but_links hp (hp(a \<mapsto> h\<lparr>h_next_hash := v\<rparr>))"
  by (simp add: same_but_links_def)

lemma same_but_links_Some:
  assumes "same_but_links hp hp'" and "hp a = Some h"
  obtains v where "hp' a = Some (h\<lparr>h_next_hash := v\<rparr>)"
proof -
  obtain h' where h': "hp' a = Some h'" and "h\<lparr>h_next_hash := 0\<rparr> = h'\<lparr>h_next_hash := 0\<rparr>"
    using assms by (cases "hp' a") (auto simp: same_but_links_def dest!: spec [of _ a])
  then have "h' = h\<lparr>h_next_hash := h_next_hash h'\<rparr>"
    by (metis LRUHandle.surjective LRUHandle.update_convs(3))
  then show ?thesis using h' that by metis
qed

lemma same_but_links_None: "same_but_links hp hp' \<Longrightarrow> hp' a = None \<longleftrightarrow> hp a = None"
  by (auto simp: same_but_links_def dest!: spec [of _ a])

lemma same_but_links_ident: "same_but_links hp hp' \<Longrightarrow> ident hp' a = ident hp a"
proof (cases "hp a")
  case None
  assume "same_but_links hp hp'"
  with None show ?thesis using same_but_links_None [of hp hp' a] by (simp add: ident_def)
next
  case (Some h)
  assume "same_but_links hp hp'"
  then obtain v where "hp' a = Some (h\<lparr>h_next_hash := v\<rparr>)" using Some by (rule same_but_links_Some)
  with Some show ?thesis by (simp add: ident_def handle_key_def)
qed

lemma chain_cong:
  "(\<And>a. a \<in> set as \<Longrightarrow> link hp a = link hp' a) \<Longrightarrow> chain hp p as \<longleftrightarrow> chain hp' p as"
proof (induction as arbitrary: p)
  case (Cons a as)
  have "link hp a = link hp' a" and "chain hp p as = chain hp' p as" for p
    using Cons by auto
  then show ?case by (cases "hp a"; cases "hp' a") auto
qed simp

lemma chain_alive: "chain hp p as \<Longrightarrow> a \<in> set as \<Longrightarrow> a \<noteq> nullptr \<and> hp a \<noteq> None"
  by (induction as arbitrary: p) auto

lemma chain_redirect:
  assumes "chain hp p (us @ vs)" and "us \<noteq> []" and "distinct us" and "hp' = hp(last us := Some (e\<lparr>h_next_hash := v\<rparr>))"
    and "chain hp' v ws"
  shows "chain hp' p (us @ ws)"
  using assms
proof (induction us arbitrary: p)
  case (Cons u us)
  show ?case
  proof (cases "us = []")
    case False
    then have "u \<noteq> last us" using Cons.prems(3) by auto
    then show ?thesis using Cons False by auto
  qed (use Cons in auto)
qed simp

text \<open>\<^verbatim>\<open>FindPointer\<close> ends on every chain, at the first entry that matches or at the end.\<close>

definition before_match :: "heap \<Rightarrow> bytes \<Rightarrow> u32 \<Rightarrow> addr list \<Rightarrow> addr list" where
  "before_match hp key hash = takeWhile (\<lambda>a. ident hp a \<noteq> (key, hash))"

definition from_match :: "heap \<Rightarrow> bytes \<Rightarrow> u32 \<Rightarrow> addr list \<Rightarrow> addr list" where
  "from_match hp key hash = dropWhile (\<lambda>a. ident hp a \<noteq> (key, hash))"

definition first_or_null :: "addr list \<Rightarrow> addr" where
  "first_or_null as = (case as of [] \<Rightarrow> nullptr | a # _ \<Rightarrow> a)"

lemma match_split: "as = before_match hp key hash as @ from_match hp key hash as"
  by (simp add: before_match_def from_match_def)

lemma FindPointer_loop_chain:
  assumes "read_slot lst hp ptr = Some p" and "chain hp p as"
  shows "FindPointer_loop lst hp key hash ptr =
      Some (if before_match hp key hash as = [] then ptr else NextHash (last (before_match hp key hash as)))
    \<and> read_slot lst hp (if before_match hp key hash as = [] then ptr else NextHash (last (before_match hp key hash as)))
      = Some (first_or_null (from_match hp key hash as))"
  using assms
proof (induction as arbitrary: p ptr)
  case Nil
  then show ?case
    by (subst FindPointer_loop.simps) (simp add: before_match_def from_match_def first_or_null_def)
next
  case (Cons a as)
  then obtain h where h: "hp a = Some h" "chain hp (h_next_hash h) as" "p = a" "a \<noteq> nullptr" by auto
  show ?case
  proof (cases "ident hp a = (key, hash)")
    case True
    then show ?thesis using h Cons.prems(1)
      by (subst FindPointer_loop.simps) (auto simp: before_match_def from_match_def first_or_null_def ident_def)
  next
    case False
    have "read_slot lst hp (NextHash a) = Some (h_next_hash h)" by (simp add: read_slot_def h)
    note IH = Cons.IH [OF this h(2)]
    have "FindPointer_loop lst hp key hash ptr = FindPointer_loop lst hp key hash (NextHash a)"
      using False h Cons.prems(1) by (subst FindPointer_loop.simps) (auto simp: ident_def)
    then show ?thesis using IH False by (auto simp: before_match_def from_match_def split: if_splits)
  qed
qed

section \<open>The table as a set of entries\<close>

definition buckets :: "nat \<Rightarrow> addr list \<Rightarrow> heap \<Rightarrow> addr list list \<Rightarrow> bool" where
  "buckets bits lst hp bs \<longleftrightarrow>
     bits \<le> 31 \<and> length lst = 2 ^ bits \<and> length bs = 2 ^ bits \<and> distinct (concat bs)
     \<and> (\<forall>i < 2 ^ bits. chain hp (lst ! i) (bs ! i) \<and> (\<forall>a \<in> set (bs ! i). bucket_of bits (snd (ident hp a)) = i))"

definition table_of :: "LRUHandleTable \<Rightarrow> heap \<Rightarrow> addr list list \<Rightarrow> bool" where
  "table_of tb hp bs \<longleftrightarrow>
     buckets (tb_length_bits tb) (tb_list tb) hp bs \<and> unat (tb_elems tb) = length (concat bs)
     \<and> inj_on (ident hp) (set (concat bs))"

definition table_holds :: "LRUHandleTable \<Rightarrow> heap \<Rightarrow> addr set \<Rightarrow> bool" where
  "table_holds tb hp A \<longleftrightarrow> (\<exists>bs. table_of tb hp bs \<and> set (concat bs) = A)"

text \<open>The entry of a set with a key and a hash, or null.\<close>

definition entry_of :: "heap \<Rightarrow> addr set \<Rightarrow> bytes \<Rightarrow> u32 \<Rightarrow> addr" where
  "entry_of hp A key hash = (if \<exists>a \<in> A. ident hp a = (key, hash) then THE a. a \<in> A \<and> ident hp a = (key, hash) else nullptr)"

lemma entry_of_eqI: "inj_on (ident hp) A \<Longrightarrow> a \<in> A \<Longrightarrow> ident hp a = (key, hash) \<Longrightarrow> entry_of hp A key hash = a"
  by (auto simp: entry_of_def inj_on_def intro!: the_equality)

lemma entry_of_none: "\<forall>a \<in> A. ident hp a \<noteq> (key, hash) \<Longrightarrow> entry_of hp A key hash = nullptr"
  by (auto simp: entry_of_def)

lemma mset_concat_update:
  "i < length bs \<Longrightarrow> mset (concat (bs[i := xs])) + mset (bs ! i) = mset xs + mset (concat bs)"
proof (induction bs arbitrary: i)
  case (Cons b bs)
  then show ?case by (cases i) (auto simp: ac_simps)
qed simp

lemma bucket_of_less:
  assumes "bits \<le> 32"
  shows "bucket_of bits hash < 2 ^ bits"
proof -
  have "unat hash < 2 ^ bits * 2 ^ (32 - bits)"
    using unsigned_less [of hash] assms by (simp flip: power_add)
  then show ?thesis
    unfolding bucket_of_def unat_drop_bit_eq by (simp add: drop_bit_eq_div less_mult_imp_div_less)
qed

lemma buckets_cong:
  assumes "buckets bits lst hp bs" and "same_but_links hp hp'"
    and "\<And>a. a \<in> set (concat bs) \<Longrightarrow> link hp' a = link hp a"
  shows "buckets bits lst hp' bs"
proof -
  have "chain hp' (lst ! i) (bs ! i)" if i: "i < 2 ^ bits" for i
  proof -
    have "chain hp (lst ! i) (bs ! i)" and "bs ! i \<in> set bs"
      using assms(1) i by (auto simp: buckets_def)
    then show ?thesis using assms(3) chain_cong [of "bs ! i" hp hp'] by fastforce
  qed
  then show ?thesis
    using assms(1) same_but_links_ident [OF assms(2)] by (simp add: buckets_def)
qed

lemma concat_disjoint:
  assumes "distinct (concat bs)" and "i < length bs" and "j < length bs" and "i \<noteq> j" and "a \<in> set (bs ! i)"
  shows "a \<notin> set (bs ! j)"
proof -
  have "mset (concat (bs[j := []])) + mset (bs ! j) = mset (concat bs)"
    using mset_concat_update [of j bs "[]"] assms by simp
  moreover have "bs ! i \<in> set (bs[j := []])"
    using assms by (metis length_list_update nth_list_update_neq nth_mem)
  then have "a \<in># mset (concat (bs[j := []]))" using assms(5) by auto
  ultimately show ?thesis
    using assms(1) by (metis distinct_append mset_append mset_eq_imp_distinct_iff mset_eq_setD
        disjoint_iff set_mset_mset)
qed

lemma write_slot_buckets:
  assumes "buckets bits lst hp bs" and i: "i < 2 ^ bits" and split: "bs ! i = us @ vs" and "chain hp v ws"
    and ws: "\<And>a. a \<in> set ws \<Longrightarrow> bucket_of bits (snd (ident hp a)) = i"
    and dist: "distinct (concat (bs[i := us @ ws]))"
  shows "\<exists>lst' hp'. write_slot lst hp (if us = [] then Bucket i else NextHash (last us)) v = Some (lst', hp')
    \<and> same_but_links hp hp' \<and> buckets bits lst' hp' (bs[i := us @ ws])"
proof (cases "us = []")
  case True
  then show ?thesis
    using assms by (auto simp: write_slot_def buckets_def nth_list_update)
next
  case False
  have len: "length bs = 2 ^ bits" and dc: "distinct (concat bs)" using assms(1) by (auto simp: buckets_def)
  have ch: "chain hp (lst ! i) (us @ vs)" using assms(1) i split by (auto simp: buckets_def)
  then obtain e where e: "hp (last us) = Some e"
    using chain_alive [OF ch, of "last us"] False by auto
  let ?hp = "hp(last us \<mapsto> e\<lparr>h_next_hash := v\<rparr>)"
  have same: "same_but_links hp ?hp" using e by (rule same_but_links_upd)
  have "us @ ws \<in> set (bs[i := us @ ws])" using i len by (simp add: set_update_memI)
  then have duw: "distinct (us @ ws)" using dist by (meson distinct_concat_iff)
  then have nw: "last us \<notin> set ws" using last_in_set [OF False] by auto
  have "chain ?hp v ws"
    using assms(4) nw chain_cong [of ws hp ?hp v] by (metis fun_upd_other)
  then have "chain ?hp (lst ! i) (us @ ws)"
    using chain_redirect [OF ch False _ refl] duw by simp
  moreover have "chain ?hp (lst ! j) (bs ! j)" if j: "j < 2 ^ bits" "j \<noteq> i" for j
  proof -
    have "last us \<notin> set (bs ! j)"
      using concat_disjoint [OF dc, of i j "last us"] i j len split False by simp
    then show ?thesis
      using assms(1) j(1) chain_cong [of "bs ! j" hp ?hp] by (metis buckets_def fun_upd_other)
  qed
  ultimately have "buckets bits lst ?hp (bs[i := us @ ws])"
    using assms(1) i split ws dist same_but_links_ident [OF same]
    by (auto simp: buckets_def nth_list_update)
  then show ?thesis
    using False e same by (auto simp: write_slot_def update_at_def)
qed

text \<open>The entry that a table holds under a key is in the bucket of its hash.\<close>

lemma entry_of_bucket:
  assumes "table_of tb hp bs"
  shows "entry_of hp (set (concat bs)) key hash =
    first_or_null (from_match hp key hash (bs ! bucket_of (tb_length_bits tb) hash))"
proof -
  let ?i = "bucket_of (tb_length_bits tb) hash"
  have b: "buckets (tb_length_bits tb) (tb_list tb) hp bs" and inj: "inj_on (ident hp) (set (concat bs))"
    using assms by (auto simp: table_of_def)
  have i: "?i < length bs" using b bucket_of_less [of "tb_length_bits tb" hash] by (simp add: buckets_def)
  show ?thesis
  proof (cases "from_match hp key hash (bs ! ?i)")
    case Nil
    then have no: "\<forall>a \<in> set (bs ! ?i). ident hp a \<noteq> (key, hash)"
      by (simp add: from_match_def dropWhile_eq_Nil_conv)
    have "ident hp a \<noteq> (key, hash)" if a: "a \<in> set (concat bs)" for a
    proof -
      obtain b where "b \<in> set bs" "a \<in> set b" using a by auto
      then obtain j where j: "j < length bs" "a \<in> set (bs ! j)" by (metis in_set_conv_nth)
      then have "bucket_of (tb_length_bits tb) (snd (ident hp a)) = j" using b by (auto simp: buckets_def)
      then show ?thesis using no j(2) by auto
    qed
    then show ?thesis using Nil by (simp add: entry_of_none first_or_null_def)
  next
    case (Cons a vs)
    then have "ident hp a = (key, hash)"
      unfolding from_match_def by (metis (mono_tags, lifting) dropWhile_eq_Cons_conv)
    moreover have "a \<in> set (bs ! ?i)"
      using Cons by (metis from_match_def list.set_intros(1) set_dropWhileD)
    then have "a \<in> set (concat bs)" using i by auto
    ultimately show ?thesis using inj Cons by (simp add: entry_of_eqI first_or_null_def)
  qed
qed

lemma FindPointer_table:
  fixes key :: bytes and hash :: u32
  assumes "table_of tb hp bs"
  defines "as \<equiv> bs ! bucket_of (tb_length_bits tb) hash"
  defines "us \<equiv> before_match hp key hash as"
  shows "FindPointer tb hp key hash =
      Some (if us = [] then Bucket (bucket_of (tb_length_bits tb) hash) else NextHash (last us))
    \<and> read_slot (tb_list tb) hp (if us = [] then Bucket (bucket_of (tb_length_bits tb) hash) else NextHash (last us))
      = Some (entry_of hp (set (concat bs)) key hash)"
proof -
  let ?i = "bucket_of (tb_length_bits tb) hash"
  have b: "buckets (tb_length_bits tb) (tb_list tb) hp bs" using assms by (auto simp: table_of_def)
  have i: "?i < 2 ^ tb_length_bits tb" using b bucket_of_less [of "tb_length_bits tb" hash] by (simp add: buckets_def)
  then have "read_slot (tb_list tb) hp (Bucket ?i) = Some (tb_list tb ! ?i)" and "chain hp (tb_list tb ! ?i) as"
    using b by (auto simp: read_slot_def buckets_def as_def)
  from FindPointer_loop_chain [OF this, of key hash] show ?thesis
    unfolding FindPointer_def us_def as_def entry_of_bucket [OF assms(1)] .
qed

lemma Table_Lookup_holds:
  assumes "table_holds tb hp A"
  shows "Table_Lookup tb hp key hash = Some (entry_of hp A key hash)"
proof -
  obtain bs where "table_of tb hp bs" "set (concat bs) = A" using assms by (auto simp: table_holds_def)
  then show ?thesis using FindPointer_table [of tb hp bs key hash] by (simp add: Table_Lookup_def)
qed

lemma table_bucket:
  fixes hash :: u32
  assumes "table_of tb hp bs"
  defines "i \<equiv> bucket_of (tb_length_bits tb) hash"
  shows "i < 2 ^ tb_length_bits tb" and "i < length bs" and "chain hp (tb_list tb ! i) (bs ! i)"
    and "\<And>a. a \<in> set (bs ! i) \<Longrightarrow> bucket_of (tb_length_bits tb) (snd (ident hp a)) = i"
  using assms bucket_of_less [of "tb_length_bits tb" hash] by (auto simp: table_of_def buckets_def)

lemma chain_append:
  "chain hp p (us @ vs) \<Longrightarrow> chain hp (if vs = [] then nullptr else hd vs) vs"
proof (induction us arbitrary: p)
  case Nil
  then show ?case by (cases vs) auto
qed auto

lemma chain_tl: "chain hp p vs \<Longrightarrow> vs \<noteq> [] \<Longrightarrow> \<exists>h. hp (hd vs) = Some h \<and> chain hp (h_next_hash h) (tl vs)"
  by (cases vs) auto

lemma from_match_props:
  "from_match hp key hash as \<noteq> [] \<Longrightarrow> hd (from_match hp key hash as) \<in> set as
     \<and> ident hp (hd (from_match hp key hash as)) = (key, hash)"
  unfolding from_match_def by (metis (mono_tags, lifting) hd_dropWhile hd_in_set set_dropWhileD)

text \<open>Removal takes out the entry with the key, if there is one, and touches nothing but links.\<close>

lemma Table_Remove_holds:
  assumes "table_holds tb hp A" and "entry_of hp A key hash = a"
  shows "\<exists>tb' hp'. Table_Remove tb hp key hash = Some (a, tb', hp') \<and> table_holds tb' hp' (A - {a})
    \<and> same_but_links hp hp'"
proof -
  obtain bs where t: "table_of tb hp bs" and A: "set (concat bs) = A" using assms by (auto simp: table_holds_def)
  let ?i = "bucket_of (tb_length_bits tb) hash"
  let ?us = "before_match hp key hash (bs ! ?i)" and ?vs = "from_match hp key hash (bs ! ?i)"
  let ?ptr = "if ?us = [] then Bucket ?i else NextHash (last ?us)"
  note i = table_bucket [OF t, where hash = hash]
  have fp: "FindPointer tb hp key hash = Some ?ptr" "read_slot (tb_list tb) hp ?ptr = Some a"
    using FindPointer_table [OF t, of key hash] A assms(2) by simp_all
  have a: "a = first_or_null ?vs" using entry_of_bucket [OF t, of key hash] A assms(2) by simp
  have split: "bs ! ?i = ?us @ ?vs" by (rule match_split)
  show ?thesis
  proof (cases "?vs = []")
    case True
    then have "a = nullptr" by (simp add: a first_or_null_def)
    moreover have "nullptr \<notin> A"
      using t A chain_alive by (fastforce simp: table_of_def buckets_def in_set_conv_nth)
    ultimately show ?thesis using fp assms(1) by (simp add: Table_Remove_def)
  next
    case False
    have ahd: "a = hd ?vs" using False by (cases ?vs) (simp_all add: a first_or_null_def)
    have "chain hp (tb_list tb ! ?i) (?us @ ?vs)" using i(3) split by simp
    from chain_append [OF this] have "chain hp (hd ?vs) ?vs" using False by simp
    from chain_tl [OF this False] obtain h where h: "hp a = Some h" "chain hp (h_next_hash h) (tl ?vs)"
      by (auto simp: ahd)
    have m: "mset (concat (bs[?i := ?us @ tl ?vs])) + {#a#} = mset (concat bs)"
    proof -
      have "mset (bs ! ?i) = mset (?us @ tl ?vs) + {#a#}"
        using arg_cong [OF split, of mset] list.collapse [OF False] unfolding ahd
        by (metis mset.simps(2) mset_append union_mset_add_mset_right add_mset_add_single)
      then show ?thesis using mset_concat_update [OF i(2), of "?us @ tl ?vs"] by (simp add: ac_simps)
    qed
    have b: "buckets (tb_length_bits tb) (tb_list tb) hp bs" using t by (simp add: table_of_def)
    then have dc: "distinct (concat bs)" by (simp add: buckets_def)
    have mm: "mset (a # concat (bs[?i := ?us @ tl ?vs])) = mset (concat bs)" using m by simp
    then have d: "distinct (a # concat (bs[?i := ?us @ tl ?vs]))" using dc mset_eq_imp_distinct_iff by blast
    have tlset: "set (tl ?vs) \<subseteq> set (bs ! ?i)" using split by (metis list.set_sel(2) Un_iff set_append subsetI tl_Nil)
    obtain lst' hp' where w: "write_slot (tb_list tb) hp ?ptr (h_next_hash h) = Some (lst', hp')"
        "same_but_links hp hp'" "buckets (tb_length_bits tb) lst' hp' (bs[?i := ?us @ tl ?vs])"
      using write_slot_buckets [OF b i(1) split h(2)] i(4) tlset d by (auto simp: subset_iff)
    have S: "set (concat (bs[?i := ?us @ tl ?vs])) = A - {a}" "a \<in> A"
      using mset_eq_setD [OF mm] d A by auto
    have L: "length (concat bs) = Suc (length (concat (bs[?i := ?us @ tl ?vs])))"
      using mset_eq_length [OF mm] by simp
    have n: "a \<noteq> nullptr" using chain_alive [OF i(3)] ahd from_match_props [OF False] by metis
    have "unat (tb_elems tb - 1) = length (concat (bs[?i := ?us @ tl ?vs]))"
    proof -
      have "unat (tb_elems tb) = Suc (length (concat (bs[?i := ?us @ tl ?vs])))" using t L by (simp add: table_of_def)
      moreover from this have "tb_elems tb \<noteq> 0" by auto
      ultimately show ?thesis by (simp add: unat_minus_one)
    qed
    then have "table_of (tb\<lparr>tb_list := lst', tb_elems := tb_elems tb - 1\<rparr>) hp' (bs[?i := ?us @ tl ?vs])"
      using w t A S(1) same_but_links_ident [OF w(2)]
      by (auto simp: table_of_def inj_on_def)
    then have "table_holds (tb\<lparr>tb_list := lst', tb_elems := tb_elems tb - 1\<rparr>) hp' (A - {a})"
      using S(1) by (auto simp: table_holds_def)
    then show ?thesis using fp n h(1) w by (simp add: Table_Remove_def)
  qed
qed

section \<open>Resizing\<close>

lemma mset_concat_Cons_update:
  "i < length bs \<Longrightarrow> mset (concat (bs[i := a # bs ! i])) = mset (a # concat bs)"
  using mset_concat_update [of i bs "a # bs ! i"] by simp

text \<open>One chain of the old table is moved to the new one.\<close>

lemma Resize_chain_moves:
  assumes "buckets bits lst hp bs" and "chain hp p as" and "distinct as" and "set as \<inter> set (concat bs) = {}"
  shows "\<exists>lst' hp' bs'. Resize_chain bits lst hp n p = Some (lst', hp', n + of_nat (length as))
    \<and> buckets bits lst' hp' bs' \<and> mset (concat bs') = mset as + mset (concat bs) \<and> same_but_links hp hp'
    \<and> (\<forall>b. b \<notin> set as \<longrightarrow> hp' b = hp b)"
  using assms
proof (induction as arbitrary: p lst hp bs n)
  case Nil
  then show ?case by (subst Resize_chain.simps) auto
next
  case (Cons a as)
  then obtain h where h: "p = a" "a \<noteq> nullptr" "hp a = Some h" "chain hp (h_next_hash h) as" by auto
  let ?i = "bucket_of bits (h_hash h)"
  have i: "?i < 2 ^ bits" "length bs = 2 ^ bits" "length lst = 2 ^ bits" "bits \<le> 31"
    using Cons.prems(1) bucket_of_less [of bits "h_hash h"] by (auto simp: buckets_def)
  let ?hp = "hp(a \<mapsto> h\<lparr>h_next_hash := lst ! ?i\<rparr>)"
  let ?lst = "lst[?i := a]" and ?bs = "bs[?i := a # bs ! ?i]"
  have same: "same_but_links hp ?hp" using h(3) by (rule same_but_links_upd)
  have new: "a \<notin> set (concat bs)" "a \<notin> set as" using Cons.prems by auto
  have m: "mset (concat ?bs) = mset (a # concat bs)" using i by (intro mset_concat_Cons_update) simp
  have b': "buckets bits lst ?hp bs"
    by (rule buckets_cong [OF Cons.prems(1) same]) (use new in auto)
  then have "chain ?hp (lst ! ?i) (bs ! ?i)" using i by (simp add: buckets_def)
  then have "chain ?hp a (a # bs ! ?i)" using h by simp
  moreover have "bucket_of bits (snd (ident ?hp a)) = ?i" by (simp add: ident_def)
  moreover have "distinct (concat ?bs)"
    using mset_eq_imp_distinct_iff [OF m] new Cons.prems(1) by (simp add: buckets_def)
  ultimately have b: "buckets bits ?lst ?hp ?bs"
    using b' i by (auto simp: buckets_def nth_list_update)
  have "chain ?hp (h_next_hash h) as" using h(4) new(2) chain_cong [of as hp ?hp] by (metis fun_upd_other)
  moreover have "set as \<inter> set (concat ?bs) = {}"
    using mset_eq_setD [OF m] Cons.prems(3,4) by auto
  moreover have da: "distinct as" using Cons.prems(3) by simp
  ultimately obtain lst' hp' bs' where r: "Resize_chain bits ?lst ?hp (n + 1) (h_next_hash h) =
      Some (lst', hp', n + 1 + of_nat (length as))" "buckets bits lst' hp' bs'"
      "mset (concat bs') = mset as + mset (concat ?bs)" "same_but_links ?hp hp'" "\<forall>b. b \<notin> set as \<longrightarrow> hp' b = ?hp b"
    using Cons.IH [OF b _ da, of "h_next_hash h" "n + 1"] by blast
  have "Resize_chain bits lst hp n p = Resize_chain bits ?lst ?hp (n + 1) (h_next_hash h)"
    using h i by (subst Resize_chain.simps) (simp add: read_slot_def write_slot_def update_at_def Let_def)
  moreover have "mset (concat bs') = mset (a # as) + mset (concat bs)" using r(3) m by simp
  ultimately show ?case
    using r same_but_links_trans [OF same r(4)] by (intro exI [of _ lst'] exI [of _ hp'] exI [of _ bs']) (simp add: ac_simps)
qed

lemma Resize_loop_moves:
  assumes "buckets bits lst hp bs" and "list_all2 (chain hp) ps ass" and "distinct (concat ass)"
    and "set (concat ass) \<inter> set (concat bs) = {}"
  shows "\<exists>lst' hp' bs'. Resize_loop bits ps lst hp n = Some (lst', hp', n + of_nat (length (concat ass)))
    \<and> buckets bits lst' hp' bs' \<and> mset (concat bs') = mset (concat ass) + mset (concat bs) \<and> same_but_links hp hp'"
  using assms
proof (induction ps arbitrary: ass lst hp bs n)
  case Nil
  then show ?case by auto
next
  case (Cons p ps)
  then obtain as ass' where as: "ass = as # ass'" "chain hp p as" "list_all2 (chain hp) ps ass'"
    by (auto simp: list_all2_Cons1)
  have d: "distinct as" "set as \<inter> set (concat ass') = {}" "distinct (concat ass')"
      "set as \<inter> set (concat bs) = {}" "set (concat ass') \<inter> set (concat bs) = {}"
    using Cons.prems(3,4) as(1) by auto
  obtain lst1 hp1 bs1 where r: "Resize_chain bits lst hp n p = Some (lst1, hp1, n + of_nat (length as))"
      "buckets bits lst1 hp1 bs1" "mset (concat bs1) = mset as + mset (concat bs)" "same_but_links hp hp1"
      "\<forall>b. b \<notin> set as \<longrightarrow> hp1 b = hp b"
    using Resize_chain_moves [OF Cons.prems(1) as(2) d(1) d(4), of n] by blast
  have "chain hp1 (ps ! k) (ass' ! k)" if k: "k < length ps" for k
  proof -
    have "ass' ! k \<in> set ass'" "chain hp (ps ! k) (ass' ! k)"
      using as(3) k by (auto simp: list_all2_conv_all_nth)
    then have "set (ass' ! k) \<inter> set as = {}" using d(2) by auto
    then show ?thesis
      using \<open>chain hp (ps ! k) (ass' ! k)\<close> r(5) chain_cong [of "ass' ! k" hp hp1] by (metis disjoint_iff)
  qed
  then have "list_all2 (chain hp1) ps ass'" using as(3) by (simp add: list_all2_conv_all_nth)
  moreover have "set (concat ass') \<inter> set (concat bs1) = {}"
    using mset_eq_setD [of "concat bs1" "as @ concat bs"] r(3) d by auto
  ultimately obtain lst' hp' bs' where q: "Resize_loop bits ps lst1 hp1 (n + of_nat (length as))
        = Some (lst', hp', n + of_nat (length as) + of_nat (length (concat ass')))" "buckets bits lst' hp' bs'"
      "mset (concat bs') = mset (concat ass') + mset (concat bs1)" "same_but_links hp1 hp'"
    using Cons.IH [OF r(2), of ass'] d(3) by blast
  show ?case
    using r q same_but_links_trans [OF r(4) q(4)] as(1)
    by (intro exI [of _ lst'] exI [of _ hp'] exI [of _ bs']) (simp add: ac_simps)
qed

lemma buckets_empty: "bits \<le> 31 \<Longrightarrow> buckets bits (replicate (2 ^ bits) nullptr) hp (replicate (2 ^ bits) [])"
  by (simp add: buckets_def)

lemma Resize_holds:
  assumes "table_holds tb hp A"
  shows "\<exists>tb' hp'. Resize tb hp = Some (tb', hp') \<and> table_holds tb' hp' A \<and> same_but_links hp hp'
    \<and> tb_length_bits tb \<le> tb_length_bits tb'"
proof (cases "tb_max_length_bits tb \<le> tb_length_bits tb \<or> 31 \<le> tb_length_bits tb")
  case True
  then show ?thesis using assms by (auto simp: Resize_def)
next
  case False
  obtain bs where t: "table_of tb hp bs" and A: "set (concat bs) = A" using assms by (auto simp: table_holds_def)
  let ?n = "tb_length_bits tb + 1"
  have e: "buckets ?n (replicate (2 ^ ?n) nullptr) hp (replicate (2 ^ ?n) [])"
    by (rule buckets_empty) (use False in simp)
  have l: "list_all2 (chain hp) (take (2 ^ tb_length_bits tb) (tb_list tb)) bs"
    and d: "distinct (concat bs)" "unat (tb_elems tb) = length (concat bs)" and inj: "inj_on (ident hp) A"
    using t A by (auto simp: table_of_def buckets_def list_all2_conv_all_nth)
  have "tb_elems tb = of_nat (length (concat bs))" using d(2) by (metis of_nat_unat ucast_id)
  moreover obtain lst' hp' bs' where r: "Resize_loop ?n (take (2 ^ tb_length_bits tb) (tb_list tb))
      (replicate (2 ^ ?n) nullptr) hp 0 = Some (lst', hp', 0 + of_nat (length (concat bs)))" "buckets ?n lst' hp' bs'"
      "mset (concat bs') = mset (concat bs) + mset (concat (replicate (2 ^ ?n) []))" "same_but_links hp hp'"
    using Resize_loop_moves [OF e l d(1)] by (metis concat_replicate_trivial inf_bot_right list.set(1))
  ultimately have "Resize tb hp = Some (tb\<lparr>tb_list := lst', tb_length_bits := ?n\<rparr>, hp')"
    using False by (simp add: Resize_def check_def)
  moreover have m: "mset (concat bs') = mset (concat bs)" using r(3) by simp
  then have "table_of (tb\<lparr>tb_list := lst', tb_length_bits := ?n\<rparr>) hp' bs'"
    using r(2) d(2) mset_eq_length [OF m] mset_eq_setD [OF m] inj A same_but_links_ident [OF r(4)]
    by (auto simp: table_of_def inj_on_def)
  ultimately show ?thesis
    using r(4) mset_eq_setD [OF m] A by (auto simp: table_holds_def)
qed

lemma insert_swap: "insert b X = insert a A \<Longrightarrow> b \<notin> X \<Longrightarrow> b \<noteq> a \<Longrightarrow> X = insert a (A - {b})"
  by (metis Diff_insert_absorb insert_Diff_if singletonD)

text \<open>
  Insertion replaces the entry with the same key, which it returns, or adds the entry, resizing the
  table when its load reaches one.
\<close>

lemma Table_Insert_holds:
  assumes "table_holds tb hp A" and h: "hp h = Some e" "h \<notin> A" "h \<noteq> nullptr" and "card A < 2 ^ 32 - 1"
    and old: "entry_of hp A (handle_key e) (h_hash e) = old"
  shows "\<exists>tb' hp'. Table_Insert tb hp h = Some (old, tb', hp') \<and> table_holds tb' hp' (insert h (A - {old}))
    \<and> same_but_links hp hp'"
proof -
  obtain bs where t: "table_of tb hp bs" and A: "set (concat bs) = A" using assms by (auto simp: table_holds_def)
  let ?key = "handle_key e" and ?hash = "h_hash e"
  let ?i = "bucket_of (tb_length_bits tb) ?hash"
  let ?us = "before_match hp ?key ?hash (bs ! ?i)" and ?vs = "from_match hp ?key ?hash (bs ! ?i)"
  let ?ptr = "if ?us = [] then Bucket ?i else NextHash (last ?us)"
  note i = table_bucket [OF t, where hash = ?hash]
  have b: "buckets (tb_length_bits tb) (tb_list tb) hp bs" and el: "unat (tb_elems tb) = length (concat bs)"
    and inj: "inj_on (ident hp) A" and dc: "distinct (concat bs)"
    using t A by (auto simp: table_of_def buckets_def)
  have fp: "FindPointer tb hp ?key ?hash = Some ?ptr" "read_slot (tb_list tb) hp ?ptr = Some old"
    using FindPointer_table [OF t, of ?key ?hash] A old by simp_all
  have a: "old = first_or_null ?vs" using entry_of_bucket [OF t, of ?key ?hash] A old by simp
  have split: "bs ! ?i = ?us @ ?vs" by (rule match_split)
  have "chain hp (tb_list tb ! ?i) (?us @ ?vs)" using i(3) split by simp
  note cv = chain_append [OF this]
  have nz: "old = nullptr \<longleftrightarrow> ?vs = []"
    using chain_alive [OF i(3)] from_match_props [of hp ?key ?hash "bs ! ?i"]
    by (cases ?vs) (auto simp: a first_or_null_def)
  obtain nx where nx: "(if old = nullptr then Some nullptr else link hp old) = Some nx" "chain hp nx (tl ?vs)"
    using cv chain_tl [of hp "hd ?vs" ?vs] nz by (cases ?vs) (auto simp: a first_or_null_def)
  let ?hp = "hp(h \<mapsto> e\<lparr>h_next_hash := nx\<rparr>)"
  have same: "same_but_links hp ?hp" using h(1) by (rule same_but_links_upd)
  note id = same_but_links_ident [OF same]
  have b': "buckets (tb_length_bits tb) (tb_list tb) ?hp bs"
    by (rule buckets_cong [OF b same]) (use h(2) A in auto)
  have tlset: "set (tl ?vs) \<subseteq> set (bs ! ?i)" using split by (metis list.set_sel(2) Un_iff set_append subsetI tl_Nil)
  then have "h \<notin> set (tl ?vs)" using h(2) A i(2) by fastforce
  then have "chain ?hp nx (tl ?vs)" using nx(2) chain_cong [of "tl ?vs" hp ?hp] by (metis fun_upd_other)
  then have ch: "chain ?hp h (h # tl ?vs)" using h(3) by simp
  have m: "mset (concat (bs[?i := ?us @ h # tl ?vs])) + mset (take 1 ?vs) = mset (h # concat bs)"
  proof -
    have "mset (bs ! ?i) = mset (?us @ tl ?vs) + mset (take 1 ?vs)"
      using arg_cong [OF split, of mset] by (cases ?vs) auto
    then show ?thesis using mset_concat_update [OF i(2), of "?us @ h # tl ?vs"] by (simp add: ac_simps)
  qed
  let ?bs = "bs[?i := ?us @ h # tl ?vs]"
  have mm: "mset (concat ?bs @ take 1 ?vs) = mset (h # concat bs)" using m by simp
  have dd: "distinct (concat ?bs @ take 1 ?vs)" 
  proof -
    have "distinct (h # concat bs)" using dc h(2) A by auto
    then show ?thesis using mset_eq_imp_distinct_iff [OF mm] by blast
  qed
  then have dbs: "distinct (concat ?bs)" by simp
  have bk: "bucket_of (tb_length_bits tb) (snd (ident ?hp a)) = ?i" if "a \<in> set (h # tl ?vs)" for a
    using that i(4) tlset id h(1) by (cases "a = h") (auto simp: ident_def)
  obtain lst' hp' where w: "write_slot (tb_list tb) ?hp ?ptr h = Some (lst', hp')"
      "same_but_links ?hp hp'" "buckets (tb_length_bits tb) lst' hp' ?bs"
    using write_slot_buckets [OF b' i(1) split ch bk dbs] by blast
  note same' = same_but_links_trans [OF same w(2)]
  have tv: "set (take 1 ?vs) = (if ?vs = [] then {} else {old})" "nullptr \<notin> A"
    using chain_alive b A by (cases ?vs; fastforce simp: a first_or_null_def buckets_def in_set_conv_nth)+
  have S: "set (concat ?bs) = insert h (A - {old})"
  proof -
    have un: "set (concat ?bs) \<union> set (take 1 ?vs) = insert h A" "set (concat ?bs) \<inter> set (take 1 ?vs) = {}"
      using mset_eq_setD [OF mm] dd A by simp_all
    show ?thesis
    proof (cases "?vs = []")
      case True
      with nz un tv h(3) show ?thesis by (simp del: set_concat)
    next
      case False
      then have "old \<noteq> h" using from_match_props [OF False] h(2) A i(2) by (cases ?vs) (auto simp: a first_or_null_def)
      with False un tv(1) show ?thesis by (intro insert_swap) (simp_all del: set_concat)
    qed
  qed
  have inj': "inj_on (ident hp') (insert h (A - {old}))"
    using inj entry_of_eqI [OF inj, of _ ?key ?hash] old h(1,2) same_but_links_ident [OF same']
    by (auto simp: inj_on_def ident_def)
  have L: "length (concat ?bs) + length (take 1 ?vs) = Suc (length (concat bs))"
    using mset_eq_length [OF mm] by simp
  have run: "Table_Insert tb hp h =
      (if old = nullptr then
         let tb = tb\<lparr>tb_list := lst', tb_elems := tb_elems tb + 1\<rparr>
         in if drop_bit (tb_length_bits tb) (tb_elems tb) > 0
            then Option.bind (Resize tb hp') (\<lambda>(tb, hp). Some (old, tb, hp)) else Some (old, tb, hp')
       else Some (old, tb\<lparr>tb_list := lst'\<rparr>, hp'))"
    by (simp only: Table_Insert_def h(1) fp nx(1) w(1) update_at_def option.case Option.bind.simps
        prod.case Let_def) simp
  show ?thesis
  proof (cases "old = nullptr")
    case False
    then have "table_of (tb\<lparr>tb_list := lst'\<rparr>) hp' ?bs"
      using w(3) el L S inj' nz by (cases ?vs) (auto simp: table_of_def)
    then have "table_holds (tb\<lparr>tb_list := lst'\<rparr>) hp' (insert h (A - {old}))" using S by (auto simp: table_holds_def)
    then show ?thesis
      using False same' by (simp add: run)
  next
    case True
    let ?tb = "tb\<lparr>tb_list := lst', tb_elems := tb_elems tb + 1\<rparr>"
    have "length (concat bs) = card A" using dc A distinct_card by metis
    then have "unat (tb_elems tb + 1) = length (concat ?bs)"
      using el L nz True assms(5) by (simp add: unat_word_ariths)
    then have "table_of ?tb hp' ?bs" using w(3) S inj' by (simp add: table_of_def)
    then have holds: "table_holds ?tb hp' (insert h (A - {old}))" using S by (auto simp: table_holds_def)
    then obtain tb' hp2 where "Resize ?tb hp' = Some (tb', hp2)" "table_holds tb' hp2 (insert h (A - {old}))"
        "same_but_links hp hp2"
      using Resize_holds [OF holds] same_but_links_trans [OF same'] by blast
    then show ?thesis
      using True same' holds by (auto simp: run Let_def)
  qed
qed

end
