(* ===== verification/Xiao_Double.thy ===== *)
theory Xiao_Double
  imports Xiao_Prelude
begin

text \<open>
  The IEEE 754 double precision arithmetic that the cache code uses: conversion of a \<^verbatim>\<open>size_t\<close>,
  multiplication and comparison, with rounding to nearest, ties to even. A finite double is an
  integer times a power of two; the sign of zero is not kept, as no comparison sees it.
\<close>

datatype double = Finite int int | Infinity bool | NaN

fun bit_length :: "nat \<Rightarrow> nat" where
  "bit_length n = (if n = 0 then 0 else Suc (bit_length (n div 2)))"

declare bit_length.simps [simp del]

definition round_even :: "int \<Rightarrow> nat \<Rightarrow> int" where
  "round_even m k =
     (let q = m div 2 ^ k; r = m mod 2 ^ k
      in if 2 * r < 2 ^ k \<or> (2 * r = 2 ^ k \<and> even q) then q else q + 1)"

definition round_double :: "int \<Rightarrow> int \<Rightarrow> double" where
  "round_double m e =
     (let k = nat (max (int (bit_length (nat \<bar>m\<bar>)) - 53) (- 1074 - e));
          m' = round_even m k; e' = e + int k
      in if 1024 < e' + int (bit_length (nat \<bar>m'\<bar>)) then Infinity (m < 0) else Finite m' e')"

definition double_of_u64 :: "u64 \<Rightarrow> double" where
  "double_of_u64 w = round_double (uint w) 0"

fun double_mult :: "double \<Rightarrow> double \<Rightarrow> double" where
  "double_mult (Finite m e) (Finite n f) = round_double (m * n) (e + f)"
| "double_mult (Finite m e) (Infinity s) = (if m = 0 then NaN else Infinity (s \<noteq> (m < 0)))"
| "double_mult (Infinity s) (Finite m e) = (if m = 0 then NaN else Infinity (s \<noteq> (m < 0)))"
| "double_mult (Infinity s) (Infinity t) = Infinity (s \<noteq> t)"
| "double_mult NaN _ = NaN"
| "double_mult _ NaN = NaN"

fun double_less :: "double \<Rightarrow> double \<Rightarrow> bool" where
  "double_less (Finite m e) (Finite n f) \<longleftrightarrow> m * 2 ^ nat (e - f) < n * 2 ^ nat (f - e)"
| "double_less (Finite m e) (Infinity s) \<longleftrightarrow> \<not> s"
| "double_less (Infinity s) (Finite m e) \<longleftrightarrow> s"
| "double_less (Infinity s) (Infinity t) \<longleftrightarrow> s \<and> \<not> t"
| "double_less _ _ \<longleftrightarrow> False"

abbreviation double_zero :: double where "double_zero \<equiv> Finite 0 0"

definition not_negative :: "double \<Rightarrow> bool" where
  "not_negative d \<longleftrightarrow> \<not> double_less d double_zero"

lemma round_even_nonneg: "0 \<le> m \<Longrightarrow> 0 \<le> round_even m k"
  by (simp add: round_even_def Let_def pos_imp_zdiv_nonneg_iff)

lemma not_negative_simps [simp]:
  "not_negative (Finite m e) \<longleftrightarrow> 0 \<le> m"
  "not_negative (Infinity s) \<longleftrightarrow> \<not> s"
  "not_negative NaN"
  by (auto simp: not_negative_def not_less mult_less_0_iff zero_le_mult_iff)

lemma not_negative_round: "0 \<le> m \<Longrightarrow> not_negative (round_double m e)"
  by (simp add: round_double_def Let_def round_even_nonneg)

lemma not_negative_of_u64 [simp]: "not_negative (double_of_u64 w)"
  by (simp add: double_of_u64_def not_negative_round)

lemma not_negative_mult: "not_negative a \<Longrightarrow> not_negative b \<Longrightarrow> not_negative (double_mult a b)"
  by (cases a; cases b) (auto simp: not_negative_round)

lemma double_of_u64_0 [simp]: "double_of_u64 0 = double_zero"
  by (simp add: double_of_u64_def round_double_def round_even_def bit_length.simps)

lemma not_less_not_negative: "not_negative d \<Longrightarrow> \<not> double_less d double_zero"
  by (simp add: not_negative_def)

end
