(* ===== verification/Lru_Cache.thy ===== *)
theory Lru_Cache
  imports Lru_Handle_Table Xiao_Double
begin

text \<open>
  \<^verbatim>\<open>cache/lru_cache.h\<close> and \<^verbatim>\<open>cache/lru_cache.cc\<close>, second part: one shard of the LRU cache. The shard
  owns the entries of its heap. The circular LRU list runs through the \<^verbatim>\<open>next\<close> and \<^verbatim>\<open>prev\<close> fields of the
  entries and of the dummy head \<^verbatim>\<open>lru_\<close>, which is at a fixed address of the heap. The address that
  \<^verbatim>\<open>malloc\<close> returns is an argument of the operations that allocate; the calls of deleters and of the
  eviction callback are recorded in order. As in the handle table, \<^term>\<open>None\<close> stands for a failed
  assertion, for the access to a null or freed entry and for a loop that does not end.
\<close>

section \<open>State\<close>

text \<open>The address of the dummy head \<^verbatim>\<open>lru_\<close> of the LRU list.\<close>

definition lru_head :: addr where "lru_head = 1"

lemma lru_head_not_null [simp]: "lru_head \<noteq> nullptr" "nullptr \<noteq> lru_head" "0 < lru_head"
  by (simp_all add: lru_head_def)

datatype CacheCall = DelCb ObjectPtr | EvictionCb bytes ObjectPtr bool

record LRUCacheShard =
  sh_metadata_charge_policy :: CacheMetadataChargePolicy
  sh_capacity :: u64
  sh_high_pri_pool_usage :: u64
  sh_low_pri_pool_usage :: u64
  sh_strict_capacity_limit :: bool
  sh_high_pri_pool_ratio :: double
  sh_high_pri_pool_capacity :: double
  sh_low_pri_pool_ratio :: double
  sh_low_pri_pool_capacity :: double
  sh_lru_low_pri :: addr
  sh_lru_bottom_pri :: addr
  sh_table :: LRUHandleTable
  sh_usage :: u64
  sh_lru_usage :: u64
  sh_eviction_callback :: "(bytes \<Rightarrow> ObjectPtr \<Rightarrow> bool \<Rightarrow> bool) option"
  sh_heap :: heap
  sh_calls :: "CacheCall list"

definition at :: "LRUCacheShard \<Rightarrow> addr \<Rightarrow> (LRUHandle \<Rightarrow> LRUHandle) \<Rightarrow> LRUCacheShard option" where
  "at sh a f = map_option (\<lambda>hp. sh\<lparr>sh_heap := hp\<rparr>) (update_at (sh_heap sh) a f)"

definition free_handle :: "LRUCacheShard \<Rightarrow> addr \<Rightarrow> LRUCacheShard option" where
  "free_handle sh a =
     (case sh_heap sh a of None \<Rightarrow> None | Some _ \<Rightarrow> Some (sh\<lparr>sh_heap := (sh_heap sh)(a := None)\<rparr>))"

definition handle_Free :: "LRUCacheShard \<Rightarrow> addr \<Rightarrow> LRUCacheShard option" where
  "handle_Free sh a =
     do {
       h \<leftarrow> sh_heap sh a;
       check (h_refs h = 0);
       let sh = (if ch_del_cb (h_helper h) then sh\<lparr>sh_calls := sh_calls sh @ [DelCb (h_value h)]\<rparr> else sh);
       free_handle sh a
     }"

section \<open>The LRU list\<close>

definition LRU_Remove :: "LRUCacheShard \<Rightarrow> addr \<Rightarrow> LRUCacheShard option" where
  "LRU_Remove sh e =
     do {
       h \<leftarrow> sh_heap sh e;
       check (h_next h \<noteq> nullptr);
       check (h_prev h \<noteq> nullptr);
       let sh = (if sh_lru_low_pri sh = e then sh\<lparr>sh_lru_low_pri := h_prev h\<rparr> else sh);
       let sh = (if sh_lru_bottom_pri sh = e then sh\<lparr>sh_lru_bottom_pri := h_prev h\<rparr> else sh);
       sh \<leftarrow> at sh (h_next h) (h_prev_update (\<lambda>_. h_prev h));
       h \<leftarrow> sh_heap sh e;
       sh \<leftarrow> at sh (h_prev h) (h_next_update (\<lambda>_. h_next h));
       sh \<leftarrow> at sh e (\<lambda>h. h\<lparr>h_prev := nullptr, h_next := nullptr\<rparr>);
       check (h_total_charge h \<le> sh_lru_usage sh);
       let sh = sh\<lparr>sh_lru_usage := sh_lru_usage sh - h_total_charge h\<rparr>;
       check (\<not> InHighPriPool h \<or> \<not> InLowPriPool h);
       if InHighPriPool h then do {
         check (h_total_charge h \<le> sh_high_pri_pool_usage sh);
         Some (sh\<lparr>sh_high_pri_pool_usage := sh_high_pri_pool_usage sh - h_total_charge h\<rparr>)
       } else if InLowPriPool h then do {
         check (h_total_charge h \<le> sh_low_pri_pool_usage sh);
         Some (sh\<lparr>sh_low_pri_pool_usage := sh_low_pri_pool_usage sh - h_total_charge h\<rparr>)
       } else Some sh
     }"

partial_function (option) MaintainPoolSize_high :: "LRUCacheShard \<Rightarrow> LRUCacheShard option" where
  "MaintainPoolSize_high sh =
     (if double_less (sh_high_pri_pool_capacity sh) (double_of_u64 (sh_high_pri_pool_usage sh)) then do {
        h \<leftarrow> sh_heap sh (sh_lru_low_pri sh);
        let sh = sh\<lparr>sh_lru_low_pri := h_next h\<rparr>;
        check (sh_lru_low_pri sh \<noteq> lru_head);
        h \<leftarrow> sh_heap sh (sh_lru_low_pri sh);
        check (InHighPriPool h);
        sh \<leftarrow> at sh (sh_lru_low_pri sh) (\<lambda>h. SetInLowPriPool True (SetInHighPriPool False h));
        check (h_total_charge h \<le> sh_high_pri_pool_usage sh);
        MaintainPoolSize_high
          (sh\<lparr>sh_high_pri_pool_usage := sh_high_pri_pool_usage sh - h_total_charge h,
              sh_low_pri_pool_usage := sh_low_pri_pool_usage sh + h_total_charge h\<rparr>)
      } else Some sh)"

partial_function (option) MaintainPoolSize_low :: "LRUCacheShard \<Rightarrow> LRUCacheShard option" where
  "MaintainPoolSize_low sh =
     (if double_less (sh_low_pri_pool_capacity sh) (double_of_u64 (sh_low_pri_pool_usage sh)) then do {
        h \<leftarrow> sh_heap sh (sh_lru_bottom_pri sh);
        let sh = sh\<lparr>sh_lru_bottom_pri := h_next h\<rparr>;
        check (sh_lru_bottom_pri sh \<noteq> lru_head);
        h \<leftarrow> sh_heap sh (sh_lru_bottom_pri sh);
        check (InLowPriPool h);
        sh \<leftarrow> at sh (sh_lru_bottom_pri sh) (\<lambda>h. SetInLowPriPool False (SetInHighPriPool False h));
        check (h_total_charge h \<le> sh_low_pri_pool_usage sh);
        MaintainPoolSize_low (sh\<lparr>sh_low_pri_pool_usage := sh_low_pri_pool_usage sh - h_total_charge h\<rparr>)
      } else Some sh)"

definition MaintainPoolSize :: "LRUCacheShard \<Rightarrow> LRUCacheShard option" where
  "MaintainPoolSize sh = do { sh \<leftarrow> MaintainPoolSize_high sh; MaintainPoolSize_low sh }"

definition LRU_Insert :: "LRUCacheShard \<Rightarrow> addr \<Rightarrow> LRUCacheShard option" where
  "LRU_Insert sh e =
     do {
       h \<leftarrow> sh_heap sh e;
       check (h_next h = nullptr);
       check (h_prev h = nullptr);
       sh \<leftarrow>
         (if double_less double_zero (sh_high_pri_pool_ratio sh) \<and> (IsHighPri h \<or> HasHit h) then do {
            lru \<leftarrow> sh_heap sh lru_head;
            sh \<leftarrow> at sh e (\<lambda>h. h\<lparr>h_next := lru_head, h_prev := h_prev lru\<rparr>);
            sh \<leftarrow> at sh (h_prev lru) (h_next_update (\<lambda>_. e));
            sh \<leftarrow> at sh lru_head (h_prev_update (\<lambda>_. e));
            sh \<leftarrow> at sh e (\<lambda>h. SetInLowPriPool False (SetInHighPriPool True h));
            MaintainPoolSize (sh\<lparr>sh_high_pri_pool_usage := sh_high_pri_pool_usage sh + h_total_charge h\<rparr>)
          } else if double_less double_zero (sh_low_pri_pool_ratio sh) \<and> (IsHighPri h \<or> IsLowPri h \<or> HasHit h) then do {
            p \<leftarrow> sh_heap sh (sh_lru_low_pri sh);
            sh \<leftarrow> at sh e (\<lambda>h. h\<lparr>h_next := h_next p, h_prev := sh_lru_low_pri sh\<rparr>);
            sh \<leftarrow> at sh (sh_lru_low_pri sh) (h_next_update (\<lambda>_. e));
            sh \<leftarrow> at sh (h_next p) (h_prev_update (\<lambda>_. e));
            sh \<leftarrow> at sh e (\<lambda>h. SetInLowPriPool True (SetInHighPriPool False h));
            MaintainPoolSize (sh\<lparr>sh_low_pri_pool_usage := sh_low_pri_pool_usage sh + h_total_charge h,
                                 sh_lru_low_pri := e\<rparr>)
          } else do {
            p \<leftarrow> sh_heap sh (sh_lru_bottom_pri sh);
            sh \<leftarrow> at sh e (\<lambda>h. h\<lparr>h_next := h_next p, h_prev := sh_lru_bottom_pri sh\<rparr>);
            sh \<leftarrow> at sh (sh_lru_bottom_pri sh) (h_next_update (\<lambda>_. e));
            sh \<leftarrow> at sh (h_next p) (h_prev_update (\<lambda>_. e));
            sh \<leftarrow> at sh e (\<lambda>h. SetInLowPriPool False (SetInHighPriPool False h));
            let sh = (if sh_lru_bottom_pri sh = sh_lru_low_pri sh then sh\<lparr>sh_lru_low_pri := e\<rparr> else sh);
            Some (sh\<lparr>sh_lru_bottom_pri := e\<rparr>)
          });
       Some (sh\<lparr>sh_lru_usage := sh_lru_usage sh + h_total_charge h\<rparr>)
     }"

section \<open>Eviction\<close>

text \<open>
  The oldest entry leaves the list, the table and the usage; it is returned and stays allocated until
  the lock is released. The same lines are in \<^verbatim>\<open>EvictFromLRU\<close> and \<^verbatim>\<open>EraseUnRefEntries\<close>.
\<close>

definition evict_oldest :: "LRUCacheShard \<Rightarrow> addr \<Rightarrow> LRUCacheShard option" where
  "evict_oldest sh old =
     do {
       h \<leftarrow> sh_heap sh old;
       check (InCache h \<and> \<not> HasRefs h);
       sh \<leftarrow> LRU_Remove sh old;
       (_, tb, hp) \<leftarrow> Table_Remove (sh_table sh) (sh_heap sh) (handle_key h) (h_hash h);
       sh \<leftarrow> at (sh\<lparr>sh_table := tb, sh_heap := hp\<rparr>) old (SetInCache False);
       check (h_total_charge h \<le> sh_usage sh);
       Some (sh\<lparr>sh_usage := sh_usage sh - h_total_charge h\<rparr>)
     }"

partial_function (option) EvictFromLRU ::
  "LRUCacheShard \<Rightarrow> u64 \<Rightarrow> addr list \<Rightarrow> (LRUCacheShard \<times> addr list) option" where
  "EvictFromLRU sh charge deleted =
     do {
       lru \<leftarrow> sh_heap sh lru_head;
       if sh_capacity sh < sh_usage sh + charge \<and> h_next lru \<noteq> lru_head then do {
         sh \<leftarrow> evict_oldest sh (h_next lru);
         EvictFromLRU sh charge (deleted @ [h_next lru])
       } else Some (sh, deleted)
     }"

fun NotifyEvicted :: "LRUCacheShard \<Rightarrow> addr list \<Rightarrow> LRUCacheShard option" where
  "NotifyEvicted sh [] = Some sh"
| "NotifyEvicted sh (entry # evicted_handles) =
     do {
       h \<leftarrow> sh_heap sh entry;
       sh \<leftarrow>
         (case sh_eviction_callback sh of
            None \<Rightarrow> handle_Free sh entry
          | Some cb \<Rightarrow>
              let sh = sh\<lparr>sh_calls := sh_calls sh @ [EvictionCb (handle_key h) (h_value h) (HasHit h)]\<rparr>
              in if cb (handle_key h) (h_value h) (HasHit h) then free_handle sh entry
                 else handle_Free sh entry);
       NotifyEvicted sh evicted_handles
     }"

partial_function (option) EraseUnRefEntries_loop ::
  "LRUCacheShard \<Rightarrow> addr list \<Rightarrow> (LRUCacheShard \<times> addr list) option" where
  "EraseUnRefEntries_loop sh last_reference_list =
     do {
       lru \<leftarrow> sh_heap sh lru_head;
       if h_next lru \<noteq> lru_head then do {
         sh \<leftarrow> evict_oldest sh (h_next lru);
         EraseUnRefEntries_loop sh (last_reference_list @ [h_next lru])
       } else Some (sh, last_reference_list)
     }"

fun free_all :: "LRUCacheShard \<Rightarrow> addr list \<Rightarrow> LRUCacheShard option" where
  "free_all sh [] = Some sh"
| "free_all sh (entry # entries) = do { sh \<leftarrow> handle_Free sh entry; free_all sh entries }"

definition EraseUnRefEntries :: "LRUCacheShard \<Rightarrow> LRUCacheShard option" where
  "EraseUnRefEntries sh =
     do {
       (sh, last_reference_list) \<leftarrow> EraseUnRefEntries_loop sh [];
       free_all sh last_reference_list
     }"

section \<open>Operations\<close>

definition Shard_SetCapacity :: "LRUCacheShard \<Rightarrow> u64 \<Rightarrow> LRUCacheShard option" where
  "Shard_SetCapacity sh capacity =
     do {
       let sh = sh\<lparr>sh_capacity := capacity,
                   sh_high_pri_pool_capacity := double_mult (double_of_u64 capacity) (sh_high_pri_pool_ratio sh),
                   sh_low_pri_pool_capacity := double_mult (double_of_u64 capacity) (sh_low_pri_pool_ratio sh)\<rparr>;
       (sh, last_reference_list) \<leftarrow> EvictFromLRU sh 0 [];
       NotifyEvicted sh last_reference_list
     }"

text \<open>Only the two links of the dummy head are ever used; its other fields are not initialized.\<close>

definition LRUCacheShard_new ::
  "u64 \<Rightarrow> bool \<Rightarrow> double \<Rightarrow> double \<Rightarrow> CacheMetadataChargePolicy \<Rightarrow> nat
    \<Rightarrow> (bytes \<Rightarrow> ObjectPtr \<Rightarrow> bool \<Rightarrow> bool) option \<Rightarrow> LRUHandle \<Rightarrow> LRUCacheShard option" where
  "LRUCacheShard_new capacity strict_capacity_limit high_pri_pool_ratio low_pri_pool_ratio
       metadata_charge_policy max_upper_hash_bits eviction_callback lru =
     Shard_SetCapacity
       \<lparr>sh_metadata_charge_policy = metadata_charge_policy,
        sh_capacity = 0,
        sh_high_pri_pool_usage = 0,
        sh_low_pri_pool_usage = 0,
        sh_strict_capacity_limit = strict_capacity_limit,
        sh_high_pri_pool_ratio = high_pri_pool_ratio,
        sh_high_pri_pool_capacity = double_zero,
        sh_low_pri_pool_ratio = low_pri_pool_ratio,
        sh_low_pri_pool_capacity = double_zero,
        sh_lru_low_pri = lru_head,
        sh_lru_bottom_pri = lru_head,
        sh_table = LRUHandleTable_new max_upper_hash_bits,
        sh_usage = 0,
        sh_lru_usage = 0,
        sh_eviction_callback = eviction_callback,
        sh_heap = [lru_head \<mapsto> lru\<lparr>h_next := lru_head, h_prev := lru_head\<rparr>],
        sh_calls = []\<rparr> capacity"

definition SetStrictCapacityLimit :: "LRUCacheShard \<Rightarrow> bool \<Rightarrow> LRUCacheShard" where
  "SetStrictCapacityLimit sh b = sh\<lparr>sh_strict_capacity_limit := b\<rparr>"

definition SetHighPriorityPoolRatio :: "LRUCacheShard \<Rightarrow> double \<Rightarrow> LRUCacheShard option" where
  "SetHighPriorityPoolRatio sh ratio =
     MaintainPoolSize (sh\<lparr>sh_high_pri_pool_ratio := ratio,
        sh_high_pri_pool_capacity := double_mult (double_of_u64 (sh_capacity sh)) ratio\<rparr>)"

definition SetLowPriorityPoolRatio :: "LRUCacheShard \<Rightarrow> double \<Rightarrow> LRUCacheShard option" where
  "SetLowPriorityPoolRatio sh ratio =
     MaintainPoolSize (sh\<lparr>sh_low_pri_pool_ratio := ratio,
        sh_low_pri_pool_capacity := double_mult (double_of_u64 (sh_capacity sh)) ratio\<rparr>)"

text \<open>What becomes of the entry that an insertion replaced in the table.\<close>

definition overwrite_old :: "LRUCacheShard \<Rightarrow> addr \<Rightarrow> addr list \<Rightarrow> (Status \<times> LRUCacheShard \<times> addr list) option" where
  "overwrite_old sh old last_reference_list =
     (if old \<noteq> nullptr then do {
        ho \<leftarrow> sh_heap sh old;
        check (InCache ho);
        sh \<leftarrow> at sh old (SetInCache False);
        if \<not> HasRefs ho then do {
          sh \<leftarrow> LRU_Remove sh old;
          check (h_total_charge ho \<le> sh_usage sh);
          Some (Status_OkOverwritten, sh\<lparr>sh_usage := sh_usage sh - h_total_charge ho\<rparr>, last_reference_list @ [old])
        } else Some (Status_OkOverwritten, sh, last_reference_list)
      } else Some (Status_OK, sh, last_reference_list))"

text \<open>
  The result of inserting with a handle to fill in (\<^term>\<open>want_handle\<close>) is the status and the handle,
  null when the insertion failed.
\<close>

definition InsertItem :: "LRUCacheShard \<Rightarrow> addr \<Rightarrow> bool \<Rightarrow> (Status \<times> addr \<times> LRUCacheShard) option" where
  "InsertItem sh e want_handle =
     do {
       h \<leftarrow> sh_heap sh e;
       (sh, last_reference_list) \<leftarrow> EvictFromLRU sh (h_total_charge h) [];
       (s, handle, sh, last_reference_list) \<leftarrow>
         (if sh_capacity sh < sh_usage sh + h_total_charge h \<and> (sh_strict_capacity_limit sh \<or> \<not> want_handle) then do {
            sh \<leftarrow> at sh e (SetInCache False);
            if \<not> want_handle then Some (Status_OK, nullptr, sh, last_reference_list @ [e])
            else do {
              sh \<leftarrow> free_handle sh e;
              Some (Status_MemoryLimit_msg ''Insert failed due to LRU cache being full.'', nullptr, sh,
                    last_reference_list)
            }
          } else do {
            (old, tb, hp) \<leftarrow> Table_Insert (sh_table sh) (sh_heap sh) e;
            let sh = sh\<lparr>sh_table := tb, sh_heap := hp, sh_usage := sh_usage sh + h_total_charge h\<rparr>;
            (s, sh, last_reference_list) \<leftarrow> overwrite_old sh old last_reference_list;
            if \<not> want_handle then do {
              sh \<leftarrow> LRU_Insert sh e;
              Some (s, nullptr, sh, last_reference_list)
            } else do {
              h \<leftarrow> sh_heap sh e;
              sh \<leftarrow> (if \<not> HasRefs h then at sh e handle_Ref else Some sh);
              Some (s, e, sh, last_reference_list)
            }
          });
       sh \<leftarrow> NotifyEvicted sh last_reference_list;
       Some (s, handle, sh)
     }"

text \<open>\<^verbatim>\<open>malloc\<close> returns the address of a block that is not in use; the fields are then written one by one.\<close>

definition CreateHandle ::
  "LRUCacheShard \<Rightarrow> addr \<Rightarrow> bytes \<Rightarrow> u32 \<Rightarrow> ObjectPtr \<Rightarrow> CacheItemHelper \<Rightarrow> u64 \<Rightarrow> LRUCacheShard option" where
  "CreateHandle sh e key hash val helper charge =
     do {
       check (\<not> (IsSecondaryCacheCompatible helper \<and> val = nullptr));
       check (e \<noteq> nullptr \<and> sh_heap sh e = None);
       let h = \<lparr>h_value = val, h_helper = helper, h_next_hash = nullptr, h_next = nullptr, h_prev = nullptr,
                h_total_charge = 0, h_key_length = of_nat (length key), h_hash = hash, h_refs = 0,
                h_m_flags = 0, h_im_flags = 0, h_key_data = key\<rparr>;
       Some (sh\<lparr>sh_heap := (sh_heap sh)(e \<mapsto> CalcTotalCharge charge (sh_metadata_charge_policy sh) h)\<rparr>)
     }"

definition Shard_Insert ::
  "LRUCacheShard \<Rightarrow> addr \<Rightarrow> bytes \<Rightarrow> u32 \<Rightarrow> ObjectPtr \<Rightarrow> CacheItemHelper \<Rightarrow> u64 \<Rightarrow> bool \<Rightarrow> Priority
    \<Rightarrow> (Status \<times> addr \<times> LRUCacheShard) option" where
  "Shard_Insert sh e key hash val helper charge want_handle priority =
     do {
       sh \<leftarrow> CreateHandle sh e key hash val helper charge;
       sh \<leftarrow> at sh e (SetPriority priority);
       sh \<leftarrow> at sh e (SetInCache True);
       InsertItem sh e want_handle
     }"

definition CreateStandalone ::
  "LRUCacheShard \<Rightarrow> addr \<Rightarrow> bytes \<Rightarrow> u32 \<Rightarrow> ObjectPtr \<Rightarrow> CacheItemHelper \<Rightarrow> u64 \<Rightarrow> bool
    \<Rightarrow> (addr \<times> LRUCacheShard) option" where
  "CreateStandalone sh e key hash val helper charge allow_uncharged =
     do {
       sh \<leftarrow> CreateHandle sh e key hash val helper charge;
       sh \<leftarrow> at sh e (SetIsStandalone True);
       sh \<leftarrow> at sh e handle_Ref;
       h \<leftarrow> sh_heap sh e;
       (sh, last_reference_list) \<leftarrow> EvictFromLRU sh (h_total_charge h) [];
       (e, sh) \<leftarrow>
         (if sh_strict_capacity_limit sh \<and> sh_capacity sh < sh_usage sh + h_total_charge h then
            if allow_uncharged then do { sh \<leftarrow> at sh e (h_total_charge_update (\<lambda>_. 0)); Some (e, sh) }
            else do { sh \<leftarrow> free_handle sh e; Some (nullptr, sh) }
          else Some (e, sh\<lparr>sh_usage := sh_usage sh + h_total_charge h\<rparr>));
       sh \<leftarrow> NotifyEvicted sh last_reference_list;
       Some (e, sh)
     }"

definition Shard_Lookup :: "LRUCacheShard \<Rightarrow> bytes \<Rightarrow> u32 \<Rightarrow> (addr \<times> LRUCacheShard) option" where
  "Shard_Lookup sh key hash =
     do {
       e \<leftarrow> Table_Lookup (sh_table sh) (sh_heap sh) key hash;
       if e \<noteq> nullptr then do {
         h \<leftarrow> sh_heap sh e;
         check (InCache h);
         sh \<leftarrow> (if \<not> HasRefs h then LRU_Remove sh e else Some sh);
         sh \<leftarrow> at sh e handle_Ref;
         sh \<leftarrow> at sh e SetHit;
         Some (e, sh)
       } else Some (e, sh)
     }"

definition Shard_Ref :: "LRUCacheShard \<Rightarrow> addr \<Rightarrow> (bool \<times> LRUCacheShard) option" where
  "Shard_Ref sh e =
     do {
       h \<leftarrow> sh_heap sh e;
       check (HasRefs h);
       sh \<leftarrow> at sh e handle_Ref;
       Some (True, sh)
     }"

definition Shard_Release :: "LRUCacheShard \<Rightarrow> addr \<Rightarrow> bool \<Rightarrow> (bool \<times> LRUCacheShard) option" where
  "Shard_Release sh e erase_if_last_ref =
     (if e = nullptr then Some (False, sh)
      else do {
        h \<leftarrow> sh_heap sh e;
        (must_free, h) \<leftarrow> handle_Unref h;
        sh \<leftarrow> at sh e (\<lambda>_. h);
        let was_in_cache = InCache h;
        (must_free, sh) \<leftarrow>
          (if must_free \<and> was_in_cache then
             if sh_capacity sh < sh_usage sh \<or> erase_if_last_ref then do {
               lru \<leftarrow> sh_heap sh lru_head;
               check (h_next lru = lru_head \<or> erase_if_last_ref);
               (_, tb, hp) \<leftarrow> Table_Remove (sh_table sh) (sh_heap sh) (handle_key h) (h_hash h);
               sh \<leftarrow> at (sh\<lparr>sh_table := tb, sh_heap := hp\<rparr>) e (SetInCache False);
               Some (must_free, sh)
             } else do { sh \<leftarrow> LRU_Insert sh e; Some (False, sh) }
           else Some (must_free, sh));
        if must_free then do {
          check (h_total_charge h \<le> sh_usage sh);
          sh \<leftarrow> handle_Free (sh\<lparr>sh_usage := sh_usage sh - h_total_charge h\<rparr>) e;
          Some (must_free, sh)
        } else Some (must_free, sh)
      })"

definition Shard_Erase :: "LRUCacheShard \<Rightarrow> bytes \<Rightarrow> u32 \<Rightarrow> LRUCacheShard option" where
  "Shard_Erase sh key hash =
     do {
       (e, tb, hp) \<leftarrow> Table_Remove (sh_table sh) (sh_heap sh) key hash;
       let sh = sh\<lparr>sh_table := tb, sh_heap := hp\<rparr>;
       if e \<noteq> nullptr then do {
         h \<leftarrow> sh_heap sh e;
         check (InCache h);
         sh \<leftarrow> at sh e (SetInCache False);
         if \<not> HasRefs h then do {
           sh \<leftarrow> LRU_Remove sh e;
           check (h_total_charge h \<le> sh_usage sh);
           handle_Free (sh\<lparr>sh_usage := sh_usage sh - h_total_charge h\<rparr>) e
         } else Some sh
       } else Some sh
     }"

definition Shard_GetUsage :: "LRUCacheShard \<Rightarrow> u64" where
  "Shard_GetUsage sh = sh_usage sh"

definition Shard_GetPinnedUsage :: "LRUCacheShard \<Rightarrow> u64 option" where
  "Shard_GetPinnedUsage sh =
     (if sh_lru_usage sh \<le> sh_usage sh then Some (sh_usage sh - sh_lru_usage sh) else None)"

definition Shard_GetOccupancyCount :: "LRUCacheShard \<Rightarrow> u64" where
  "Shard_GetOccupancyCount sh = ucast (tb_elems (sh_table sh))"

definition Shard_GetTableAddressCount :: "LRUCacheShard \<Rightarrow> u64" where
  "Shard_GetTableAddressCount sh = push_bit (tb_length_bits (sh_table sh)) 1"

partial_function (option) TEST_GetLRUSize_loop :: "heap \<Rightarrow> addr \<Rightarrow> u64 \<Rightarrow> u64 option" where
  "TEST_GetLRUSize_loop hp lru_handle lru_size =
     (if lru_handle \<noteq> lru_head then do {
        h \<leftarrow> hp lru_handle;
        TEST_GetLRUSize_loop hp (h_next h) (lru_size + 1)
      } else Some lru_size)"

definition TEST_GetLRUSize :: "LRUCacheShard \<Rightarrow> u64 option" where
  "TEST_GetLRUSize sh = do { lru \<leftarrow> sh_heap sh lru_head; TEST_GetLRUSize_loop (sh_heap sh) (h_next lru) 0 }"

text \<open>The destructor of the table frees the entries that nobody holds.\<close>

fun free_unreferenced :: "LRUCacheShard \<Rightarrow> addr list \<Rightarrow> LRUCacheShard option" where
  "free_unreferenced sh [] = Some sh"
| "free_unreferenced sh (a # as) =
     do {
       h \<leftarrow> sh_heap sh a;
       sh \<leftarrow> (if \<not> HasRefs h then handle_Free sh a else Some sh);
       free_unreferenced sh as
     }"

definition LRUHandleTable_destruct :: "LRUCacheShard \<Rightarrow> LRUCacheShard option" where
  "LRUHandleTable_destruct sh =
     do {
       es \<leftarrow> ApplyToEntriesRange (sh_table sh) (sh_heap sh) 0 (2 ^ tb_length_bits (sh_table sh));
       free_unreferenced sh es
     }"

text \<open>The arguments of the calls of the callback, in order, and the new iteration state.\<close>

fun entry_calls ::
  "CacheMetadataChargePolicy \<Rightarrow> heap \<Rightarrow> addr list \<Rightarrow> (bytes \<times> ObjectPtr \<times> u64 \<times> CacheItemHelper) list option" where
  "entry_calls policy hp [] = Some []"
| "entry_calls policy hp (a # as) =
     do {
       h \<leftarrow> hp a;
       charge \<leftarrow> handle_GetCharge policy h;
       rest \<leftarrow> entry_calls policy hp as;
       Some ((handle_key h, h_value h, charge, h_helper h) # rest)
     }"

definition ApplyToSomeEntries ::
  "LRUCacheShard \<Rightarrow> u64 \<Rightarrow> u64 \<Rightarrow> ((bytes \<times> ObjectPtr \<times> u64 \<times> CacheItemHelper) list \<times> u64) option" where
  "ApplyToSomeEntries sh average_entries_per_lock state =
     do {
       let length_bits = tb_length_bits (sh_table sh);
       let len = push_bit length_bits (1::u64);
       check (average_entries_per_lock > 0);
       check (average_entries_per_lock < len \<or> state = 0);
       let index_begin = drop_bit (64 - length_bits) state;
       let index_end = index_begin + average_entries_per_lock;
       let (index_end, state) = (if len \<le> index_end then (len, - 1) else (index_end, push_bit (64 - length_bits) index_end));
       es \<leftarrow> ApplyToEntriesRange (sh_table sh) (sh_heap sh) (unat index_begin) (unat index_end);
       calls \<leftarrow> entry_calls (sh_metadata_charge_policy sh) (sh_heap sh) es;
       Some (calls, state)
     }"

declare MaintainPoolSize_high.simps [code] MaintainPoolSize_low.simps [code] EvictFromLRU.simps [code]
  EraseUnRefEntries_loop.simps [code] TEST_GetLRUSize_loop.simps [code]

end
