(* ===== verification/Lru_List.thy ===== *)
theory Lru_List
  imports Lru_Cache
begin

text \<open>
  The LRU list of a shard as a list of entries: the doubly linked circular list through the heap, its
  three pools, and the operations that unlink, link and move entries between the pools.
\<close>

section \<open>Flags\<close>

named_theorems flag_simps "what each setter of a flag does to each test"

lemma flag_bit: "w AND push_bit n (1::byte) \<noteq> 0 \<longleftrightarrow> bit w n"
  by (simp add: push_bit_eq_mult and_exp_eq_0_iff_not_bit)

lemma handle_flag_tests:
  "InCache h \<longleftrightarrow> bit (h_m_flags h) 0" "HasHit h \<longleftrightarrow> bit (h_m_flags h) 1"
  "InHighPriPool h \<longleftrightarrow> bit (h_m_flags h) 2" "InLowPriPool h \<longleftrightarrow> bit (h_m_flags h) 3"
  "IsHighPri h \<longleftrightarrow> bit (h_im_flags h) 0" "IsLowPri h \<longleftrightarrow> bit (h_im_flags h) 1"
  by (simp_all only: InCache_def HasHit_def InHighPriPool_def InLowPriPool_def IsHighPri_def IsLowPri_def
      M_IN_CACHE_def M_HAS_HIT_def M_IN_HIGH_PRI_POOL_def M_IN_LOW_PRI_POOL_def IM_IS_HIGH_PRI_def
      IM_IS_LOW_PRI_def flag_bit)

lemma bit_set_flag: "bit (w OR push_bit n (1::byte)) m \<longleftrightarrow> bit w m \<or> (m = n \<and> n < 8)"
  and bit_clear_flag: "bit (w AND NOT (push_bit n (1::byte))) m \<longleftrightarrow> bit w m \<and> m \<noteq> n"
  by (auto simp: bit_simps dest: bit_imp_le_length)

lemma m_flags_setters:
  "h_m_flags (SetInCache b h) = (if b then h_m_flags h OR push_bit 0 1 else h_m_flags h AND NOT (push_bit 0 1))"
  "h_m_flags (SetHit h) = h_m_flags h OR push_bit 1 1"
  "h_m_flags (SetInHighPriPool b h) = (if b then h_m_flags h OR push_bit 2 1 else h_m_flags h AND NOT (push_bit 2 1))"
  "h_m_flags (SetInLowPriPool b h) = (if b then h_m_flags h OR push_bit 3 1 else h_m_flags h AND NOT (push_bit 3 1))"
  by (simp_all add: SetInCache_def SetHit_def SetInHighPriPool_def SetInLowPriPool_def M_IN_CACHE_def
      M_HAS_HIT_def M_IN_HIGH_PRI_POOL_def M_IN_LOW_PRI_POOL_def)

lemma bit_setters:
  "bit (h_m_flags (SetInCache b h)) n \<longleftrightarrow> (if n = 0 then b else bit (h_m_flags h) n)"
  "bit (h_m_flags (SetHit h)) n \<longleftrightarrow> n = 1 \<or> bit (h_m_flags h) n"
  "bit (h_m_flags (SetInHighPriPool b h)) n \<longleftrightarrow> (if n = 2 then b else bit (h_m_flags h) n)"
  "bit (h_m_flags (SetInLowPriPool b h)) n \<longleftrightarrow> (if n = 3 then b else bit (h_m_flags h) n)"
  by (cases b; simp only: m_flags_setters if_True if_False bit_set_flag bit_clear_flag; auto)+

definition pool_of :: "LRUHandle \<Rightarrow> bool \<times> bool" where
  "pool_of h = (InHighPriPool h, InLowPriPool h)"

definition set_pool :: "bool \<times> bool \<Rightarrow> LRUHandle \<Rightarrow> LRUHandle" where
  "set_pool q h = SetInLowPriPool (snd q) (SetInHighPriPool (fst q) h)"

lemma set_pool_fields [simp]:
  "h_value (set_pool q h) = h_value h" "h_helper (set_pool q h) = h_helper h"
  "h_next_hash (set_pool q h) = h_next_hash h" "h_next (set_pool q h) = h_next h"
  "h_prev (set_pool q h) = h_prev h" "h_total_charge (set_pool q h) = h_total_charge h"
  "h_key_length (set_pool q h) = h_key_length h" "h_hash (set_pool q h) = h_hash h"
  "h_refs (set_pool q h) = h_refs h" "h_im_flags (set_pool q h) = h_im_flags h"
  "h_key_data (set_pool q h) = h_key_data h"
  by (simp_all add: set_pool_def SetInLowPriPool_def SetInHighPriPool_def)

lemma bit_set_pool: "bit (h_m_flags (set_pool q h)) n \<longleftrightarrow>
    (if n = 3 then snd q else if n = 2 then fst q else bit (h_m_flags h) n)"
  by (simp add: set_pool_def bit_setters)

lemma handle_eqI:
  assumes "h_m_flags h = h_m_flags h'" and "h\<lparr>h_m_flags := 0\<rparr> = h'\<lparr>h_m_flags := 0\<rparr>"
  shows "h = (h'::LRUHandle)"
  using assms by (cases h; cases h') simp

lemma m_flags_eqI: "(\<And>n. bit (h_m_flags h) n \<longleftrightarrow> bit (h_m_flags h') n) \<Longrightarrow> h_m_flags h = h_m_flags (h'::LRUHandle)"
  by (simp add: bit_eq_iff)

lemma clear_set_pool: "(set_pool q h)\<lparr>h_m_flags := 0\<rparr> = h\<lparr>h_m_flags := 0\<rparr>"
  by (simp add: set_pool_def SetInLowPriPool_def SetInHighPriPool_def)

lemma set_pool_idem [simp]: "set_pool q (set_pool q' h) = set_pool q h"
  by (rule handle_eqI, rule m_flags_eqI) (auto simp: bit_set_pool clear_set_pool)

lemma set_pool_of [simp]: "set_pool (pool_of h) h = h"
  by (rule handle_eqI, rule m_flags_eqI) (auto simp: bit_set_pool clear_set_pool pool_of_def handle_flag_tests)

lemma set_pool_link [simp]:
  "set_pool q (h\<lparr>h_next := n\<rparr>) = (set_pool q h)\<lparr>h_next := n\<rparr>"
  "set_pool q (h\<lparr>h_prev := p\<rparr>) = (set_pool q h)\<lparr>h_prev := p\<rparr>"
  by (simp_all add: set_pool_def SetInLowPriPool_def SetInHighPriPool_def)

lemma pool_set_pool [simp]: "pool_of (set_pool q h) = q"
  by (simp add: pool_of_def handle_flag_tests bit_set_pool)

lemma pool_of_links [simp]:
  "pool_of (h\<lparr>h_next := n\<rparr>) = pool_of h" "pool_of (h\<lparr>h_prev := n\<rparr>) = pool_of h"
  by (simp_all add: pool_of_def handle_flag_tests)

section \<open>Links and pools of a heap\<close>

text \<open>The heap with the links of the LRU list and the pool flags replaced.\<close>

definition relink :: "(addr \<Rightarrow> addr) \<Rightarrow> (addr \<Rightarrow> addr) \<Rightarrow> (addr \<Rightarrow> bool \<times> bool) \<Rightarrow> heap \<Rightarrow> heap" where
  "relink N P Q hp = (\<lambda>a. map_option (\<lambda>h. (set_pool (Q a) h)\<lparr>h_next := N a, h_prev := P a\<rparr>) (hp a))"

definition next_of :: "heap \<Rightarrow> addr \<Rightarrow> addr" where "next_of hp a = h_next (the (hp a))"
definition prev_of :: "heap \<Rightarrow> addr \<Rightarrow> addr" where "prev_of hp a = h_prev (the (hp a))"
definition pool_at :: "heap \<Rightarrow> addr \<Rightarrow> bool \<times> bool" where "pool_at hp a = pool_of (the (hp a))"
definition charge_of :: "heap \<Rightarrow> addr \<Rightarrow> nat" where "charge_of hp a = unat (h_total_charge (the (hp a)))"

definition charges :: "heap \<Rightarrow> addr list \<Rightarrow> nat" where
  "charges hp as = sum_list (map (charge_of hp) as)"

lemma relink_self: "relink (next_of hp) (prev_of hp) (pool_at hp) hp = hp"
  by (rule ext, rename_tac a, case_tac "hp a")
    (simp_all add: relink_def next_of_def prev_of_def pool_at_def)

lemma relink_relink [simp]: "relink N P Q (relink N' P' Q' hp) = relink N P Q hp"
  by (rule ext) (simp add: relink_def option.map_comp comp_def)

lemma relink_None [simp]: "relink N P Q hp a = None \<longleftrightarrow> hp a = None"
  by (simp add: relink_def)

lemma relink_Some: "hp a = Some h \<Longrightarrow> relink N P Q hp a = Some ((set_pool (Q a) h)\<lparr>h_next := N a, h_prev := P a\<rparr>)"
  by (simp add: relink_def)

lemma relink_of:
  assumes "hp a \<noteq> None"
  shows "next_of (relink N P Q hp) a = N a" "prev_of (relink N P Q hp) a = P a"
    "pool_at (relink N P Q hp) a = Q a" "charge_of (relink N P Q hp) a = charge_of hp a"
  using assms by (auto simp: relink_def next_of_def prev_of_def pool_at_def charge_of_def)

lemma relink_same:
  "hp a = Some h \<Longrightarrow> N a = next_of hp a \<Longrightarrow> P a = prev_of hp a \<Longrightarrow> Q a = pool_at hp a \<Longrightarrow> relink N P Q hp a = Some h"
  by (simp add: relink_def next_of_def prev_of_def pool_at_def)

definition upd :: "addr \<Rightarrow> (LRUHandle \<Rightarrow> LRUHandle) \<Rightarrow> heap \<Rightarrow> heap" where
  "upd a f hp = hp(a := map_option f (hp a))"

lemma upd_apply [simp]: "upd a f hp b = (if b = a then map_option f (hp a) else hp b)"
  by (simp add: upd_def)

lemma at_simp [simp]: "sh_heap sh a \<noteq> None \<Longrightarrow> at sh a f = Some (sh\<lparr>sh_heap := upd a f (sh_heap sh)\<rparr>)"
  by (auto simp: at_def update_at_def upd_def)

lemma upd_relink:
  "upd a (h_next_update (\<lambda>_. v)) (relink N P Q hp) = relink (N(a := v)) P Q hp"
  "upd a (h_prev_update (\<lambda>_. v)) (relink N P Q hp) = relink N (P(a := v)) Q hp"
  "upd a (\<lambda>h. h\<lparr>h_next := u, h_prev := v\<rparr>) (relink N P Q hp) = relink (N(a := u)) (P(a := v)) Q hp"
  "upd a (\<lambda>h. h\<lparr>h_prev := v, h_next := u\<rparr>) (relink N P Q hp) = relink (N(a := u)) (P(a := v)) Q hp"
  "upd a (\<lambda>h. SetInLowPriPool c (SetInHighPriPool b h)) (relink N P Q hp) = relink N P (Q(a := (b, c))) hp"
proof -
  have pool: "(\<lambda>h. SetInLowPriPool c (SetInHighPriPool b h)) = set_pool (b, c)"
    by (rule ext) (simp add: set_pool_def)
  show "upd a (\<lambda>h. SetInLowPriPool c (SetInHighPriPool b h)) (relink N P Q hp) = relink N P (Q(a := (b, c))) hp"
    unfolding pool by (rule ext) (auto simp: relink_def option.map_comp comp_def)
qed ((rule ext, rename_tac b, case_tac "hp b"; case_tac "b = a"; simp add: relink_def)+)

section \<open>Doubly linked segments\<close>

fun dlseg :: "(addr \<Rightarrow> addr) \<Rightarrow> (addr \<Rightarrow> addr) \<Rightarrow> addr \<Rightarrow> addr list \<Rightarrow> addr \<Rightarrow> bool" where
  "dlseg N P a [] b \<longleftrightarrow> N a = b \<and> P b = a"
| "dlseg N P a (x # xs) b \<longleftrightarrow> N a = x \<and> P x = a \<and> dlseg N P x xs b"

lemma dlseg_append: "dlseg N P a (xs @ y # ys) b \<longleftrightarrow> dlseg N P a xs y \<and> dlseg N P y ys b"
  by (induction xs arbitrary: a) auto

lemma dlseg_cong:
  "(\<And>x. x \<in> set (a # xs) \<Longrightarrow> N x = N' x) \<Longrightarrow> (\<And>x. x \<in> set (xs @ [b]) \<Longrightarrow> P x = P' x)
    \<Longrightarrow> dlseg N P a xs b \<longleftrightarrow> dlseg N' P' a xs b"
  by (induction xs arbitrary: a) auto

lemma dlseg_prev: "dlseg N P a xs b \<Longrightarrow> P b = last (a # xs)"
  by (induction xs arbitrary: a) auto

lemma dlseg_next: "dlseg N P a xs b \<Longrightarrow> N a = hd (xs @ [b])"
  by (cases xs) auto

lemma dlseg_remove:
  assumes "dlseg N P a (us @ x # vs) b" and "distinct (a # us @ vs)" and "b \<notin> set (us @ vs)"
    and "\<And>y. y \<in> set (a # us @ vs) \<Longrightarrow> N' y = (if y = last (a # us) then hd (vs @ [b]) else N y)"
    and "\<And>y. y \<in> set (us @ vs @ [b]) \<Longrightarrow> P' y = (if y = hd (vs @ [b]) then last (a # us) else P y)"
  shows "dlseg N' P' a (us @ vs) b"
  using assms
proof (induction us arbitrary: a)
  case Nil
  show ?case
  proof (cases vs)
    case (Cons v ws)
    have "dlseg N P v ws b \<longleftrightarrow> dlseg N' P' v ws b"
      by (rule dlseg_cong) (use Nil Cons in auto)
    then show ?thesis using Nil Cons by simp
  qed (use Nil in simp)
next
  case (Cons u us)
  have ne: "a \<noteq> last (u # us)" "u \<noteq> hd (vs @ [b])"
    using Cons.prems(2,3) by (auto simp: hd_append split: if_splits)
  have "dlseg N' P' u (us @ vs) b" by (rule Cons.IH) (use Cons.prems in auto)
  then show ?case using Cons.prems ne by simp
qed

lemma dlseg_insert:
  assumes "dlseg N P a (us @ vs) b" and "distinct (a # us @ vs)" and "b \<notin> set (us @ vs)"
    and "x \<notin> set (a # us @ vs)" and "x \<noteq> b"
    and "\<And>y. y \<in> set (a # us @ x # vs) \<Longrightarrow>
      N' y = (if y = last (a # us) then x else if y = x then hd (vs @ [b]) else N y)"
    and "\<And>y. y \<in> set (us @ x # vs @ [b]) \<Longrightarrow>
      P' y = (if y = hd (vs @ [b]) then x else if y = x then last (a # us) else P y)"
  shows "dlseg N' P' a (us @ x # vs) b"
  using assms
proof (induction us arbitrary: a)
  case Nil
  show ?case
  proof (cases vs)
    case (Cons v ws)
    have "dlseg N P v ws b \<longleftrightarrow> dlseg N' P' v ws b"
      by (rule dlseg_cong) (use Nil Cons in auto)
    then show ?thesis
      using Nil(1-5) Nil(6) [of a] Nil(6) [of x] Nil(7) [of x] Nil(7) [of v] Cons by simp
  qed (use Nil(1-5) Nil(6) [of a] Nil(6) [of x] Nil(7) [of x] Nil(7) [of b] in simp)
next
  case (Cons u us)
  have ne: "a \<noteq> last (u # us)" "u \<noteq> hd (vs @ [b])"
    using Cons.prems(2,3) by (auto simp: hd_append split: if_splits)
  have "dlseg N' P' u (us @ x # vs) b"
    by (rule Cons.IH) (use Cons.prems(1-5) in \<open>auto simp: Cons.prems(6,7)\<close>)
  then show ?case using Cons.prems(1-5) Cons.prems(6) [of a] Cons.prems(7) [of u] ne by simp
qed

section \<open>The list of a shard\<close>

text \<open>
  The LRU list from the oldest entry to the newest is the bottom-priority pool, then the low-priority
  pool, then the high-priority pool; the two pointers of the shard are at the newest entries of the
  first two, and the three usages are the sums of the charges.
\<close>

definition lru_links :: "LRUCacheShard \<Rightarrow> addr list \<Rightarrow> addr list \<Rightarrow> addr list \<Rightarrow> bool" where
  "lru_links sh bt low hi \<longleftrightarrow>
     (let hp = sh_heap sh; L = bt @ low @ hi
      in dlseg (next_of hp) (prev_of hp) lru_head L lru_head \<and> distinct (lru_head # L) \<and> nullptr \<notin> set L
       \<and> (\<forall>a \<in> set (lru_head # L). hp a \<noteq> None)
       \<and> sh_lru_bottom_pri sh = last (lru_head # bt) \<and> sh_lru_low_pri sh = last (lru_head # bt @ low)
       \<and> (\<forall>a \<in> set bt. pool_at hp a = (False, False)) \<and> (\<forall>a \<in> set low. pool_at hp a = (False, True))
       \<and> (\<forall>a \<in> set hi. pool_at hp a = (True, False))
       \<and> unat (sh_high_pri_pool_usage sh) = charges hp hi \<and> unat (sh_low_pri_pool_usage sh) = charges hp low)"

definition lru_ok :: "LRUCacheShard \<Rightarrow> addr list \<Rightarrow> addr list \<Rightarrow> addr list \<Rightarrow> bool" where
  "lru_ok sh bt low hi \<longleftrightarrow>
     lru_links sh bt low hi \<and> unat (sh_lru_usage sh) = charges (sh_heap sh) (bt @ low @ hi)"

lemma lru_linksD:
  assumes "lru_links sh bt low hi"
  shows "dlseg (next_of (sh_heap sh)) (prev_of (sh_heap sh)) lru_head (bt @ low @ hi) lru_head"
    and "distinct (lru_head # bt @ low @ hi)" and "nullptr \<notin> set (bt @ low @ hi)"
    and "\<And>a. a \<in> set (lru_head # bt @ low @ hi) \<Longrightarrow> sh_heap sh a \<noteq> None"
    and "sh_lru_bottom_pri sh = last (lru_head # bt)" and "sh_lru_low_pri sh = last (lru_head # bt @ low)"
    and "\<And>a. a \<in> set bt \<Longrightarrow> pool_at (sh_heap sh) a = (False, False)"
    and "\<And>a. a \<in> set low \<Longrightarrow> pool_at (sh_heap sh) a = (False, True)"
    and "\<And>a. a \<in> set hi \<Longrightarrow> pool_at (sh_heap sh) a = (True, False)"
    and "unat (sh_high_pri_pool_usage sh) = charges (sh_heap sh) hi"
    and "unat (sh_low_pri_pool_usage sh) = charges (sh_heap sh) low"
  using assms unfolding lru_links_def Let_def by blast+

lemma lru_okD:
  assumes "lru_ok sh bt low hi"
  shows "lru_links sh bt low hi" and "unat (sh_lru_usage sh) = charges (sh_heap sh) (bt @ low @ hi)"
  using assms by (simp_all add: lru_ok_def)

text \<open>What the list operations leave alone.\<close>

definition lru_rest :: "LRUCacheShard \<Rightarrow> LRUCacheShard" where
  "lru_rest sh = sh\<lparr>sh_heap := Map.empty, sh_lru_usage := 0, sh_high_pri_pool_usage := 0,
     sh_low_pri_pool_usage := 0, sh_lru_low_pri := 0, sh_lru_bottom_pri := 0\<rparr>"

definition lru_frame :: "addr set \<Rightarrow> LRUCacheShard \<Rightarrow> LRUCacheShard \<Rightarrow> bool" where
  "lru_frame S sh sh' \<longleftrightarrow> lru_rest sh' = lru_rest sh
     \<and> (\<exists>N P Q. sh_heap sh' = relink N P Q (sh_heap sh)) \<and> (\<forall>a. a \<notin> S \<longrightarrow> sh_heap sh' a = sh_heap sh a)"

lemma lru_frame_rest:
  assumes "lru_frame S sh sh'"
  shows "sh_table sh' = sh_table sh" "sh_usage sh' = sh_usage sh" "sh_capacity sh' = sh_capacity sh"
    "sh_strict_capacity_limit sh' = sh_strict_capacity_limit sh" "sh_calls sh' = sh_calls sh"
    "sh_eviction_callback sh' = sh_eviction_callback sh" "sh_metadata_charge_policy sh' = sh_metadata_charge_policy sh"
    "sh_high_pri_pool_ratio sh' = sh_high_pri_pool_ratio sh" "sh_low_pri_pool_ratio sh' = sh_low_pri_pool_ratio sh"
    "sh_high_pri_pool_capacity sh' = sh_high_pri_pool_capacity sh"
    "sh_low_pri_pool_capacity sh' = sh_low_pri_pool_capacity sh"
  using assms by (cases sh; cases sh'; auto simp: lru_frame_def lru_rest_def)+

lemma charges_remove:
  assumes "distinct as"
  shows "charges hp as = (if a \<in> set as then charge_of hp a else 0) + charges hp (removeAll a as)"
  using assms sum_list_map_remove1 [of a as "charge_of hp"]
  by (simp add: charges_def distinct_remove1_removeAll)

lemma charges_append [simp]: "charges hp (as @ bs) = charges hp as + charges hp bs"
  by (simp add: charges_def)

lemma charges_cong: "(\<And>a. a \<in> set as \<Longrightarrow> charge_of hp a = charge_of hp' a) \<Longrightarrow> charges hp as = charges hp' as"
  unfolding charges_def by (metis map_cong)

lemma charges_relink: "(\<And>a. a \<in> set as \<Longrightarrow> hp a \<noteq> None) \<Longrightarrow> charges (relink N P Q hp) as = charges hp as"
  by (intro charges_cong) (simp add: relink_of)

lemma last_removed:
  assumes "distinct (x # us @ e # vs)" and "us @ e # vs = xs @ ys"
  shows "(if last (x # xs) = e then last (x # us) else last (x # xs)) = last (x # removeAll e xs)"
proof (cases "e \<in> set xs")
  case True
  then obtain us' ws where ws: "xs = us' @ e # ws" by (meson split_list)
  then have "us @ e # vs = us' @ e # (ws @ ys)" using assms(2) by simp
  moreover have "e \<notin> set us" "e \<notin> set vs" using assms(1) by auto
  ultimately have "us' = us" "vs = ws @ ys" using append_Cons_eq_iff [of e us vs us' "ws @ ys"] by simp_all
  with ws assms(1) show ?thesis by (cases "ws = []") auto
next
  case False
  then show ?thesis using assms by (cases "xs = []") (auto simp: removeAll_id)
qed

lemma word_minus_nat: "c \<le> w \<Longrightarrow> unat (w - c) = unat w - unat c"
  by (simp add: unat_sub)

lemma LRU_Remove_ok:
  assumes ok: "lru_ok sh bt low hi" and e: "e \<in> set (bt @ low @ hi)"
  shows "\<exists>sh'. LRU_Remove sh e = Some sh' \<and> lru_ok sh' (removeAll e bt) (removeAll e low) (removeAll e hi)
    \<and> lru_frame (set (lru_head # bt @ low @ hi)) sh sh'
    \<and> next_of (sh_heap sh') e = nullptr \<and> prev_of (sh_heap sh') e = nullptr"
proof -
  note okD = lru_linksD [OF lru_okD(1) [OF ok]] and use = lru_okD(2) [OF ok]
  obtain us vs where L: "bt @ low @ hi = us @ e # vs" using e by (meson split_list)
  define p where "p = last (lru_head # us)"
  define n where "n = hd (vs @ [lru_head])"
  let ?hp = "sh_heap sh"
  let ?N = "(next_of ?hp)(p := n, e := nullptr)" and ?P = "(prev_of ?hp)(n := p, e := nullptr)"
  let ?Q = "pool_at ?hp"
  have eL: "e \<in> set (lru_head # bt @ low @ hi)" using e by simp
  obtain h where h: "?hp e = Some h" using okD(4) [OF eL] by auto
  have seg: "dlseg (next_of ?hp) (prev_of ?hp) lru_head us e" "dlseg (next_of ?hp) (prev_of ?hp) e vs lru_head"
    using okD(1) unfolding L dlseg_append by auto
  have np: "h_next h = n" "h_prev h = p"
    using dlseg_next [OF seg(2)] dlseg_prev [OF seg(1)] h by (simp_all add: next_of_def prev_of_def n_def p_def)
  have d: "distinct (lru_head # us @ e # vs)" using okD(2) by (simp only: L)
  have pn: "p \<in> set (lru_head # us)" "n \<in> set (vs @ [lru_head])"
    unfolding p_def n_def by (rule last_in_set, simp) (rule hd_in_set, simp)
  then have ne: "p \<noteq> e" "n \<noteq> e" using d by auto
  have nz: "nullptr \<notin> set (us @ e # vs)" using okD(3) by (simp only: L simp_thms)
  have al: "?hp a \<noteq> None" if "a \<in> set (lru_head # us @ e # vs)" for a
    by (rule okD(4)) (use that in \<open>simp only: L\<close>)
  have live: "?hp p \<noteq> None" "?hp n \<noteq> None" "p \<noteq> nullptr" "n \<noteq> nullptr"
    using pn nz al [of p] al [of n] by (auto intro!: Nat.gr0I)
  have chg: "h_total_charge h \<le> sh_lru_usage sh"
    "InHighPriPool h \<Longrightarrow> h_total_charge h \<le> sh_high_pri_pool_usage sh"
    "InLowPriPool h \<Longrightarrow> h_total_charge h \<le> sh_low_pri_pool_usage sh"
    and pools: "InHighPriPool h \<longleftrightarrow> e \<in> set hi" "InLowPriPool h \<longleftrightarrow> e \<in> set low"
  proof -
    have c: "charge_of ?hp e = unat (h_total_charge h)" using h by (simp add: charge_of_def)
    have q: "pool_at ?hp e = (InHighPriPool h, InLowPriPool h)" using h by (simp add: pool_at_def pool_of_def)
    show pools: "InHighPriPool h \<longleftrightarrow> e \<in> set hi" "InLowPriPool h \<longleftrightarrow> e \<in> set low"
      using e okD(2) okD(7) [of e] okD(8) [of e] okD(9) [of e] q by auto
    show "h_total_charge h \<le> sh_lru_usage sh"
      "InHighPriPool h \<Longrightarrow> h_total_charge h \<le> sh_high_pri_pool_usage sh"
      "InLowPriPool h \<Longrightarrow> h_total_charge h \<le> sh_low_pri_pool_usage sh"
      using charges_remove [of "bt @ low @ hi" ?hp e] charges_remove [of hi ?hp e] charges_remove [of low ?hp e]
        okD(2,10,11) use e c pools by (auto simp: word_le_nat_alt simp del: charges_append)
  qed
  let ?sh = "sh\<lparr>sh_lru_low_pri := (if sh_lru_low_pri sh = e then p else sh_lru_low_pri sh),
     sh_lru_bottom_pri := (if sh_lru_bottom_pri sh = e then p else sh_lru_bottom_pri sh),
     sh_heap := relink ?N ?P ?Q ?hp, sh_lru_usage := sh_lru_usage sh - h_total_charge h,
     sh_high_pri_pool_usage := sh_high_pri_pool_usage sh - (if InHighPriPool h then h_total_charge h else 0),
     sh_low_pri_pool_usage := sh_low_pri_pool_usage sh - (if InLowPriPool h then h_total_charge h else 0)\<rparr>"
  have run: "LRU_Remove sh e = Some ?sh"
  proof -
    have heap: "upd e (\<lambda>h. h\<lparr>h_prev := nullptr, h_next := nullptr\<rparr>)
        (upd p (h_next_update (\<lambda>_. n)) (upd n (h_prev_update (\<lambda>_. p)) ?hp)) = relink ?N ?P ?Q ?hp"
      by (subst (3) relink_self [symmetric]) (simp only: upd_relink)
    show ?thesis
      unfolding LRU_Remove_def using h np live chg ne pools okD(2)
      by (auto simp: check_def Let_def heap)
  qed
  have rl: "next_of (relink ?N ?P ?Q ?hp) a = ?N a" "prev_of (relink ?N ?P ?Q ?hp) a = ?P a"
    "pool_at (relink ?N ?P ?Q ?hp) a = ?Q a" "charge_of (relink ?N ?P ?Q ?hp) a = charge_of ?hp a"
    if "a \<in> set (lru_head # us @ e # vs)" for a
    using relink_of [where hp = ?hp and N = ?N and P = ?P and Q = ?Q, OF al [OF that]] by simp_all
  have frame: "lru_frame (set (lru_head # bt @ low @ hi)) sh ?sh"
  proof -
    have "relink ?N ?P ?Q ?hp a = ?hp a" if a: "a \<notin> set (lru_head # us @ e # vs)" for a
    proof -
      have "a \<noteq> p" "a \<noteq> n" "a \<noteq> e" using a pn by auto
      then show ?thesis using relink_same [of ?hp a _ ?N ?P ?Q] by (cases "?hp a") simp_all
    qed
    then show ?thesis unfolding lru_frame_def L by (auto simp: lru_rest_def)
  qed
  have rm: "removeAll e bt @ removeAll e low @ removeAll e hi = us @ vs"
  proof -
    have "removeAll e (us @ e # vs) = us @ vs" using d by simp
    then have "removeAll e (bt @ low @ hi) = us @ vs" unfolding L .
    then show ?thesis by simp
  qed
  have "dlseg (next_of (relink ?N ?P ?Q ?hp)) (prev_of (relink ?N ?P ?Q ?hp)) lru_head (us @ vs) lru_head"
  proof (rule dlseg_remove [OF okD(1) [unfolded L]], unfold p_def [symmetric] n_def [symmetric])
    show "next_of (relink ?N ?P ?Q ?hp) y = (if y = p then n else next_of ?hp y)" if "y \<in> set (lru_head # us @ vs)" for y
      using rl(1) [of y] that d by auto
    show "prev_of (relink ?N ?P ?Q ?hp) y = (if y = n then p else prev_of ?hp y)" if "y \<in> set (us @ vs @ [lru_head])" for y
      using rl(2) [of y] that d by auto
  qed (use d in auto)
  note seg' = this
  have sub: "set bt \<subseteq> set (us @ e # vs)" "set low \<subseteq> set (us @ e # vs)" "set hi \<subseteq> set (us @ e # vs)"
    using L by (metis Un_iff set_append subsetI)+
  have ce: "charge_of ?hp e = unat (h_total_charge h)" using h by (simp add: charge_of_def)
  have cr: "charges (relink ?N ?P ?Q ?hp) (removeAll e as) = charges ?hp as - (if e \<in> set as then charge_of ?hp e else 0)"
    if "set as \<subseteq> set (us @ e # vs)" "distinct as" for as
  proof -
    have "charges (relink ?N ?P ?Q ?hp) (removeAll e as) = charges ?hp (removeAll e as)"
      using that(1) al by (intro charges_relink) auto
    then show ?thesis using charges_remove [OF that(2), of ?hp e] by simp
  qed
  have dd: "distinct (bt @ low @ hi)" "distinct bt" "distinct low" "distinct hi" using okD(2) by auto
  have cL: "charges (relink ?N ?P ?Q ?hp) (us @ vs) = charges ?hp (bt @ low @ hi) - charge_of ?hp e"
    using cr [of "bt @ low @ hi"] dd(1) rm e unfolding L by simp
  have ptr1: "(if last (lru_head # bt) = e then p else last (lru_head # bt)) = last (lru_head # removeAll e bt)"
    unfolding p_def by (rule last_removed [OF d, of bt "low @ hi"]) (rule L [symmetric])
  have "(if last (lru_head # bt @ low) = e then p else last (lru_head # bt @ low)) = last (lru_head # removeAll e (bt @ low))"
    unfolding p_def by (rule last_removed [OF d, of "bt @ low" hi]) (simp add: L)
  then have ptr2: "(if last (lru_head # bt @ low) = e then p else last (lru_head # bt @ low))
      = last (lru_head # removeAll e bt @ removeAll e low)" by (simp only: removeAll_append)
  have "lru_ok ?sh (removeAll e bt) (removeAll e low) (removeAll e hi)"
    unfolding lru_ok_def lru_links_def Let_def rm
  proof (intro conjI ballI)
    show "sh_lru_bottom_pri ?sh = last (lru_head # removeAll e bt)"
      using ptr1 okD(5) by (simp del: last.simps split: if_splits)
    show "sh_lru_low_pri ?sh = last (lru_head # removeAll e bt @ removeAll e low)"
      using ptr2 okD(6) by (simp del: last.simps split: if_splits)
    show "unat (sh_lru_usage ?sh) = charges (sh_heap ?sh) (us @ vs)"
      using cL use ce chg(1) by (simp add: word_minus_nat)
    show "unat (sh_high_pri_pool_usage ?sh) = charges (sh_heap ?sh) (removeAll e hi)"
      using cr [OF sub(3) dd(4)] okD(10) ce chg(2) pools(1) by (simp add: word_minus_nat)
    show "unat (sh_low_pri_pool_usage ?sh) = charges (sh_heap ?sh) (removeAll e low)"
      using cr [OF sub(2) dd(3)] okD(11) ce chg(3) pools(2) by (simp add: word_minus_nat)
    show "pool_at (sh_heap ?sh) a = (False, False)" if "a \<in> set (removeAll e bt)" for a
      using that rl(3) [of a] okD(7) [of a] sub(1) by auto
    show "pool_at (sh_heap ?sh) a = (False, True)" if "a \<in> set (removeAll e low)" for a
      using that rl(3) [of a] okD(8) [of a] sub(2) by auto
    show "pool_at (sh_heap ?sh) a = (True, False)" if "a \<in> set (removeAll e hi)" for a
      using that rl(3) [of a] okD(9) [of a] sub(3) by auto
    show "sh_heap ?sh a \<noteq> None" if "a \<in> set (lru_head # us @ vs)" for a
      using that al [of a] by auto
  qed (use seg' d nz in simp_all)
  then show ?thesis using run frame rl(1) [of e] rl(2) [of e] by (intro exI [of _ ?sh]) simp
qed

section \<open>Moving entries between the pools\<close>

lemma dlseg_next_at: "dlseg N P a (us @ vs) b \<Longrightarrow> N (last (a # us)) = hd (vs @ [b])"
  by (induction us arbitrary: a) (auto dest: dlseg_next)

lemma dlseg_prev_at: "dlseg N P a (us @ vs) b \<Longrightarrow> P (hd (vs @ [b])) = last (a # us)"
proof (induction us arbitrary: a)
  case Nil
  then show ?case by (cases vs) auto
qed auto

lemma upd_pool_of:
  "next_of (upd x (set_pool q) hp) = next_of hp" "prev_of (upd x (set_pool q) hp) = prev_of hp"
  "charge_of (upd x (set_pool q) hp) = charge_of hp"
  "hp x \<noteq> None \<Longrightarrow> pool_at (upd x (set_pool q) hp) = (pool_at hp)(x := q)"
  by (rule ext, case_tac "hp x", auto simp: next_of_def prev_of_def charge_of_def pool_at_def)+

lemma charges_upd_pool [simp]: "charges (upd x (set_pool q) hp) as = charges hp as"
  by (simp add: charges_def upd_pool_of)

lemma charges_Cons [simp]: "charges hp (a # as) = charge_of hp a + charges hp as" "charges hp [] = 0"
  by (simp_all add: charges_def)

lemma lru_links_lower_high:
  assumes ok: "lru_links sh bt low (x # hi)" and sum: "charges (sh_heap sh) (bt @ low @ x # hi) < 2 ^ 64"
    and c: "unat c = charge_of (sh_heap sh) x"
  shows "lru_links (sh\<lparr>sh_lru_low_pri := x, sh_heap := upd x (set_pool (False, True)) (sh_heap sh),
      sh_high_pri_pool_usage := sh_high_pri_pool_usage sh - c,
      sh_low_pri_pool_usage := sh_low_pri_pool_usage sh + c\<rparr>) bt (low @ [x]) hi"
proof -
  note D = lru_linksD [OF ok]
  have x: "sh_heap sh x \<noteq> None" using D(4) [of x] by simp
  have "c \<le> sh_high_pri_pool_usage sh" using c D(10) by (simp add: word_le_nat_alt)
  then have u1: "unat (sh_high_pri_pool_usage sh - c) = charges (sh_heap sh) hi"
    using c D(10) by (simp add: word_minus_nat)
  have u2: "unat (sh_low_pri_pool_usage sh + c) = charges (sh_heap sh) (low @ [x])"
    using c D(11) sum by (simp add: unat_word_ariths)
  show ?thesis
    using D(1-9) x u1 u2 unfolding lru_links_def Let_def
    by (auto simp: upd_pool_of)
qed

lemma lru_links_lower_low:
  assumes ok: "lru_links sh bt (x # low) hi" and c: "unat c = charge_of (sh_heap sh) x"
  shows "lru_links (sh\<lparr>sh_lru_bottom_pri := x, sh_heap := upd x (set_pool (False, False)) (sh_heap sh),
      sh_low_pri_pool_usage := sh_low_pri_pool_usage sh - c\<rparr>) (bt @ [x]) low hi"
proof -
  note D = lru_linksD [OF ok]
  have x: "sh_heap sh x \<noteq> None" using D(4) [of x] by simp
  have "c \<le> sh_low_pri_pool_usage sh" using c D(11) by (simp add: word_le_nat_alt)
  then have u1: "unat (sh_low_pri_pool_usage sh - c) = charges (sh_heap sh) low"
    using c D(11) by (simp add: word_minus_nat)
  show ?thesis
    using D(1-10) x u1 unfolding lru_links_def Let_def
    by (auto simp: upd_pool_of)
qed

lemma set_pool_fun: "(\<lambda>h. SetInLowPriPool c (SetInHighPriPool b h)) = set_pool (b, c)"
  by (rule ext) (simp add: set_pool_def)

lemma lru_frame_refl [simp]: "lru_frame S sh sh"
  unfolding lru_frame_def by (metis relink_self)

lemma lru_frame_trans: "lru_frame S sh sh' \<Longrightarrow> lru_frame T sh' sh'' \<Longrightarrow> lru_frame (S \<union> T) sh sh''"
  unfolding lru_frame_def by (metis UnCI relink_relink)

lemma lru_frame_mono: "lru_frame S sh sh' \<Longrightarrow> S \<subseteq> T \<Longrightarrow> lru_frame T sh sh'"
  unfolding lru_frame_def by blast

lemma upd_pool_relink: "upd x (set_pool q) hp = relink (next_of hp) (prev_of hp) ((pool_at hp)(x := q)) hp"
proof -
  have "upd x (set_pool q) (relink (next_of hp) (prev_of hp) (pool_at hp) hp)
    = relink (next_of hp) (prev_of hp) ((pool_at hp)(x := q)) hp"
    using upd_relink(5) [of x "snd q" "fst q"] by (simp only: set_pool_fun prod.collapse)
  then show ?thesis by (simp only: relink_self)
qed

lemma lru_frame_pool:
  assumes "x \<in> S" and "sh_heap sh' = upd x (set_pool q) (sh_heap sh)" and "lru_rest sh' = lru_rest sh"
  shows "lru_frame S sh sh'"
proof -
  have "\<exists>N P Q. sh_heap sh' = relink N P Q (sh_heap sh)" unfolding assms(2) upd_pool_relink by blast
  then show ?thesis using assms by (auto simp: lru_frame_def)
qed

lemma MaintainPoolSize_high_ok:
  assumes "lru_links sh bt low hi" and "charges (sh_heap sh) (bt @ low @ hi) < 2 ^ 64"
    and "not_negative (sh_high_pri_pool_capacity sh)"
  shows "\<exists>sh' low' hi'. MaintainPoolSize_high sh = Some sh' \<and> lru_links sh' bt low' hi' \<and> low' @ hi' = low @ hi
    \<and> lru_frame (set hi) sh sh' \<and> sh_lru_usage sh' = sh_lru_usage sh
    \<and> \<not> double_less (sh_high_pri_pool_capacity sh') (double_of_u64 (sh_high_pri_pool_usage sh'))"
  using assms
proof (induction hi arbitrary: sh low)
  case Nil
  then have "sh_high_pri_pool_usage sh = 0"
    using lru_linksD(10) [OF Nil(1)] by (simp add: unat_eq_0)
  with Nil show ?case
    by (subst MaintainPoolSize_high.simps) (auto simp: not_less_not_negative)
next
  case (Cons x hi)
  note D = lru_linksD [OF Cons.prems(1)]
  show ?case
  proof (cases "double_less (sh_high_pri_pool_capacity sh) (double_of_u64 (sh_high_pri_pool_usage sh))")
    case False
    then show ?thesis using Cons.prems(1) by (subst MaintainPoolSize_high.simps) auto
  next
    case True
    let ?hp = "sh_heap sh"
    obtain p where p: "?hp (sh_lru_low_pri sh) = Some p"
      using D(4) [of "last (lru_head # bt @ low)"] last_in_set [of "lru_head # bt @ low"] D(6) by auto
    have "next_of ?hp (last (lru_head # bt @ low)) = x"
      using dlseg_next_at [of _ _ _ "bt @ low" "x # hi"] D(1) by simp
    then have px: "h_next p = x" using p D(6) by (simp add: next_of_def)
    obtain h where h: "?hp x = Some h" using D(4) [of x] by auto
    have xh: "x \<noteq> lru_head" "InHighPriPool h"
      using D(2) D(9) [of x] h by (auto simp: pool_at_def pool_of_def)
    have c: "unat (h_total_charge h) = charge_of ?hp x" using h by (simp add: charge_of_def)
    have le: "h_total_charge h \<le> sh_high_pri_pool_usage sh" using D(10) c by (simp add: word_le_nat_alt)
    let ?sh = "sh\<lparr>sh_lru_low_pri := x, sh_heap := upd x (set_pool (False, True)) ?hp,
      sh_high_pri_pool_usage := sh_high_pri_pool_usage sh - h_total_charge h,
      sh_low_pri_pool_usage := sh_low_pri_pool_usage sh + h_total_charge h\<rparr>"
    have "MaintainPoolSize_high sh = MaintainPoolSize_high ?sh"
      using True p px h xh le by (subst MaintainPoolSize_high.simps) (simp add: check_def set_pool_fun)
    moreover have links: "lru_links ?sh bt (low @ [x]) hi"
      by (rule lru_links_lower_high [OF Cons.prems(1,2) c])
    have sum: "charges (sh_heap ?sh) (bt @ (low @ [x]) @ hi) < 2 ^ 64"
      using Cons.prems(2) by (simp add: upd_pool_of)
    have cap: "not_negative (sh_high_pri_pool_capacity ?sh)" using Cons.prems(3) by simp
    note Cons.IH [OF links sum cap]
    moreover have "lru_frame {x} sh ?sh" by (rule lru_frame_pool) (simp_all add: lru_rest_def)
    ultimately show ?thesis
      using lru_frame_trans [of "{x}" sh ?sh "set hi"] by fastforce
  qed
qed

lemma MaintainPoolSize_low_ok:
  assumes "lru_links sh bt low hi" and "not_negative (sh_low_pri_pool_capacity sh)"
  shows "\<exists>sh' bt' low'. MaintainPoolSize_low sh = Some sh' \<and> lru_links sh' bt' low' hi \<and> bt' @ low' = bt @ low
    \<and> lru_frame (set low) sh sh' \<and> sh_lru_usage sh' = sh_lru_usage sh
    \<and> sh_high_pri_pool_usage sh' = sh_high_pri_pool_usage sh
    \<and> \<not> double_less (sh_low_pri_pool_capacity sh') (double_of_u64 (sh_low_pri_pool_usage sh'))"
  using assms
proof (induction low arbitrary: sh bt)
  case Nil
  then have "sh_low_pri_pool_usage sh = 0"
    using lru_linksD(11) [OF Nil(1)] by (simp add: unat_eq_0)
  with Nil show ?case
    by (subst MaintainPoolSize_low.simps) (auto simp: not_less_not_negative)
next
  case (Cons x low)
  note D = lru_linksD [OF Cons.prems(1)]
  show ?case
  proof (cases "double_less (sh_low_pri_pool_capacity sh) (double_of_u64 (sh_low_pri_pool_usage sh))")
    case False
    then show ?thesis using Cons.prems(1) by (subst MaintainPoolSize_low.simps) auto
  next
    case True
    let ?hp = "sh_heap sh"
    obtain p where p: "?hp (sh_lru_bottom_pri sh) = Some p"
      using D(4) [of "last (lru_head # bt)"] last_in_set [of "lru_head # bt"] D(5) by auto
    have "next_of ?hp (last (lru_head # bt)) = x"
      using dlseg_next_at [of _ _ _ bt "x # low @ hi"] D(1) by simp
    then have px: "h_next p = x" using p D(5) by (simp add: next_of_def)
    obtain h where h: "?hp x = Some h" using D(4) [of x] by auto
    have xh: "x \<noteq> lru_head" "InLowPriPool h"
      using D(2) D(8) [of x] h by (auto simp: pool_at_def pool_of_def)
    have c: "unat (h_total_charge h) = charge_of ?hp x" using h by (simp add: charge_of_def)
    have le: "h_total_charge h \<le> sh_low_pri_pool_usage sh" using D(11) c by (simp add: word_le_nat_alt)
    let ?sh = "sh\<lparr>sh_lru_bottom_pri := x, sh_heap := upd x (set_pool (False, False)) ?hp,
      sh_low_pri_pool_usage := sh_low_pri_pool_usage sh - h_total_charge h\<rparr>"
    have "MaintainPoolSize_low sh = MaintainPoolSize_low ?sh"
      using True p px h xh le by (subst MaintainPoolSize_low.simps) (simp add: check_def set_pool_fun)
    moreover have links: "lru_links ?sh (bt @ [x]) low hi"
      by (rule lru_links_lower_low [OF Cons.prems(1) c])
    have cap: "not_negative (sh_low_pri_pool_capacity ?sh)" using Cons.prems(2) by simp
    note Cons.IH [OF links cap]
    moreover have "lru_frame {x} sh ?sh" by (rule lru_frame_pool) (simp_all add: lru_rest_def)
    ultimately show ?thesis
      using lru_frame_trans [of "{x}" sh ?sh "set low"] by fastforce
  qed
qed

text \<open>The pools never exceed their capacities when \<^verbatim>\<open>MaintainPoolSize\<close> has run, and the order of the entries stays.\<close>

lemma MaintainPoolSize_ok:
  assumes "lru_links sh bt low hi" and "charges (sh_heap sh) (bt @ low @ hi) < 2 ^ 64"
    and "not_negative (sh_high_pri_pool_capacity sh)" and "not_negative (sh_low_pri_pool_capacity sh)"
  shows "\<exists>sh' bt' low' hi'. MaintainPoolSize sh = Some sh' \<and> lru_links sh' bt' low' hi'
    \<and> bt' @ low' @ hi' = bt @ low @ hi \<and> lru_frame (set (bt @ low @ hi)) sh sh' \<and> sh_lru_usage sh' = sh_lru_usage sh
    \<and> \<not> double_less (sh_high_pri_pool_capacity sh') (double_of_u64 (sh_high_pri_pool_usage sh'))
    \<and> \<not> double_less (sh_low_pri_pool_capacity sh') (double_of_u64 (sh_low_pri_pool_usage sh'))"
proof -
  obtain sh1 low1 hi1 where h: "MaintainPoolSize_high sh = Some sh1" "lru_links sh1 bt low1 hi1" "low1 @ hi1 = low @ hi"
      "lru_frame (set hi) sh sh1" "sh_lru_usage sh1 = sh_lru_usage sh"
      "\<not> double_less (sh_high_pri_pool_capacity sh1) (double_of_u64 (sh_high_pri_pool_usage sh1))"
    using MaintainPoolSize_high_ok [OF assms(1-3)] by blast
  have "not_negative (sh_low_pri_pool_capacity sh1)" using assms(4) lru_frame_rest(11) [OF h(4)] by simp
  then obtain sh2 bt2 low2 where l: "MaintainPoolSize_low sh1 = Some sh2" "lru_links sh2 bt2 low2 hi1" "bt2 @ low2 = bt @ low1"
      "lru_frame (set low1) sh1 sh2" "sh_lru_usage sh2 = sh_lru_usage sh1"
      "sh_high_pri_pool_usage sh2 = sh_high_pri_pool_usage sh1"
      "\<not> double_less (sh_low_pri_pool_capacity sh2) (double_of_u64 (sh_low_pri_pool_usage sh2))"
    using MaintainPoolSize_low_ok [OF h(2)] by blast
  have "bt2 @ low2 @ hi1 = bt @ low @ hi" using h(3) l(3) by (metis append.assoc)
  moreover have "lru_frame (set (bt @ low @ hi)) sh sh2"
  proof (rule lru_frame_mono [OF lru_frame_trans [OF h(4) l(4)]])
    have "set low1 \<subseteq> set (low @ hi)" using h(3) by (metis Un_upper1 set_append)
    then show "set hi \<union> set low1 \<subseteq> set (bt @ low @ hi)" by auto
  qed
  moreover have "sh_high_pri_pool_capacity sh2 = sh_high_pri_pool_capacity sh1" using lru_frame_rest(10) [OF l(4)] .
  ultimately show ?thesis using h l by (auto simp: MaintainPoolSize_def)
qed

section \<open>Linking an entry\<close>

definition link_in :: "addr \<Rightarrow> addr \<Rightarrow> addr \<Rightarrow> bool \<times> bool \<Rightarrow> heap \<Rightarrow> heap" where
  "link_in p n e q hp = upd e (set_pool q) (upd n (h_prev_update (\<lambda>_. e)) (upd p (h_next_update (\<lambda>_. e))
     (upd e (\<lambda>h. h\<lparr>h_next := n, h_prev := p\<rparr>) hp)))"

lemma link_in_relink:
  "link_in p n e q hp = relink ((next_of hp)(e := n, p := e)) ((prev_of hp)(e := p, n := e)) ((pool_at hp)(e := q)) hp"
proof -
  have "link_in p n e q (relink (next_of hp) (prev_of hp) (pool_at hp) hp)
    = relink ((next_of hp)(e := n, p := e)) ((prev_of hp)(e := p, n := e)) ((pool_at hp)(e := q)) hp"
    using upd_relink(5) [of e "snd q" "fst q"] by (simp only: link_in_def upd_relink set_pool_fun prod.collapse)
  then show ?thesis by (simp only: relink_self)
qed

lemma link_in_links:
  fixes us vs :: "addr list"
  assumes ok: "lru_links sh bt low hi" and L: "bt @ low @ hi = us @ vs"
    and e: "e \<notin> set (lru_head # us @ vs)" "e \<noteq> nullptr" "sh_heap sh e \<noteq> None"
    and L': "bt' @ low' @ hi' = us @ e # vs"
    and heap: "sh_heap sh' = link_in (last (lru_head # us)) (hd (vs @ [lru_head])) e q (sh_heap sh)"
    and ptr: "sh_lru_bottom_pri sh' = last (lru_head # bt')" "sh_lru_low_pri sh' = last (lru_head # bt' @ low')"
    and pools: "\<And>a. a \<in> set bt' \<Longrightarrow> ((pool_at (sh_heap sh))(e := q)) a = (False, False)"
      "\<And>a. a \<in> set low' \<Longrightarrow> ((pool_at (sh_heap sh))(e := q)) a = (False, True)"
      "\<And>a. a \<in> set hi' \<Longrightarrow> ((pool_at (sh_heap sh))(e := q)) a = (True, False)"
    and usage: "unat (sh_high_pri_pool_usage sh') = charges (sh_heap sh) hi'"
      "unat (sh_low_pri_pool_usage sh') = charges (sh_heap sh) low'"
  shows "lru_links sh' bt' low' hi'"
proof -
  define p where "p = last (lru_head # us)"
  define n where "n = hd (vs @ [lru_head])"
  let ?hp = "sh_heap sh"
  let ?N = "(next_of ?hp)(e := n, p := e)" and ?P = "(prev_of ?hp)(e := p, n := e)" and ?Q = "(pool_at ?hp)(e := q)"
  have hp': "sh_heap sh' = relink ?N ?P ?Q ?hp" using heap unfolding link_in_relink p_def n_def .
  note D = lru_linksD [OF ok, unfolded L]
  have al: "?hp a \<noteq> None" if "a \<in> set (lru_head # us @ e # vs)" for a
    using D(4) [of a] that e(3) by auto
  have rl: "next_of (sh_heap sh') a = ?N a" "prev_of (sh_heap sh') a = ?P a"
    "pool_at (sh_heap sh') a = ?Q a" "charge_of (sh_heap sh') a = charge_of ?hp a"
    if "a \<in> set (lru_head # us @ e # vs)" for a
    unfolding hp' using relink_of [where hp = ?hp and N = ?N and P = ?P and Q = ?Q, OF al [OF that]] by simp_all
  have "dlseg (next_of (sh_heap sh')) (prev_of (sh_heap sh')) lru_head (us @ e # vs) lru_head"
  proof (rule dlseg_insert [OF D(1)], unfold p_def [symmetric] n_def [symmetric])
    show "next_of (sh_heap sh') y = (if y = p then e else if y = e then n else next_of ?hp y)"
      if "y \<in> set (lru_head # us @ e # vs)" for y using rl(1) [OF that] by auto
    show "prev_of (sh_heap sh') y = (if y = n then e else if y = e then p else prev_of ?hp y)"
      if "y \<in> set (us @ e # vs @ [lru_head])" for y using rl(2) [of y] that by auto
  qed (use D(2) e in auto)
  moreover have sub: "set bt' \<subseteq> set (us @ e # vs)" "set low' \<subseteq> set (us @ e # vs)" "set hi' \<subseteq> set (us @ e # vs)"
    using L' by (metis Un_iff set_append subsetI)+
  have ch: "charges (sh_heap sh') as = charges ?hp as" if "set as \<subseteq> set (us @ e # vs)" for as
    using that rl(4) by (intro charges_cong) auto
  have P: "pool_at (sh_heap sh') a = ?Q a" if "a \<in> set (us @ e # vs)" for a using rl(3) [of a] that by simp
  have "sh_heap sh' a \<noteq> None" if "a \<in> set (lru_head # us @ e # vs)" for a
    using al [OF that] unfolding hp' by simp
  moreover have "distinct (lru_head # us @ e # vs)" "nullptr \<notin> set (us @ e # vs)" using D(2,3) e by auto
  ultimately show ?thesis
    unfolding lru_links_def Let_def L'
    using ptr usage ch [OF sub(2)] ch [OF sub(3)] pools P sub by (simp add: subset_iff)
qed

lemma lru_frame_link:
  assumes "sh_heap sh' = link_in p n e q (sh_heap sh)" and "{p, n, e} \<subseteq> S" and "lru_rest sh' = lru_rest sh"
  shows "lru_frame S sh sh'"
proof -
  have "\<exists>N P Q. sh_heap sh' = relink N P Q (sh_heap sh)" unfolding assms(1) link_in_relink by blast
  moreover have "sh_heap sh' a = sh_heap sh a" if "a \<notin> S" for a
    using that assms(1,2) by (auto simp: link_in_def)
  ultimately show ?thesis using assms(3) by (simp add: lru_frame_def)
qed

lemma lru_links_usage [simp]: "lru_links (sh\<lparr>sh_lru_usage := u\<rparr>) bt low hi = lru_links sh bt low hi"
  by (simp add: lru_links_def)

lemma lru_frame_usage: "lru_frame S sh sh' \<Longrightarrow> lru_frame S sh (sh'\<lparr>sh_lru_usage := u\<rparr>)"
  by (simp add: lru_frame_def lru_rest_def)

lemma charges_frame:
  assumes "lru_frame S sh sh'"
  shows "charge_of (sh_heap sh') = charge_of (sh_heap sh)" and "charges (sh_heap sh') as = charges (sh_heap sh) as"
proof -
  obtain N P Q where r: "sh_heap sh' = relink N P Q (sh_heap sh)" using assms by (auto simp: lru_frame_def)
  show c: "charge_of (sh_heap sh') = charge_of (sh_heap sh)"
  proof (rule ext)
    show "charge_of (sh_heap sh') a = charge_of (sh_heap sh) a" for a
      unfolding r by (cases "sh_heap sh a") (auto simp: charge_of_def relink_def)
  qed
  then show "charges (sh_heap sh') as = charges (sh_heap sh) as" by (simp add: charges_def)
qed

text \<open>The three places where an entry is linked: at the newest end of the high, the low or the bottom pool.\<close>

lemma link_high:
  assumes ok: "lru_links sh bt low hi" and h: "sh_heap sh e = Some h"
    and e: "e \<notin> set (lru_head # bt @ low @ hi)" "e \<noteq> nullptr"
    and sum: "charges (sh_heap sh) (bt @ low @ hi) + unat (h_total_charge h) < 2 ^ 64"
  shows "lru_links (sh\<lparr>sh_heap := link_in (last (lru_head # bt @ low @ hi)) lru_head e (True, False) (sh_heap sh),
    sh_high_pri_pool_usage := sh_high_pri_pool_usage sh + h_total_charge h\<rparr>) bt low (hi @ [e])"
proof -
  note D = lru_linksD [OF ok]
  have "unat (sh_high_pri_pool_usage sh + h_total_charge h) = charges (sh_heap sh) (hi @ [e])"
    using D(10) sum h by (simp add: unat_word_ariths charge_of_def)
  then show ?thesis
    by (intro link_in_links [where sh = sh and us = "bt @ low @ hi" and vs = "[]" and e = e and q = "(True, False)", OF ok])
      (use D e h in auto)
qed

lemma link_low:
  assumes ok: "lru_links sh bt low hi" and h: "sh_heap sh e = Some h"
    and e: "e \<notin> set (lru_head # bt @ low @ hi)" "e \<noteq> nullptr"
    and sum: "charges (sh_heap sh) (bt @ low @ hi) + unat (h_total_charge h) < 2 ^ 64"
  shows "lru_links (sh\<lparr>sh_heap := link_in (last (lru_head # bt @ low)) (hd (hi @ [lru_head])) e (False, True) (sh_heap sh),
    sh_low_pri_pool_usage := sh_low_pri_pool_usage sh + h_total_charge h, sh_lru_low_pri := e\<rparr>) bt (low @ [e]) hi"
proof -
  note D = lru_linksD [OF ok]
  have "unat (sh_low_pri_pool_usage sh + h_total_charge h) = charges (sh_heap sh) (low @ [e])"
    using D(11) sum h by (simp add: unat_word_ariths charge_of_def)
  then show ?thesis
    by (intro link_in_links [where sh = sh and us = "bt @ low" and vs = hi and e = e and q = "(False, True)", OF ok])
      (use D e h in auto)
qed

lemma link_bottom:
  assumes ok: "lru_links sh bt low hi" and h: "sh_heap sh e = Some h"
    and e: "e \<notin> set (lru_head # bt @ low @ hi)" "e \<noteq> nullptr"
  shows "lru_links (sh\<lparr>sh_heap := link_in (last (lru_head # bt)) (hd ((low @ hi) @ [lru_head])) e (False, False) (sh_heap sh),
    sh_lru_low_pri := (if sh_lru_bottom_pri sh = sh_lru_low_pri sh then e else sh_lru_low_pri sh),
    sh_lru_bottom_pri := e\<rparr>) (bt @ [e]) low hi"
proof -
  note D = lru_linksD [OF ok]
  have "last (lru_head # bt) = last (lru_head # bt @ low) \<longleftrightarrow> low = []"
  proof (cases "low = []")
    case False
    then have "last (lru_head # bt @ low) \<in> set low" by simp
    moreover have "last (lru_head # bt) \<in> set (lru_head # bt)" by (rule last_in_set) simp
    ultimately show ?thesis using D(2) False by (metis Un_iff disjoint_iff distinct.simps(2) distinct_append set_ConsD set_append)
  qed simp
  then have "(if sh_lru_bottom_pri sh = sh_lru_low_pri sh then e else sh_lru_low_pri sh) = last (lru_head # (bt @ [e]) @ low)"
    using D(5,6) by (cases "low = []") simp_all
  then show ?thesis
    by (intro link_in_links [where sh = sh and us = bt and vs = "low @ hi" and e = e and q = "(False, False)", OF ok])
      (use D e h in auto)
qed

lemma LRU_Insert_run:
  assumes ok: "lru_links sh bt low hi" and h: "sh_heap sh e = Some h" "h_next h = nullptr" "h_prev h = nullptr"
    and e: "e \<notin> set (lru_head # bt @ low @ hi)"
  shows "LRU_Insert sh e = do {
    sh \<leftarrow>
      (if double_less double_zero (sh_high_pri_pool_ratio sh) \<and> (IsHighPri h \<or> HasHit h) then
         MaintainPoolSize (sh\<lparr>sh_heap := link_in (last (lru_head # bt @ low @ hi)) lru_head e (True, False) (sh_heap sh),
           sh_high_pri_pool_usage := sh_high_pri_pool_usage sh + h_total_charge h\<rparr>)
       else if double_less double_zero (sh_low_pri_pool_ratio sh) \<and> (IsHighPri h \<or> IsLowPri h \<or> HasHit h) then
         MaintainPoolSize (sh\<lparr>sh_heap := link_in (last (lru_head # bt @ low)) (hd (hi @ [lru_head])) e (False, True) (sh_heap sh),
           sh_low_pri_pool_usage := sh_low_pri_pool_usage sh + h_total_charge h, sh_lru_low_pri := e\<rparr>)
       else
         Some (sh\<lparr>sh_heap := link_in (last (lru_head # bt)) (hd ((low @ hi) @ [lru_head])) e (False, False) (sh_heap sh),
           sh_lru_low_pri := (if sh_lru_bottom_pri sh = sh_lru_low_pri sh then e else sh_lru_low_pri sh),
           sh_lru_bottom_pri := e\<rparr>));
    Some (sh\<lparr>sh_lru_usage := sh_lru_usage sh + h_total_charge h\<rparr>) }"
proof -
  note D = lru_linksD [OF ok]
  let ?hp = "sh_heap sh"
  have live: "?hp a \<noteq> None" "e \<noteq> a" if "a \<in> set (lru_head # bt @ low @ hi)" for a
    using D(4) [OF that] that e by auto
  have l: "last (lru_head # xs) \<in> set (lru_head # bt @ low @ hi)" if "set xs \<subseteq> set (bt @ low @ hi)" for xs
    using last_in_set [of "lru_head # xs"] that by auto
  have n: "hd (xs @ [lru_head]) \<in> set (lru_head # bt @ low @ hi)" if "set xs \<subseteq> set (bt @ low @ hi)" for xs
    using hd_in_set [of "xs @ [lru_head]"] that by auto
  obtain h0 where h0: "?hp lru_head = Some h0" "h_prev h0 = last (lru_head # bt @ low @ hi)"
    using live(1) [of lru_head] dlseg_prev [OF D(1)] by (auto simp: prev_of_def)
  obtain p where p: "?hp (last (lru_head # bt @ low)) = Some p" "h_next p = hd (hi @ [lru_head])"
    using live(1) [OF l, of "bt @ low"] dlseg_next_at [of _ _ _ "bt @ low" hi] D(1) by (auto simp: next_of_def)
  obtain q where q: "?hp (last (lru_head # bt)) = Some q" "h_next q = hd ((low @ hi) @ [lru_head])"
    using live(1) [OF l, of bt] dlseg_next_at [of _ _ _ bt "low @ hi"] D(1) by (auto simp: next_of_def)
  have f: "?hp (last (lru_head # xs)) \<noteq> None" "e \<noteq> last (lru_head # xs)" "last (lru_head # xs) \<noteq> e"
      "?hp (hd (xs @ [lru_head])) \<noteq> None" "e \<noteq> hd (xs @ [lru_head])" "hd (xs @ [lru_head]) \<noteq> e"
    if "set xs \<subseteq> set (bt @ low @ hi)" for xs
    using live [OF l [OF that]] live [OF n [OF that]] by (simp_all only: not_False_eq_True)
  have S: "set (bt @ low @ hi) \<subseteq> set (bt @ low @ hi)" "set (bt @ low) \<subseteq> set (bt @ low @ hi)"
      "set bt \<subseteq> set (bt @ low @ hi)" "set hi \<subseteq> set (bt @ low @ hi)" "set (low @ hi) \<subseteq> set (bt @ low @ hi)" by auto
  have g: "e \<noteq> lru_head" "lru_head \<noteq> e" using e by auto
  show ?thesis
    unfolding LRU_Insert_def
    using h h0 p q D(5,6) f [OF S(1)] f [OF S(2)] f [OF S(3)] f [OF S(4)] f [OF S(5)] g
    by (auto simp: check_def Let_def link_in_def set_pool_fun simp del: last.simps)
qed

lemma LRU_Insert_ok:
  assumes ok: "lru_ok sh bt low hi" and h: "sh_heap sh e = Some h" "h_next h = nullptr" "h_prev h = nullptr"
    and e: "e \<notin> set (lru_head # bt @ low @ hi)" "e \<noteq> nullptr"
    and sum: "charges (sh_heap sh) (bt @ low @ hi) + unat (h_total_charge h) < 2 ^ 64"
    and cap: "not_negative (sh_high_pri_pool_capacity sh)" "not_negative (sh_low_pri_pool_capacity sh)"
  shows "\<exists>sh' bt' low' hi' us vs. LRU_Insert sh e = Some sh' \<and> lru_ok sh' bt' low' hi'
    \<and> bt @ low @ hi = us @ vs \<and> bt' @ low' @ hi' = us @ e # vs
    \<and> lru_frame (set (lru_head # e # bt @ low @ hi)) sh sh'"
proof -
  let ?hp = "sh_heap sh" and ?S = "set (lru_head # e # bt @ low @ hi)"
  note D = lru_linksD [OF lru_okD(1) [OF ok]] and use = lru_okD(2) [OF ok]
  have c: "charge_of ?hp e = unat (h_total_charge h)" using h by (simp add: charge_of_def)
  have fin: ?thesis
    if r: "LRU_Insert sh e = Some (sh2\<lparr>sh_lru_usage := sh_lru_usage sh2 + h_total_charge h\<rparr>)"
      and l: "lru_links sh2 bt' low' hi'" and f: "lru_frame ?S sh sh2" and u: "sh_lru_usage sh2 = sh_lru_usage sh"
      and L: "bt @ low @ hi = us @ vs" "bt' @ low' @ hi' = us @ e # vs" for sh2 bt' low' hi' us vs
  proof -
    have "charges ?hp (bt' @ low' @ hi') = charges ?hp (bt @ low @ hi) + charge_of ?hp e"
      unfolding L by simp
    then have "lru_ok (sh2\<lparr>sh_lru_usage := sh_lru_usage sh2 + h_total_charge h\<rparr>) bt' low' hi'"
      using l use sum c u charges_frame(2) [OF f, of "bt' @ low' @ hi'"]
      by (simp add: lru_ok_def unat_word_ariths)
    then show ?thesis using r f L lru_frame_usage by blast
  qed
  note run = LRU_Insert_run [OF lru_okD(1) [OF ok] h e(1)]
  have maintain: ?thesis
    if r: "LRU_Insert sh e = Option.bind (MaintainPoolSize sh1) (\<lambda>sh. Some (sh\<lparr>sh_lru_usage := sh_lru_usage sh + h_total_charge h\<rparr>))"
      and l: "lru_links sh1 b1 l1 h1" and f: "lru_frame ?S sh sh1" and u: "sh_lru_usage sh1 = sh_lru_usage sh"
      and L: "bt @ low @ hi = us @ vs" "b1 @ l1 @ h1 = us @ e # vs" for sh1 b1 l1 h1 us vs
  proof -
    have "charges (sh_heap sh1) (b1 @ l1 @ h1) = charges ?hp (bt @ low @ hi) + charge_of ?hp e"
      unfolding L by (simp add: charges_frame [OF f])
    then have "charges (sh_heap sh1) (b1 @ l1 @ h1) < 2 ^ 64" using sum c by simp
    moreover have "not_negative (sh_high_pri_pool_capacity sh1)" "not_negative (sh_low_pri_pool_capacity sh1)"
      using cap lru_frame_rest [OF f] by simp_all
    ultimately obtain sh2 b2 l2 h2 where m: "MaintainPoolSize sh1 = Some sh2" "lru_links sh2 b2 l2 h2"
        "b2 @ l2 @ h2 = b1 @ l1 @ h1" "lru_frame (set (b1 @ l1 @ h1)) sh1 sh2" "sh_lru_usage sh2 = sh_lru_usage sh1"
      using MaintainPoolSize_ok [OF l] by blast
    have S: "set (us @ vs) \<subseteq> ?S" using L(1) by (metis set_append set_subset_Cons order_trans)
    have "set (b1 @ l1 @ h1) \<subseteq> ?S" unfolding L(2) using S by auto
    then have "lru_frame ?S sh sh2" using lru_frame_trans [OF f m(4)] by (simp only: Un_absorb2)
    moreover have "LRU_Insert sh e = Some (sh2\<lparr>sh_lru_usage := sh_lru_usage sh2 + h_total_charge h\<rparr>)" using r m(1) by simp
    moreover have "b2 @ l2 @ h2 = us @ e # vs" using m(3) L(2) by simp
    ultimately show ?thesis using fin [of sh2 b2 l2 h2 us vs] m(2,5) u L(1) by simp
  qed
  have last: "last (lru_head # xs) \<in> ?S" and hd: "hd (xs @ [lru_head]) \<in> ?S" if "set xs \<subseteq> set (bt @ low @ hi)" for xs
    using last_in_set [of "lru_head # xs"] hd_in_set [of "xs @ [lru_head]"] that by auto
  note link = lru_okD(1) [OF ok] h(1) e
  consider (high) "double_less double_zero (sh_high_pri_pool_ratio sh) \<and> (IsHighPri h \<or> HasHit h)"
    | (low) "\<not> (double_less double_zero (sh_high_pri_pool_ratio sh) \<and> (IsHighPri h \<or> HasHit h))"
        "double_less double_zero (sh_low_pri_pool_ratio sh) \<and> (IsHighPri h \<or> IsLowPri h \<or> HasHit h)"
    | (bottom) "\<not> (double_less double_zero (sh_high_pri_pool_ratio sh) \<and> (IsHighPri h \<or> HasHit h))"
        "\<not> (double_less double_zero (sh_low_pri_pool_ratio sh) \<and> (IsHighPri h \<or> IsLowPri h \<or> HasHit h))"
    by blast
  then show ?thesis
  proof cases
    case high
    have "{last (lru_head # bt @ low @ hi), lru_head, e} \<subseteq> ?S" using last [of "bt @ low @ hi"] by simp
    from lru_frame_link [OF _ this] show ?thesis
      by (intro maintain [where us = "bt @ low @ hi" and vs = "[]",
            OF run [unfolded if_P [OF high]] link_high [OF link sum]]) (simp_all add: lru_rest_def)
  next
    case low
    have "{last (lru_head # bt @ low), hd (hi @ [lru_head]), e} \<subseteq> ?S" using last [of "bt @ low"] hd [of hi] by (simp del: last.simps) blast
    from lru_frame_link [OF _ this] show ?thesis
      by (intro maintain [where us = "bt @ low" and vs = hi,
            OF run [unfolded if_not_P [OF low(1)] if_P [OF low(2)]] link_low [OF link sum]]) (simp_all add: lru_rest_def)
  next
    case bottom
    have "{last (lru_head # bt), hd ((low @ hi) @ [lru_head]), e} \<subseteq> ?S" using last [of bt] hd [of "low @ hi"] by (simp del: last.simps)
    from lru_frame_link [OF _ this] show ?thesis
      by (intro fin [where us = bt and vs = "low @ hi",
            OF run [unfolded if_not_P [OF bottom(1)] if_not_P [OF bottom(2)] bind.bind_lunit] link_bottom [OF link]])
        (simp_all add: lru_rest_def)
  qed
qed

end
