(* ===== verification/Lru_Shard.thy ===== *)
theory Lru_Shard
  imports Lru_List
begin

text \<open>
  The invariant of an LRU cache shard. It is stated for states in the middle of an operation as well:
  the entries in a set \<open>D\<close> are exempt (an entry that is being created, looked up or evicted), and \<open>x\<close> is
  the part of the usage that stands for them.
\<close>

section \<open>The invariant\<close>

definition entry_ok :: "addr set \<Rightarrow> addr set \<Rightarrow> addr \<Rightarrow> LRUHandle \<Rightarrow> bool" where
  "entry_ok A L a h \<longleftrightarrow>
     (InCache h \<longleftrightarrow> a \<in> A) \<and> (h_refs h = 0 \<longleftrightarrow> a \<in> L) \<and> (a \<in> L \<longrightarrow> a \<in> A)
     \<and> (h_refs h \<noteq> 0 \<longrightarrow> h_next h = nullptr \<and> h_prev h = nullptr)"

definition config_ok :: "LRUCacheShard \<Rightarrow> bool" where
  "config_ok sh \<longleftrightarrow>
     not_negative (sh_high_pri_pool_ratio sh) \<and> not_negative (sh_low_pri_pool_ratio sh)
     \<and> not_negative (sh_high_pri_pool_capacity sh) \<and> not_negative (sh_low_pri_pool_capacity sh)"

definition shard_inv :: "LRUCacheShard \<Rightarrow> addr set \<Rightarrow> nat \<Rightarrow> addr list \<Rightarrow> addr list \<Rightarrow> addr list \<Rightarrow> addr set \<Rightarrow> bool" where
  "shard_inv sh D x bt low hi A \<longleftrightarrow>
     lru_ok sh bt low hi \<and> table_holds (sh_table sh) (sh_heap sh) A
     \<and> sh_heap sh nullptr = None \<and> finite (dom (sh_heap sh)) \<and> D \<subseteq> dom (sh_heap sh) - {lru_head} \<and> lru_head \<notin> A
     \<and> (\<forall>a h. sh_heap sh a = Some h \<longrightarrow> a \<noteq> lru_head \<longrightarrow> a \<notin> D \<longrightarrow> entry_ok A (set (bt @ low @ hi)) a h)
     \<and> unat (sh_usage sh) = (\<Sum>a \<in> dom (sh_heap sh) - insert lru_head D. charge_of (sh_heap sh) a) + x
     \<and> config_ok sh"

lemma invD:
  assumes "shard_inv sh D x bt low hi A"
  shows "lru_ok sh bt low hi" and "table_holds (sh_table sh) (sh_heap sh) A" and "sh_heap sh nullptr = None"
    and "finite (dom (sh_heap sh))" and "D \<subseteq> dom (sh_heap sh) - {lru_head}" and "lru_head \<notin> A"
    and "\<And>a h. sh_heap sh a = Some h \<Longrightarrow> a \<noteq> lru_head \<Longrightarrow> a \<notin> D \<Longrightarrow> entry_ok A (set (bt @ low @ hi)) a h"
    and "unat (sh_usage sh) = (\<Sum>a \<in> dom (sh_heap sh) - insert lru_head D. charge_of (sh_heap sh) a) + x"
    and "config_ok sh"
  using assms unfolding shard_inv_def by blast+

text \<open>What an entry shows to its holders: all but its links and its pool.\<close>

definition pub :: "LRUHandle \<Rightarrow> LRUHandle" where
  "pub h = (set_pool (False, False) h)\<lparr>h_next_hash := nullptr, h_next := nullptr, h_prev := nullptr\<rparr>"

definition same_pub :: "addr set \<Rightarrow> heap \<Rightarrow> heap \<Rightarrow> bool" where
  "same_pub D hp hp' \<longleftrightarrow> (\<forall>a. a \<notin> D \<longrightarrow> map_option pub (hp' a) = map_option pub (hp a))"

text \<open>The settings of a shard, which only the setters change, and the record of callbacks.\<close>

definition settings :: "LRUCacheShard \<Rightarrow> LRUCacheShard" where
  "settings sh = (lru_rest sh)\<lparr>sh_table := LRUHandleTable_new 0, sh_usage := 0\<rparr>"

definition keeps :: "addr set \<Rightarrow> LRUCacheShard \<Rightarrow> LRUCacheShard \<Rightarrow> bool" where
  "keeps D sh sh' \<longleftrightarrow> same_pub D (sh_heap sh) (sh_heap sh') \<and> settings sh' = settings sh"

lemma keeps_refl [simp]: "keeps D sh sh"
  by (simp add: keeps_def same_pub_def)

lemma keeps_trans: "keeps D sh sh' \<Longrightarrow> keeps D' sh' sh'' \<Longrightarrow> keeps (D \<union> D') sh sh''"
  by (simp add: keeps_def same_pub_def)

lemma keeps_mono: "keeps D sh sh' \<Longrightarrow> D \<subseteq> D' \<Longrightarrow> keeps D' sh sh'"
  by (auto simp: keeps_def same_pub_def)

lemma keeps_settings:
  assumes "keeps D sh sh'"
  shows "sh_capacity sh' = sh_capacity sh" "sh_strict_capacity_limit sh' = sh_strict_capacity_limit sh"
    "sh_calls sh' = sh_calls sh" "sh_eviction_callback sh' = sh_eviction_callback sh"
    "sh_metadata_charge_policy sh' = sh_metadata_charge_policy sh"
    "sh_high_pri_pool_ratio sh' = sh_high_pri_pool_ratio sh" "sh_low_pri_pool_ratio sh' = sh_low_pri_pool_ratio sh"
    "sh_high_pri_pool_capacity sh' = sh_high_pri_pool_capacity sh"
    "sh_low_pri_pool_capacity sh' = sh_low_pri_pool_capacity sh"
  using assms by (cases sh; cases sh'; auto simp: keeps_def settings_def lru_rest_def)+

lemma pub_eqD:
  assumes "pub h' = pub h"
  shows "h_value h' = h_value h" "h_helper h' = h_helper h" "h_total_charge h' = h_total_charge h"
    "handle_key h' = handle_key h" "h_hash h' = h_hash h" "h_refs h' = h_refs h" "InCache h' = InCache h"
    "HasHit h' = HasHit h"
proof -
  have "\<And>n. n \<noteq> 2 \<Longrightarrow> n \<noteq> 3 \<Longrightarrow> bit (h_m_flags (set_pool (False, False) h')) n = bit (h_m_flags (set_pool (False, False) h)) n"
    using arg_cong [OF assms, of h_m_flags] by (simp add: pub_def)
  then show "InCache h' = InCache h" "HasHit h' = HasHit h" by (simp_all add: handle_flag_tests bit_set_pool)
  show "h_value h' = h_value h" "h_helper h' = h_helper h" "h_total_charge h' = h_total_charge h"
    "handle_key h' = handle_key h" "h_hash h' = h_hash h" "h_refs h' = h_refs h"
    using arg_cong [OF assms, of h_value] arg_cong [OF assms, of h_helper] arg_cong [OF assms, of h_total_charge]
      arg_cong [OF assms, of h_key_length] arg_cong [OF assms, of h_key_data] arg_cong [OF assms, of h_hash]
      arg_cong [OF assms, of h_refs] by (simp_all add: pub_def handle_key_def)
qed

lemma pub_relink: "pub ((set_pool q h)\<lparr>h_next := n, h_prev := p\<rparr>) = pub h"
  by (simp add: pub_def)

lemma pub_link: "pub (h\<lparr>h_next_hash := v\<rparr>) = pub h"
  by (simp add: pub_def set_pool_def SetInLowPriPool_def SetInHighPriPool_def)

lemma keeps_lru_frame: "lru_frame S sh sh' \<Longrightarrow> keeps D sh sh'"
proof -
  assume f: "lru_frame S sh sh'"
  then obtain N P Q where r: "sh_heap sh' = relink N P Q (sh_heap sh)" by (auto simp: lru_frame_def)
  have "settings sh' = settings sh"
    using f by (simp add: lru_frame_def settings_def)
  then show ?thesis
    unfolding keeps_def same_pub_def r by (simp add: relink_def option.map_comp comp_def pub_relink)
qed

lemma same_pub_links: "same_but_links hp hp' \<Longrightarrow> same_pub D hp hp'"
  unfolding same_pub_def
proof (intro allI impI)
  fix a
  assume s: "same_but_links hp hp'"
  show "map_option pub (hp' a) = map_option pub (hp a)"
  proof (cases "hp a")
    case None
    then show ?thesis using same_but_links_None [OF s] by simp
  next
    case (Some h)
    with s obtain v where "hp' a = Some (h\<lparr>h_next_hash := v\<rparr>)" by (rule same_but_links_Some)
    with Some show ?thesis by (simp add: pub_link)
  qed
qed

section \<open>Steps that keep the invariant\<close>

abbreviation the_charge :: "LRUCacheShard \<Rightarrow> addr \<Rightarrow> nat" where
  "the_charge sh a \<equiv> charge_of (sh_heap sh) a"

lemma inv_exempt:
  assumes "shard_inv sh D x bt low hi A" and "sh_heap sh a \<noteq> None" and "a \<noteq> lru_head" and "a \<notin> D"
  shows "shard_inv sh (insert a D) (x + the_charge sh a) bt low hi A"
proof -
  note I = invD [OF assms(1)]
  have eq: "dom (sh_heap sh) - insert lru_head D = insert a (dom (sh_heap sh) - insert lru_head (insert a D))"
    using assms(2-4) by auto
  have "(\<Sum>b \<in> dom (sh_heap sh) - insert lru_head D. charge_of (sh_heap sh) b)
    = the_charge sh a + (\<Sum>b \<in> dom (sh_heap sh) - insert lru_head (insert a D). charge_of (sh_heap sh) b)"
    unfolding eq using I(4) by (subst sum.insert) simp_all
  then have "unat (sh_usage sh) = (\<Sum>b \<in> dom (sh_heap sh) - insert lru_head (insert a D). charge_of (sh_heap sh) b)
      + (x + the_charge sh a)" using I(8) by simp
  then show ?thesis
    using I(1-7,9) assms(2,3) unfolding shard_inv_def by auto
qed

lemma inv_absorb:
  assumes "shard_inv sh D x bt low hi A" and "a \<in> D" and "sh_heap sh a = Some h"
    and "entry_ok A (set (bt @ low @ hi)) a h" and "the_charge sh a \<le> x"
  shows "shard_inv sh (D - {a}) (x - the_charge sh a) bt low hi A"
proof -
  note I = invD [OF assms(1)]
  have "a \<noteq> lru_head" using I(5) assms(2) by auto
  then have eq: "dom (sh_heap sh) - insert lru_head (D - {a}) = insert a (dom (sh_heap sh) - insert lru_head D)"
    using assms(2,3) by auto
  have "(\<Sum>b \<in> dom (sh_heap sh) - insert lru_head (D - {a}). charge_of (sh_heap sh) b)
    = the_charge sh a + (\<Sum>b \<in> dom (sh_heap sh) - insert lru_head D. charge_of (sh_heap sh) b)"
    unfolding eq using I(4) assms(2) by (subst sum.insert) simp_all
  then have u: "unat (sh_usage sh) = (\<Sum>b \<in> dom (sh_heap sh) - insert lru_head (D - {a}). charge_of (sh_heap sh) b)
      + (x - the_charge sh a)" using I(8) assms(5) by simp
  have "entry_ok A (set (bt @ low @ hi)) b g" if "sh_heap sh b = Some g" "b \<noteq> lru_head" "b \<notin> D - {a}" for b g
    using I(7) [of b g] that assms(3,4) by (cases "b = a") auto
  then show ?thesis
    using I(1-6,9) u unfolding shard_inv_def by blast
qed

lemma entry_ok_cong:
  assumes "InCache h' = InCache h" "h_refs h' = h_refs h" "h_refs h \<noteq> 0 \<Longrightarrow> h_next h' = h_next h \<and> h_prev h' = h_prev h"
    and "a \<in> A' \<longleftrightarrow> a \<in> A" and "a \<in> L' \<longleftrightarrow> a \<in> L" and "entry_ok A L a h"
  shows "entry_ok A' L' a h'"
  using assms by (auto simp: entry_ok_def)

definition table_view :: "LRUHandle \<Rightarrow> addr \<times> u32 \<times> bytes" where
  "table_view h = (h_next_hash h, h_hash h, handle_key h)"

lemma table_holds_alive:
  assumes "table_holds tb hp A" and "a \<in> A"
  shows "a \<noteq> nullptr" and "hp a \<noteq> None"
proof -
  obtain bs where bs: "table_of tb hp bs" "set (concat bs) = A" using assms(1) by (auto simp: table_holds_def)
  obtain b where "b \<in> set bs" "a \<in> set b" using assms(2) bs(2) by auto
  then obtain i where i: "i < length bs" "a \<in> set (bs ! i)" by (metis in_set_conv_nth)
  then have "chain hp (tb_list tb ! i) (bs ! i)" using bs(1) by (simp add: table_of_def buckets_def)
  from chain_alive [OF this i(2)] show "a \<noteq> nullptr" and "hp a \<noteq> None" by simp_all
qed

lemma table_holds_cong:
  assumes "table_holds tb hp A" and "\<And>a. a \<in> A \<Longrightarrow> map_option table_view (hp' a) = map_option table_view (hp a)"
  shows "table_holds tb hp' A"
proof -
  obtain bs where bs: "table_of tb hp bs" "set (concat bs) = A" using assms(1) by (auto simp: table_holds_def)
  have l: "link hp' a = link hp a" "ident hp' a = ident hp a" if aA: "a \<in> A" for a
  proof -
    have "hp a \<noteq> None" using table_holds_alive(2) [OF assms(1) aA] .
    then show "link hp' a = link hp a" "ident hp' a = ident hp a"
      using assms(2) [OF aA] by (auto simp: table_view_def ident_def)
  qed
  have "chain hp' (tb_list tb ! i) (bs ! i)" if "i < 2 ^ tb_length_bits tb" for i
  proof -
    have "chain hp (tb_list tb ! i) (bs ! i)" "i < length bs"
      using bs(1) that by (auto simp: table_of_def buckets_def)
    moreover have "set (bs ! i) \<subseteq> A" using bs(2) \<open>i < length bs\<close> by auto
    ultimately show ?thesis using l(1) chain_cong [of "bs ! i" hp hp'] by (metis subsetD)
  qed
  moreover have "snd (ident hp' a) = snd (ident hp a)" if "a \<in> set (bs ! i)" "i < length bs" for a i
  proof -
    have "bs ! i \<in> set bs" using that by simp
    then have "a \<in> A" using that bs(2) by auto
    then show ?thesis using l(2) by simp
  qed
  moreover have "inj_on (ident hp') A" using bs l(2) by (auto simp: table_of_def inj_on_def)
  ultimately have "table_of tb hp' bs"
    using bs by (simp add: table_of_def buckets_def)
  then show ?thesis using bs(2) by (auto simp: table_holds_def)
qed

lemma inv_lru_frame:
  assumes inv: "shard_inv sh D x bt low hi A" and ok: "lru_ok sh' bt' low' hi'" and fr: "lru_frame S sh sh'"
    and L: "\<And>b. b \<notin> D \<Longrightarrow> b \<in> set (bt' @ low' @ hi') \<longleftrightarrow> b \<in> set (bt @ low @ hi)"
    and S: "S \<subseteq> insert lru_head (D \<union> set (bt @ low @ hi))"
  shows "shard_inv sh' D x bt' low' hi' A"
proof -
  note I = invD [OF inv] and R = lru_frame_rest [OF fr]
  obtain N P Q where r: "sh_heap sh' = relink N P Q (sh_heap sh)" using fr by (auto simp: lru_frame_def)
  have dom: "dom (sh_heap sh') = dom (sh_heap sh)" unfolding r by (auto simp: relink_def)
  have "table_holds (sh_table sh') (sh_heap sh') A"
    unfolding R(1) by (rule table_holds_cong [OF I(2)])
      (auto simp: r relink_def table_view_def [abs_def] option.map_comp comp_def handle_key_def [abs_def])
  moreover have "entry_ok A (set (bt' @ low' @ hi')) b h'"
    if b: "sh_heap sh' b = Some h'" "b \<noteq> lru_head" "b \<notin> D" for b h'
  proof -
    obtain h where h: "sh_heap sh b = Some h" "h' = (set_pool (Q b) h)\<lparr>h_next := N b, h_prev := P b\<rparr>"
      using b(1) unfolding r by (auto simp: relink_def)
    have e: "entry_ok A (set (bt @ low @ hi)) b h" using I(7) h(1) b by blast
    then have "h_refs h \<noteq> 0 \<Longrightarrow> h' = h"
      using S b h(1) fr by (auto simp: entry_ok_def lru_frame_def)
    then show ?thesis
      by (intro entry_ok_cong [OF _ _ _ _ _ e]) (use h(2) L b(3) in \<open>auto simp: handle_flag_tests bit_set_pool\<close>)
  qed
  moreover have "config_ok sh'" using I(9) R by (simp add: config_ok_def)
  moreover have "sh_heap sh' nullptr = None" using I(3) unfolding r by simp
  ultimately show ?thesis
    using ok I(4-6,8) R(2) charges_frame(1) [OF fr] unfolding shard_inv_def dom by simp
qed

text \<open>Outside of a set, the list links of the entries are as they were.\<close>

definition off_list :: "addr set \<Rightarrow> LRUCacheShard \<Rightarrow> LRUCacheShard \<Rightarrow> bool" where
  "off_list S sh sh' \<longleftrightarrow> (\<forall>b. b \<notin> S \<longrightarrow>
     next_of (sh_heap sh') b = next_of (sh_heap sh) b \<and> prev_of (sh_heap sh') b = prev_of (sh_heap sh) b)"

lemma off_listD:
  assumes "off_list S sh sh'" and "b \<notin> S"
  shows "next_of (sh_heap sh') b = next_of (sh_heap sh) b" and "prev_of (sh_heap sh') b = prev_of (sh_heap sh) b"
  using assms by (auto simp: off_list_def)

lemma off_list_refl [simp]: "off_list S sh sh"
  by (simp add: off_list_def)

lemma off_list_trans: "off_list S sh sh' \<Longrightarrow> off_list S' sh' sh'' \<Longrightarrow> off_list (S \<union> S') sh sh''"
  by (simp add: off_list_def)

lemma off_list_mono: "off_list S sh sh' \<Longrightarrow> S \<subseteq> S' \<Longrightarrow> off_list S' sh sh'"
  by (auto simp: off_list_def)

lemma off_list_lru_frame: "lru_frame S sh sh' \<Longrightarrow> off_list S sh sh'"
  by (simp add: off_list_def lru_frame_def next_of_def prev_of_def)

lemma off_list_links:
  assumes "same_but_links (sh_heap sh) (sh_heap sh')"
  shows "off_list S sh sh'"
proof -
  have "next_of (sh_heap sh') b = next_of (sh_heap sh) b \<and> prev_of (sh_heap sh') b = prev_of (sh_heap sh) b" for b
  proof (cases "sh_heap sh b")
    case None
    then show ?thesis using same_but_links_None [OF assms, of b] by (simp add: next_of_def prev_of_def)
  next
    case (Some h)
    then obtain v where "sh_heap sh' b = Some (h\<lparr>h_next_hash := v\<rparr>)" using same_but_links_Some [OF assms] by blast
    with Some show ?thesis by (simp add: next_of_def prev_of_def)
  qed
  then show ?thesis by (simp add: off_list_def)
qed

lemma LRU_Remove_inv:
  assumes "shard_inv sh D x bt low hi A" and "a \<in> D" and "a \<in> set (bt @ low @ hi)"
  shows "\<exists>sh'. LRU_Remove sh a = Some sh' \<and> shard_inv sh' D x (removeAll a bt) (removeAll a low) (removeAll a hi) A
    \<and> keeps {} sh sh' \<and> next_of (sh_heap sh') a = nullptr \<and> prev_of (sh_heap sh') a = nullptr
    \<and> sh_table sh' = sh_table sh \<and> sh_usage sh' = sh_usage sh \<and> off_list (insert lru_head (set (bt @ low @ hi))) sh sh'"
proof -
  obtain sh' where r: "LRU_Remove sh a = Some sh'" "lru_ok sh' (removeAll a bt) (removeAll a low) (removeAll a hi)"
      "lru_frame (set (lru_head # bt @ low @ hi)) sh sh'" "next_of (sh_heap sh') a = nullptr" "prev_of (sh_heap sh') a = nullptr"
    using LRU_Remove_ok [OF invD(1) [OF assms(1)] assms(3)] by blast
  have "shard_inv sh' D x (removeAll a bt) (removeAll a low) (removeAll a hi) A"
    by (rule inv_lru_frame [OF assms(1) r(2,3)]) (use assms(2) in auto)
  moreover have "off_list (insert lru_head (set (bt @ low @ hi))) sh sh'" using off_list_lru_frame [OF r(3)] by simp
  ultimately show ?thesis using r keeps_lru_frame [OF r(3)] lru_frame_rest [OF r(3)] by blast
qed

lemma charges_sum: "distinct as \<Longrightarrow> charges hp as = (\<Sum>a \<in> set as. charge_of hp a)"
  by (simp add: charges_def sum_list_distinct_conv_sum_set)

lemma lru_charges_le:
  assumes "shard_inv sh D x bt low hi A" and "set (bt @ low @ hi) \<inter> D = {}"
  shows "charges (sh_heap sh) (bt @ low @ hi) + x \<le> unat (sh_usage sh)"
proof -
  note I = invD [OF assms(1)]
  note D = lru_linksD [OF lru_okD(1) [OF I(1)]]
  have "set (bt @ low @ hi) \<subseteq> dom (sh_heap sh) - insert lru_head D"
  proof
    fix a
    assume a: "a \<in> set (bt @ low @ hi)"
    then have "sh_heap sh a \<noteq> None" by (intro D(4)) auto
    moreover have "a \<noteq> lru_head" using a D(2) by auto
    ultimately show "a \<in> dom (sh_heap sh) - insert lru_head D" using a assms(2) by auto
  qed
  then have "(\<Sum>a \<in> set (bt @ low @ hi). charge_of (sh_heap sh) a)
      \<le> (\<Sum>a \<in> dom (sh_heap sh) - insert lru_head D. charge_of (sh_heap sh) a)"
    using I(4) by (intro sum_mono2) auto
  then show ?thesis using I(8) charges_sum [of "bt @ low @ hi"] D(2) by simp
qed

lemma LRU_Insert_inv:
  assumes inv: "shard_inv sh D x bt low hi A" and a: "a \<in> D" and dis: "set (bt @ low @ hi) \<inter> D = {}"
    and h: "sh_heap sh a = Some h" "h_next h = nullptr" "h_prev h = nullptr" and x: "the_charge sh a \<le> x"
  shows "\<exists>sh' bt' low' hi' us vs. LRU_Insert sh a = Some sh' \<and> shard_inv sh' D x bt' low' hi' A
    \<and> bt @ low @ hi = us @ vs \<and> bt' @ low' @ hi' = us @ a # vs \<and> keeps {} sh sh'
    \<and> sh_table sh' = sh_table sh \<and> sh_usage sh' = sh_usage sh"
proof -
  note I = invD [OF inv]
  have "charges (sh_heap sh) (bt @ low @ hi) + unat (h_total_charge h) \<le> unat (sh_usage sh)"
    using lru_charges_le [OF inv dis] x h(1) by (simp add: charge_of_def)
  also have "\<dots> < 2 ^ 64" using unsigned_less [of "sh_usage sh"] by simp
  finally have sum: "charges (sh_heap sh) (bt @ low @ hi) + unat (h_total_charge h) < 2 ^ 64" .
  have nl: "a \<notin> set (lru_head # bt @ low @ hi)" "a \<noteq> nullptr" using a dis I(3,5) by auto
  have cap: "not_negative (sh_high_pri_pool_capacity sh)" "not_negative (sh_low_pri_pool_capacity sh)"
    using I(9) by (auto simp: config_ok_def)
  obtain sh' bt' low' hi' us vs where r: "LRU_Insert sh a = Some sh'" "lru_ok sh' bt' low' hi'"
      "bt @ low @ hi = us @ vs" "bt' @ low' @ hi' = us @ a # vs" "lru_frame (set (lru_head # a # bt @ low @ hi)) sh sh'"
    using LRU_Insert_ok [OF I(1) h nl sum cap] by blast
  have mem: "b \<in> set (bt' @ low' @ hi') \<longleftrightarrow> b \<in> set (bt @ low @ hi)" if "b \<notin> D" for b
    unfolding r(3,4) using that a by auto
  have "shard_inv sh' D x bt' low' hi' A"
    by (rule inv_lru_frame [OF inv r(2,5) mem]) (use a in auto)
  then show ?thesis using r keeps_lru_frame [OF r(5)] lru_frame_rest [OF r(5)] by blast
qed

definition lru_view :: "LRUHandle \<Rightarrow> addr \<times> addr \<times> (bool \<times> bool) \<times> u64" where
  "lru_view h = (h_next h, h_prev h, pool_of h, h_total_charge h)"

lemma lru_ok_cong:
  assumes "lru_ok sh bt low hi"
    and v: "\<And>a. a \<in> set (lru_head # bt @ low @ hi) \<Longrightarrow> map_option lru_view (sh_heap sh' a) = map_option lru_view (sh_heap sh a)"
    and "sh_lru_bottom_pri sh' = sh_lru_bottom_pri sh" "sh_lru_low_pri sh' = sh_lru_low_pri sh"
      "sh_lru_usage sh' = sh_lru_usage sh" "sh_high_pri_pool_usage sh' = sh_high_pri_pool_usage sh"
      "sh_low_pri_pool_usage sh' = sh_low_pri_pool_usage sh"
  shows "lru_ok sh' bt low hi"
proof -
  note D = lru_linksD [OF lru_okD(1) [OF assms(1)]]
  let ?L = "bt @ low @ hi"
  have w: "next_of (sh_heap sh') a = next_of (sh_heap sh) a" "prev_of (sh_heap sh') a = prev_of (sh_heap sh) a"
    "pool_at (sh_heap sh') a = pool_at (sh_heap sh) a" "charge_of (sh_heap sh') a = charge_of (sh_heap sh) a"
    "sh_heap sh' a \<noteq> None" if aL: "a \<in> set (lru_head # ?L)" for a
  proof -
    obtain h where h: "sh_heap sh a = Some h" using D(4) [OF aL] by auto
    then obtain h' where "sh_heap sh' a = Some h'" "lru_view h' = lru_view h"
      using v [OF aL] by auto
    with h show "next_of (sh_heap sh') a = next_of (sh_heap sh) a" "prev_of (sh_heap sh') a = prev_of (sh_heap sh) a"
      "pool_at (sh_heap sh') a = pool_at (sh_heap sh) a" "charge_of (sh_heap sh') a = charge_of (sh_heap sh) a"
      "sh_heap sh' a \<noteq> None"
      by (auto simp: lru_view_def next_of_def prev_of_def pool_at_def charge_of_def)
  qed
  have "dlseg (next_of (sh_heap sh)) (prev_of (sh_heap sh)) lru_head ?L lru_head
      \<longleftrightarrow> dlseg (next_of (sh_heap sh')) (prev_of (sh_heap sh')) lru_head ?L lru_head"
    by (rule dlseg_cong) (use w in auto)
  moreover have "charges (sh_heap sh') as = charges (sh_heap sh) as" if "as \<in> {bt, low, hi}" for as
    using that w(4) by (intro charges_cong) auto
  then have "charges (sh_heap sh') bt = charges (sh_heap sh) bt" "charges (sh_heap sh') low = charges (sh_heap sh) low"
    "charges (sh_heap sh') hi = charges (sh_heap sh) hi" by simp_all
  ultimately show ?thesis
    using D(1-3) D(7-9) w(3,5) assms(3-7) D(5,6,10,11) lru_okD(2) [OF assms(1)]
    unfolding lru_ok_def lru_links_def Let_def by (simp del: not_None_eq)
qed

lemma same_links_views:
  assumes "same_but_links hp hp'"
  shows "map_option lru_view (hp' a) = map_option lru_view (hp a)" "charge_of hp' a = charge_of hp a"
    "hp' a = None \<longleftrightarrow> hp a = None"
proof -
  show n: "hp' a = None \<longleftrightarrow> hp a = None" using same_but_links_None [OF assms] .
  have "map_option lru_view (hp' a) = map_option lru_view (hp a) \<and> charge_of hp' a = charge_of hp a"
  proof (cases "hp a")
    case (Some h)
    with assms obtain v where "hp' a = Some (h\<lparr>h_next_hash := v\<rparr>)" by (rule same_but_links_Some)
    with Some show ?thesis by (simp add: lru_view_def pool_of_def handle_flag_tests charge_of_def)
  qed (use n in \<open>simp add: charge_of_def\<close>)
  then show "map_option lru_view (hp' a) = map_option lru_view (hp a)" "charge_of hp' a = charge_of hp a" by simp_all
qed

lemma inv_table:
  assumes inv: "shard_inv sh D x bt low hi A" and same: "same_but_links (sh_heap sh) hp'" and tb: "table_holds tb' hp' A'"
    and A: "\<And>b. b \<notin> D \<Longrightarrow> b \<in> A' \<longleftrightarrow> b \<in> A" "lru_head \<notin> A'"
  shows "shard_inv (sh\<lparr>sh_table := tb', sh_heap := hp'\<rparr>) D x bt low hi A'"
proof -
  note I = invD [OF inv] and V = same_links_views [OF same]
  have dom: "dom hp' = dom (sh_heap sh)" by (simp add: dom_def V(3))
  have "lru_ok (sh\<lparr>sh_table := tb', sh_heap := hp'\<rparr>) bt low hi"
    by (rule lru_ok_cong [OF I(1)]) (use V(1) in simp_all)
  moreover have "entry_ok A' (set (bt @ low @ hi)) b h'" if b: "hp' b = Some h'" "b \<noteq> lru_head" "b \<notin> D" for b h'
  proof -
    obtain h where h: "sh_heap sh b = Some h" using V(3) [of b] b(1) by (metis not_None_eq option.distinct(1))
    then obtain v where "h' = h\<lparr>h_next_hash := v\<rparr>" using same_but_links_Some [OF same h] b(1) by (metis option.inject)
    then show ?thesis
      by (intro entry_ok_cong [OF _ _ _ _ _ I(7) [OF h b(2,3)]]) (use A(1) b(3) in \<open>simp_all add: handle_flag_tests\<close>)
  qed
  moreover have "charge_of hp' = charge_of (sh_heap sh)" using V(2) by auto
  moreover have "hp' nullptr = None" using I(3) V(3) by simp
  ultimately show ?thesis
    using I(4,5,8,9) tb A(2) dom unfolding shard_inv_def by (simp add: config_ok_def)
qed

lemma Table_Remove_inv:
  assumes inv: "shard_inv sh D x bt low hi A" and a: "a \<in> A" "a \<in> D" and h: "sh_heap sh a = Some h"
  shows "\<exists>tb' hp'. Table_Remove (sh_table sh) (sh_heap sh) (handle_key h) (h_hash h) = Some (a, tb', hp')
    \<and> shard_inv (sh\<lparr>sh_table := tb', sh_heap := hp'\<rparr>) D x bt low hi (A - {a}) \<and> same_but_links (sh_heap sh) hp'"
proof -
  note I = invD [OF inv]
  obtain bs where "table_of (sh_table sh) (sh_heap sh) bs" "set (concat bs) = A"
    using I(2) by (auto simp: table_holds_def)
  then have "inj_on (ident (sh_heap sh)) A" by (auto simp: table_of_def)
  then have "entry_of (sh_heap sh) A (handle_key h) (h_hash h) = a"
    using a(1) h by (intro entry_of_eqI) (simp_all add: ident_def)
  from Table_Remove_holds [OF I(2) this] show ?thesis
    using inv_table [OF inv] a(2) I(6) by fastforce
qed

lemma Table_Insert_inv:
  assumes inv: "shard_inv sh D x bt low hi A" and a: "a \<notin> A" "a \<in> D" and h: "sh_heap sh a = Some h"
    and card: "card A < 2 ^ 32 - 1"
    and old: "entry_of (sh_heap sh) A (handle_key h) (h_hash h) = old" "old = nullptr \<or> old \<in> D"
  shows "\<exists>tb' hp'. Table_Insert (sh_table sh) (sh_heap sh) a = Some (old, tb', hp')
    \<and> shard_inv (sh\<lparr>sh_table := tb', sh_heap := hp'\<rparr>) D x bt low hi (insert a (A - {old})) \<and> same_but_links (sh_heap sh) hp'"
proof -
  note I = invD [OF inv]
  have "a \<noteq> nullptr" "a \<noteq> lru_head" using I(3,5) a(2) by auto
  with Table_Insert_holds [OF I(2) h a(1) _ card old(1)] obtain tb' hp' where
    t: "Table_Insert (sh_table sh) (sh_heap sh) a = Some (old, tb', hp')" "table_holds tb' hp' (insert a (A - {old}))"
      "same_but_links (sh_heap sh) hp'" by auto
  have "nullptr \<notin> A" using table_holds_alive(1) [OF I(2)] by blast
  then have "shard_inv (sh\<lparr>sh_table := tb', sh_heap := hp'\<rparr>) D x bt low hi (insert a (A - {old}))"
    by (intro inv_table [OF inv t(3,2)]) (use a old(2) I(6) \<open>a \<noteq> lru_head\<close> in \<open>auto intro: Nat.gr0I\<close>)
  then show ?thesis using t by blast
qed

lemma lru_head_alive: "shard_inv sh D x bt low hi A \<Longrightarrow> sh_heap sh lru_head \<noteq> None"
  using lru_linksD(4) [OF lru_okD(1) [OF invD(1)]] by simp

text \<open>Changing, adding or freeing the heap cell of an exempt entry.\<close>

lemma inv_cell:
  assumes inv: "shard_inv sh D x bt low hi A" and hp': "hp' = (sh_heap sh)(a := c)"
    and a: "a \<noteq> lru_head" "a \<noteq> nullptr" "sh_heap sh a = None \<or> a \<in> D" and D': "D' = (if hp' a = None then D - {a} else insert a D)"
    and A: "a \<in> A \<longrightarrow> map_option table_view (hp' a) = map_option table_view (sh_heap sh a)"
    and L: "a \<in> set (bt @ low @ hi) \<longrightarrow> map_option lru_view (hp' a) = map_option lru_view (sh_heap sh a)"
  shows "shard_inv (sh\<lparr>sh_heap := hp'\<rparr>) D' x bt low hi A" and "keeps {a} sh (sh\<lparr>sh_heap := hp'\<rparr>)"
proof -
  note I = invD [OF inv]
  have fin: "finite (dom hp')"
  proof (rule finite_subset)
    show "dom hp' \<subseteq> insert a (dom (sh_heap sh))" using hp' by (auto split: if_splits)
  qed (use I(4) in simp)
  have eq: "dom hp' - insert lru_head D' = dom (sh_heap sh) - insert lru_head D"
    using hp' a D' by (auto split: if_splits)
  have cells: "hp' b = sh_heap sh b" if "b \<in> dom (sh_heap sh) - insert lru_head D" for b
    using hp' that a(3) by auto
  have sum: "(\<Sum>b \<in> dom hp' - insert lru_head D'. charge_of hp' b)
      = (\<Sum>b \<in> dom (sh_heap sh) - insert lru_head D. charge_of (sh_heap sh) b)"
    unfolding eq by (rule sum.cong [OF refl]) (use cells in \<open>simp add: charge_of_def\<close>)
  have "lru_ok (sh\<lparr>sh_heap := hp'\<rparr>) bt low hi"
    by (rule lru_ok_cong [OF I(1)]) (use hp' L a(1) in auto)
  moreover have "table_holds (sh_table sh) hp' A"
    by (rule table_holds_cong [OF I(2)]) (use hp' A in auto)
  moreover have "entry_ok A (set (bt @ low @ hi)) b h" if "hp' b = Some h" "b \<noteq> lru_head" "b \<notin> D'" for b h
  proof -
    have "b \<noteq> a" using that D' by (auto split: if_splits)
    then show ?thesis using I(7) [of b h] hp' that D' by (auto split: if_splits)
  qed
  moreover have "D' \<subseteq> dom hp' - {lru_head}"
    using I(5) D' hp' a(1) by (auto split: if_splits)
  moreover have "hp' nullptr = None" using I(3) a(2) hp' by simp
  ultimately show "shard_inv (sh\<lparr>sh_heap := hp'\<rparr>) D' x bt low hi A"
    using I(6,8,9) fin sum unfolding shard_inv_def by (simp add: config_ok_def)
  show "keeps {a} sh (sh\<lparr>sh_heap := hp'\<rparr>)"
    using hp' by (simp add: keeps_def same_pub_def settings_def lru_rest_def)
qed

lemma inv_at:
  assumes inv: "shard_inv sh D x bt low hi A" and a: "a \<in> D" "sh_heap sh a = Some h"
    and t: "a \<notin> A \<or> table_view (f h) = table_view h"
    and l: "a \<notin> set (bt @ low @ hi) \<or> lru_view (f h) = lru_view h"
  shows "at sh a f = Some (sh\<lparr>sh_heap := upd a f (sh_heap sh)\<rparr>)"
    and "shard_inv (sh\<lparr>sh_heap := upd a f (sh_heap sh)\<rparr>) D x bt low hi A"
    and "keeps {a} sh (sh\<lparr>sh_heap := upd a f (sh_heap sh)\<rparr>)"
proof -
  have n: "a \<noteq> lru_head" "a \<noteq> nullptr" using invD(3,5) [OF inv] a by auto
  have D: "D = (if upd a f (sh_heap sh) a = None then D - {a} else insert a D)" using a by auto
  note cell = inv_cell [OF inv upd_def n _ D]
  show "at sh a f = Some (sh\<lparr>sh_heap := upd a f (sh_heap sh)\<rparr>)" using a(2) by simp
  show "shard_inv (sh\<lparr>sh_heap := upd a f (sh_heap sh)\<rparr>) D x bt low hi A"
    and "keeps {a} sh (sh\<lparr>sh_heap := upd a f (sh_heap sh)\<rparr>)"
    by (rule cell; use a t l in auto)+
qed

lemma inv_free:
  assumes inv: "shard_inv sh D x bt low hi A" and a: "a \<in> D" "a \<notin> A" "a \<notin> set (bt @ low @ hi)"
  shows "free_handle sh a = Some (sh\<lparr>sh_heap := (sh_heap sh)(a := None)\<rparr>)"
    and "shard_inv (sh\<lparr>sh_heap := (sh_heap sh)(a := None)\<rparr>) (D - {a}) x bt low hi A"
    and "keeps {a} sh (sh\<lparr>sh_heap := (sh_heap sh)(a := None)\<rparr>)"
proof -
  have n: "a \<noteq> lru_head" "a \<noteq> nullptr" "sh_heap sh a \<noteq> None" using invD(3,5) [OF inv] a by auto
  then show "free_handle sh a = Some (sh\<lparr>sh_heap := (sh_heap sh)(a := None)\<rparr>)" by (auto simp: free_handle_def)
  have D: "D - {a} = (if ((sh_heap sh)(a := None)) a = None then D - {a} else insert a D)" by simp
  note cell = inv_cell [OF inv refl n(1,2) _ D]
  show "shard_inv (sh\<lparr>sh_heap := (sh_heap sh)(a := None)\<rparr>) (D - {a}) x bt low hi A"
    and "keeps {a} sh (sh\<lparr>sh_heap := (sh_heap sh)(a := None)\<rparr>)"
    by (rule cell; use a in simp)+
qed

lemma inv_new:
  assumes inv: "shard_inv sh D x bt low hi A" and a: "sh_heap sh a = None" "a \<noteq> nullptr"
  shows "shard_inv (sh\<lparr>sh_heap := (sh_heap sh)(a \<mapsto> h)\<rparr>) (insert a D) x bt low hi A"
    and "keeps {a} sh (sh\<lparr>sh_heap := (sh_heap sh)(a \<mapsto> h)\<rparr>)" and "a \<notin> A" and "a \<notin> set (bt @ low @ hi)" and "a \<notin> D"
    and "a \<noteq> lru_head"
proof -
  note I = invD [OF inv]
  show n: "a \<noteq> lru_head" using lru_head_alive [OF inv] a by auto
  show nA: "a \<notin> A" using table_holds_alive(2) [OF I(2), of a] a(1) by auto
  show nL: "a \<notin> set (bt @ low @ hi)" using lru_linksD(4) [OF lru_okD(1) [OF I(1)], of a] a(1) by auto
  show "a \<notin> D" using I(5) a(1) by auto
  have D: "insert a D = (if ((sh_heap sh)(a \<mapsto> h)) a = None then D - {a} else insert a D)" by simp
  note cell = inv_cell [OF inv refl n a(2) _ D]
  show "shard_inv (sh\<lparr>sh_heap := (sh_heap sh)(a \<mapsto> h)\<rparr>) (insert a D) x bt low hi A"
    and "keeps {a} sh (sh\<lparr>sh_heap := (sh_heap sh)(a \<mapsto> h)\<rparr>)"
    by (rule cell; use a nA nL in simp)+
qed

lemma inv_usage:
  assumes inv: "shard_inv sh D x bt low hi A" and u: "unat u = unat (sh_usage sh) - x + y" "x \<le> unat (sh_usage sh)"
  shows "shard_inv (sh\<lparr>sh_usage := u\<rparr>) D y bt low hi A" and "keeps {} sh (sh\<lparr>sh_usage := u\<rparr>)"
proof -
  have "lru_ok (sh\<lparr>sh_usage := u\<rparr>) bt low hi" by (rule lru_ok_cong [OF invD(1) [OF inv]]) simp_all
  then show "shard_inv (sh\<lparr>sh_usage := u\<rparr>) D y bt low hi A"
    using invD [OF inv] u unfolding shard_inv_def by (simp add: config_ok_def)
  show "keeps {} sh (sh\<lparr>sh_usage := u\<rparr>)" by (simp add: keeps_def same_pub_def settings_def lru_rest_def)
qed

lemma inv_usage_sub:
  assumes inv: "shard_inv sh D x bt low hi A" and c: "unat c \<le> x"
  shows "c \<le> sh_usage sh" and "shard_inv (sh\<lparr>sh_usage := sh_usage sh - c\<rparr>) D (x - unat c) bt low hi A"
    and "keeps {} sh (sh\<lparr>sh_usage := sh_usage sh - c\<rparr>)"
proof -
  have x: "x \<le> unat (sh_usage sh)" using invD(8) [OF inv] by simp
  with c show le: "c \<le> sh_usage sh" by (simp add: word_le_nat_alt)
  have u: "unat (sh_usage sh - c) = unat (sh_usage sh) - x + (x - unat c)" using le c x by (simp add: word_minus_nat)
  show "shard_inv (sh\<lparr>sh_usage := sh_usage sh - c\<rparr>) D (x - unat c) bt low hi A"
    and "keeps {} sh (sh\<lparr>sh_usage := sh_usage sh - c\<rparr>)" by (rule inv_usage [OF inv u x])+
qed

lemma inv_usage_add:
  assumes inv: "shard_inv sh D x bt low hi A" and c: "unat (sh_usage sh) + unat c < 2 ^ 64"
  shows "shard_inv (sh\<lparr>sh_usage := sh_usage sh + c\<rparr>) D (x + unat c) bt low hi A"
    and "keeps {} sh (sh\<lparr>sh_usage := sh_usage sh + c\<rparr>)"
proof -
  have x: "x \<le> unat (sh_usage sh)" using invD(8) [OF inv] by simp
  have u: "unat (sh_usage sh + c) = unat (sh_usage sh) - x + (x + unat c)" using c x by (simp add: unat_word_ariths)
  show "shard_inv (sh\<lparr>sh_usage := sh_usage sh + c\<rparr>) D (x + unat c) bt low hi A"
    and "keeps {} sh (sh\<lparr>sh_usage := sh_usage sh + c\<rparr>)" by (rule inv_usage [OF inv u x])+
qed

lemma keeps_Some:
  assumes "keeps D sh sh'" and "sh_heap sh a = Some h" and "a \<notin> D"
  obtains h' where "sh_heap sh' a = Some h'" and "pub h' = pub h"
  using assms by (auto simp: keeps_def same_pub_def dest!: spec [of _ a])

lemma keeps_links: "same_but_links (sh_heap sh) hp' \<Longrightarrow> keeps {} sh (sh\<lparr>sh_table := tb', sh_heap := hp'\<rparr>)"
  by (simp add: keeps_def same_pub_links settings_def lru_rest_def)

lemma setter_views [simp]:
  "table_view (SetInCache b h) = table_view h" "lru_view (SetInCache b h) = lru_view h"
  "table_view (handle_Ref h) = table_view h" "lru_view (handle_Ref h) = lru_view h"
  "table_view (SetHit h) = table_view h" "lru_view (SetHit h) = lru_view h"
  "table_view (h\<lparr>h_refs := r\<rparr>) = table_view h" "lru_view (h\<lparr>h_refs := r\<rparr>) = lru_view h"
proof -
  show "lru_view (SetInCache b h) = lru_view h" "lru_view (SetHit h) = lru_view h"
    by (simp_all add: lru_view_def pool_of_def handle_flag_tests bit_setters) (simp_all add: SetInCache_def SetHit_def)
qed (simp_all add: table_view_def lru_view_def pool_of_def handle_flag_tests handle_key_def SetInCache_def SetHit_def handle_Ref_def)

lemma setter_fields [simp]:
  "h_refs (SetInCache b h) = h_refs h" "h_next (SetInCache b h) = h_next h" "h_prev (SetInCache b h) = h_prev h"
  "h_value (SetInCache b h) = h_value h" "h_helper (SetInCache b h) = h_helper h" "handle_key (SetInCache b h) = handle_key h"
  "h_total_charge (SetInCache b h) = h_total_charge h" "InCache (SetInCache b h) = b" "HasHit (SetInCache b h) = HasHit h"
  "h_hash (SetInCache b h) = h_hash h"
  by (simp_all add: handle_flag_tests bit_setters) (simp_all add: SetInCache_def handle_key_def)

lemma evict_oldest_inv:
  assumes inv: "shard_inv sh D x bt low hi A" and L: "bt @ low @ hi = a # rest" and a: "a \<notin> D" and h: "sh_heap sh a = Some h"
  shows "\<exists>sh' bt' low' hi' h'. evict_oldest sh a = Some sh' \<and> shard_inv sh' (insert a D) x bt' low' hi' (A - {a})
    \<and> bt' @ low' @ hi' = rest \<and> keeps {a} sh sh' \<and> unat (sh_usage sh') + the_charge sh a = unat (sh_usage sh)
    \<and> sh_heap sh' a = Some h' \<and> h_refs h' = 0 \<and> h_helper h' = h_helper h \<and> h_value h' = h_value h
    \<and> handle_key h' = handle_key h \<and> HasHit h' = HasHit h \<and> a \<in> A
    \<and> off_list (insert lru_head (set (bt @ low @ hi))) sh sh'"
proof -
  note I = invD [OF inv]
  have n: "a \<noteq> lru_head" and d: "distinct (a # rest)"
    using lru_linksD(2) [OF lru_okD(1) [OF I(1)]] unfolding L by auto
  have aL: "a \<in> set (bt @ low @ hi)" unfolding L by simp
  have e: "entry_ok A (set (bt @ low @ hi)) a h" using I(7) [OF h n a] .
  then have c: "InCache h" "h_refs h = 0" "a \<in> A" using aL by (auto simp: entry_ok_def)
  have ch: "the_charge sh a = unat (h_total_charge h)" using h by (simp add: charge_of_def)
  have i1: "shard_inv sh (insert a D) (x + the_charge sh a) bt low hi A" using inv_exempt [OF inv _ n a] h by simp
  obtain sh1 where r1: "LRU_Remove sh a = Some sh1" "keeps {} sh sh1" "sh_usage sh1 = sh_usage sh"
      "shard_inv sh1 (insert a D) (x + the_charge sh a) (removeAll a bt) (removeAll a low) (removeAll a hi) A"
      "off_list (insert lru_head (set (bt @ low @ hi))) sh sh1"
    using LRU_Remove_inv [OF i1 _ aL] by blast
  obtain h1 where h1: "sh_heap sh1 a = Some h1" "pub h1 = pub h" using keeps_Some [OF r1(2) h] by auto
  note p1 = pub_eqD [OF h1(2)]
  obtain tb hp where r2: "Table_Remove (sh_table sh1) (sh_heap sh1) (handle_key h) (h_hash h) = Some (a, tb, hp)"
      "shard_inv (sh1\<lparr>sh_table := tb, sh_heap := hp\<rparr>) (insert a D) (x + the_charge sh a) (removeAll a bt) (removeAll a low) (removeAll a hi) (A - {a})"
      "same_but_links (sh_heap sh1) hp"
    using Table_Remove_inv [OF r1(4) c(3) _ h1(1)] unfolding p1 by blast
  obtain v where h2: "hp a = Some (h1\<lparr>h_next_hash := v\<rparr>)" using same_but_links_Some [OF r2(3) h1(1)] .
  let ?sh2 = "sh1\<lparr>sh_table := tb, sh_heap := hp\<rparr>"
  have h2': "sh_heap ?sh2 a = Some (h1\<lparr>h_next_hash := v\<rparr>)" using h2 by simp
  let ?sh3 = "?sh2\<lparr>sh_heap := upd a (SetInCache False) (sh_heap ?sh2)\<rparr>"
  have r3: "at ?sh2 a (SetInCache False) = Some ?sh3"
      "shard_inv ?sh3 (insert a D) (x + the_charge sh a) (removeAll a bt) (removeAll a low) (removeAll a hi) (A - {a})"
      "keeps {a} ?sh2 ?sh3"
    using inv_at [OF r2(2) _ h2', of "SetInCache False"] by simp_all
  have "unat (h_total_charge h) \<le> x + the_charge sh a" using ch by simp
  note r4 = inv_usage_sub [OF r3(2) this]
  let ?sh4 = "?sh3\<lparr>sh_usage := sh_usage ?sh3 - h_total_charge h\<rparr>"
  have k: "keeps {a} sh ?sh4"
    using keeps_trans [OF keeps_trans [OF keeps_trans [OF r1(2) keeps_links [OF r2(3), of tb]] r3(3)] r4(3)] by simp
  have "off_list {a} ?sh2 ?sh4" by (simp add: off_list_def next_of_def prev_of_def)
  moreover have "off_list {a} sh1 ?sh2" by (rule off_list_links) (use r2(3) in simp)
  ultimately have "off_list {a} sh1 ?sh4" using off_list_trans by fastforce
  with r1(5) have ol: "off_list (insert lru_head (set (bt @ low @ hi))) sh ?sh4"
    using off_list_mono [OF off_list_trans] aL by blast
  have run: "evict_oldest sh a = Some ?sh4"
    using h c r1(1) r2(1) r3(1) r4(1) by (simp add: evict_oldest_def check_def HasRefs_def)
  have "removeAll a (a # rest) = rest" using d by simp
  then have L': "removeAll a bt @ removeAll a low @ removeAll a hi = rest" unfolding L [symmetric] by simp
  have "unat (sh_usage ?sh4) + the_charge sh a = unat (sh_usage sh)"
    using r4(1) r1(3) ch by (simp add: word_minus_nat word_le_nat_alt)
  moreover have "sh_heap ?sh4 a = Some (SetInCache False (h1\<lparr>h_next_hash := v\<rparr>))" using h2 by simp
  moreover have "shard_inv ?sh4 (insert a D) x (removeAll a bt) (removeAll a low) (removeAll a hi) (A - {a})"
    using r4(2) ch by simp
  moreover have "HasHit (h1\<lparr>h_next_hash := v\<rparr>) = HasHit h" "handle_key (h1\<lparr>h_next_hash := v\<rparr>) = handle_key h"
    using p1 by (simp_all add: handle_flag_tests handle_key_def)
  ultimately show ?thesis
    using run k L' c p1 ol
    by (rule_tac exI [of _ ?sh4], rule_tac exI [of _ "removeAll a bt"], rule_tac exI [of _ "removeAll a low"],
        rule_tac exI [of _ "removeAll a hi"], rule_tac exI [of _ "SetInCache False (h1\<lparr>h_next_hash := v\<rparr>)"]) simp
qed

section \<open>Eviction\<close>

text \<open>The entries that strict LRU order gives up: the shortest prefix of the list that makes room, or all of it.\<close>

fun lru_victims :: "(addr \<Rightarrow> nat) \<Rightarrow> nat \<Rightarrow> nat \<Rightarrow> addr list \<Rightarrow> addr list" where
  "lru_victims charge capacity needed [] = []"
| "lru_victims charge capacity needed (a # as) =
     (if capacity < needed then a # lru_victims charge capacity (needed - charge a) as else [])"

definition evicted_from :: "LRUHandle \<Rightarrow> LRUHandle \<Rightarrow> bool" where
  "evicted_from h h' \<longleftrightarrow> h_refs h' = 0 \<and> h_helper h' = h_helper h \<and> h_value h' = h_value h
     \<and> handle_key h' = handle_key h \<and> HasHit h' = HasHit h"

definition evicted_all :: "addr set \<Rightarrow> heap \<Rightarrow> heap \<Rightarrow> bool" where
  "evicted_all E hp hp' \<longleftrightarrow> (\<forall>a \<in> E. \<exists>h h'. hp a = Some h \<and> hp' a = Some h' \<and> evicted_from h h')"

lemma evicted_from_pub: "evicted_from h h' \<Longrightarrow> pub h'' = pub h' \<Longrightarrow> evicted_from h h''"
  using pub_eqD [of h'' h'] by (simp add: evicted_from_def)

lemma evicted_pub_from: "pub h' = pub h \<Longrightarrow> evicted_from h' h'' \<Longrightarrow> evicted_from h h''"
  using pub_eqD [of h' h] by (simp add: evicted_from_def)

lemma lru_first:
  assumes "shard_inv sh D x bt low hi A"
  obtains h where "sh_heap sh lru_head = Some h" and "h_next h = hd (bt @ low @ hi @ [lru_head])"
  using lru_head_alive [OF assms] dlseg_next [OF lru_linksD(1) [OF lru_okD(1) [OF invD(1) [OF assms]]]]
  by (auto simp: next_of_def)

lemma charge_of_pub:
  assumes "keeps D sh sh'" and "a \<notin> D"
  shows "the_charge sh' a = the_charge sh a"
proof (cases "sh_heap sh a")
  case None
  then show ?thesis using assms by (auto simp: keeps_def same_pub_def charge_of_def dest!: spec [of _ a])
next
  case (Some h)
  then obtain h' where "sh_heap sh' a = Some h'" "pub h' = pub h" using keeps_Some [OF assms(1) Some assms(2)] by blast
  then show ?thesis using Some pub_eqD(3) [of h' h] by (simp add: charge_of_def)
qed

lemma evicted_step:
  assumes k: "keeps {a} sh sh1" and h: "sh_heap sh a = Some h" "sh_heap sh1 a = Some h1" "evicted_from h h1"
    and k': "keeps E sh1 sh'" and e: "evicted_all E (sh_heap sh1) (sh_heap sh')" and aE: "a \<notin> E"
  shows "evicted_all (insert a E) (sh_heap sh) (sh_heap sh')"
  unfolding evicted_all_def
proof
  fix b
  assume b: "b \<in> insert a E"
  show "\<exists>h h'. sh_heap sh b = Some h \<and> sh_heap sh' b = Some h' \<and> evicted_from h h'"
  proof (cases "b = a")
    case True
    obtain h' where "sh_heap sh' a = Some h'" "pub h' = pub h1" using keeps_Some [OF k' h(2) aE] by blast
    then show ?thesis using True h evicted_from_pub by blast
  next
    case False
    then obtain g g' where g: "sh_heap sh1 b = Some g" "sh_heap sh' b = Some g'" "evicted_from g g'"
      using b e by (auto simp: evicted_all_def)
    then obtain g0 where "sh_heap sh b = Some g0" "pub g = pub g0"
      using k False by (cases "sh_heap sh b") (auto simp: keeps_def same_pub_def dest!: spec [of _ b])
    then show ?thesis using g evicted_pub_from by blast
  qed
qed

lemma lru_victims_cong: "(\<And>a. a \<in> set as \<Longrightarrow> f a = g a) \<Longrightarrow> lru_victims f c n as = lru_victims g c n as"
  by (induction as arbitrary: n) auto

lemma EvictFromLRU_inv:
  assumes "shard_inv sh D x bt low hi A" and "set (bt @ low @ hi) \<inter> D = {}"
    and "unat (sh_usage sh) + unat c < 2 ^ 64"
  shows "\<exists>sh' bt' low' hi' ds. EvictFromLRU sh c acc = Some (sh', acc @ ds)
    \<and> ds = lru_victims (the_charge sh) (unat (sh_capacity sh)) (unat (sh_usage sh) + unat c) (bt @ low @ hi)
    \<and> bt @ low @ hi = ds @ bt' @ low' @ hi' \<and> shard_inv sh' (set ds \<union> D) x bt' low' hi' (A - set ds)
    \<and> keeps (set ds) sh sh' \<and> evicted_all (set ds) (sh_heap sh) (sh_heap sh') \<and> set ds \<subseteq> A
    \<and> unat (sh_usage sh') + charges (sh_heap sh) ds = unat (sh_usage sh)
    \<and> (sh_capacity sh < sh_usage sh' + c \<longrightarrow> bt' @ low' @ hi' = [])
    \<and> off_list (insert lru_head (set (bt @ low @ hi))) sh sh'"
  using assms
proof (induction "bt @ low @ hi" arbitrary: sh D bt low hi A acc)
  case Nil
  from Nil.prems(1) obtain h where "sh_heap sh lru_head = Some h" "h_next h = hd (bt @ low @ hi @ [lru_head])" by (rule lru_first)
  with Nil show ?case
    by (subst EvictFromLRU.simps) (auto simp: evicted_all_def)
next
  case (Cons a rest)
  note L = Cons.hyps(2) [symmetric]
  from Cons.prems(1) obtain h0 where h0: "sh_heap sh lru_head = Some h0" "h_next h0 = hd (bt @ low @ hi @ [lru_head])" by (rule lru_first)
  have n0: "h_next h0 = a" using h0(2) L by (metis append.assoc append_Cons list.sel(1))
  note D = lru_linksD [OF lru_okD(1) [OF invD(1) [OF Cons.prems(1)]], unfolded L]
  have "a \<noteq> lru_head" using D(2) by auto
  have uc: "unat (sh_usage sh + c) = unat (sh_usage sh) + unat c" using Cons.prems(3) by (simp add: unat_word_ariths)
  show ?case
  proof (cases "sh_capacity sh < sh_usage sh + c")
    case False
    then have "\<not> unat (sh_capacity sh) < unat (sh_usage sh) + unat c" using uc by (simp add: word_less_nat_alt)
    then show ?thesis
      using False h0 Cons.prems unfolding L
      by (subst EvictFromLRU.simps) (auto simp: evicted_all_def L)
  next
    case True
    obtain h where h: "sh_heap sh a = Some h" using D(4) [of a] by auto
    have aD: "a \<notin> D" using Cons.prems(2) unfolding L by auto
    obtain sh1 bt1 low1 hi1 h1 where e: "evict_oldest sh a = Some sh1" "shard_inv sh1 (insert a D) x bt1 low1 hi1 (A - {a})"
        "bt1 @ low1 @ hi1 = rest" "keeps {a} sh sh1" "unat (sh_usage sh1) + the_charge sh a = unat (sh_usage sh)"
        "sh_heap sh1 a = Some h1" "evicted_from h h1" "a \<in> A" "off_list (insert lru_head (set (bt @ low @ hi))) sh sh1"
      using evict_oldest_inv [OF Cons.prems(1) L aD h] unfolding evicted_from_def by blast
    have dis: "set (bt1 @ low1 @ hi1) \<inter> insert a D = {}"
      unfolding e(3) using D(2) Cons.prems(2) unfolding L by auto
    have u1: "unat (sh_usage sh1) + unat c < 2 ^ 64" using e(5) Cons.prems(3) by simp
    obtain sh' bt' low' hi' ds where r: "EvictFromLRU sh1 c (acc @ [a]) = Some (sh', (acc @ [a]) @ ds)"
        "ds = lru_victims (the_charge sh1) (unat (sh_capacity sh1)) (unat (sh_usage sh1) + unat c) (bt1 @ low1 @ hi1)"
        "bt1 @ low1 @ hi1 = ds @ bt' @ low' @ hi'" "shard_inv sh' (set ds \<union> insert a D) x bt' low' hi' (A - {a} - set ds)"
        "keeps (set ds) sh1 sh'" "evicted_all (set ds) (sh_heap sh1) (sh_heap sh')" "set ds \<subseteq> A - {a}"
        "unat (sh_usage sh') + charges (sh_heap sh1) ds = unat (sh_usage sh1)"
        "sh_capacity sh1 < sh_usage sh' + c \<longrightarrow> bt' @ low' @ hi' = []"
        "off_list (insert lru_head (set (bt1 @ low1 @ hi1))) sh1 sh'"
      using Cons.hyps(1) [OF e(3) [symmetric] e(2) dis u1, of "acc @ [a]"] by blast
    have rest: "rest = ds @ bt' @ low' @ hi'" using r(3) e(3) by simp
    have nr: "a \<notin> set rest" using D(2) by simp
    then have nd: "a \<notin> set ds" unfolding rest by simp
    have cs: "the_charge sh1 b = the_charge sh b" if "b \<in> set rest" for b
      using charge_of_pub [OF e(4), of b] that nr by auto
    have cap: "sh_capacity sh1 = sh_capacity sh" by (rule keeps_settings [OF e(4)])
    have need: "unat (sh_capacity sh) < unat (sh_usage sh) + unat c" using True uc by (simp add: word_less_nat_alt)
    have "unat (sh_usage sh1) + unat c = unat (sh_usage sh) + unat c - the_charge sh a" using e(5) by simp
    then have v: "a # ds = lru_victims (the_charge sh) (unat (sh_capacity sh)) (unat (sh_usage sh) + unat c) (a # rest)"
      using r(2) need cap e(3) lru_victims_cong [OF cs] by simp
    have "EvictFromLRU sh c acc = EvictFromLRU sh1 c (acc @ [a])"
      using h0(1) n0 True e(1) \<open>a \<noteq> lru_head\<close> by (subst EvictFromLRU.simps) simp
    then have run: "EvictFromLRU sh c acc = Some (sh', acc @ a # ds)" using r(1) by simp
    have k: "keeps (set (a # ds)) sh sh'" using keeps_trans [OF e(4) r(5)] by simp
    have ev: "evicted_all (set (a # ds)) (sh_heap sh) (sh_heap sh')"
      using evicted_step [OF e(4) h e(6,7) r(5,6) nd] by simp
    have "charges (sh_heap sh1) ds = charges (sh_heap sh) ds"
      by (rule charges_cong) (use cs rest in auto)
    then have us: "unat (sh_usage sh') + charges (sh_heap sh) (a # ds) = unat (sh_usage sh)" using r(8) e(5) by simp
    have "set ds \<union> insert a D = set (a # ds) \<union> D" "A - {a} - set ds = A - set (a # ds)" by auto
    then have iv: "shard_inv sh' (set (a # ds) \<union> D) x bt' low' hi' (A - set (a # ds))" using r(4) by simp
    have sA: "set (a # ds) \<subseteq> A" using r(7) e(8) by auto
    have L': "bt @ low @ hi = (a # ds) @ bt' @ low' @ hi'" unfolding L rest by simp
    have "set rest \<subseteq> set (bt @ low @ hi)" unfolding L by auto
    then have ol: "off_list (insert lru_head (set (bt @ low @ hi))) sh sh'"
      using off_list_mono [OF off_list_trans [OF e(9) r(10)]] e(3) by blast
    show ?thesis
      by (rule exI [of _ sh'], rule exI [of _ bt'], rule exI [of _ low'], rule exI [of _ hi'], rule exI [of _ "a # ds"],
          intro conjI, rule run, unfold L, rule v, unfold L [symmetric], rule L', rule iv, rule k, rule ev, rule sA, rule us)
        (use r(9) cap ol in simp_all)
  qed
qed

lemma EraseUnRefEntries_loop_inv:
  assumes "shard_inv sh D x bt low hi A" and "set (bt @ low @ hi) \<inter> D = {}"
  shows "\<exists>sh'. EraseUnRefEntries_loop sh acc = Some (sh', acc @ bt @ low @ hi)
    \<and> shard_inv sh' (set (bt @ low @ hi) \<union> D) x [] [] [] (A - set (bt @ low @ hi))
    \<and> keeps (set (bt @ low @ hi)) sh sh' \<and> evicted_all (set (bt @ low @ hi)) (sh_heap sh) (sh_heap sh')"
  using assms
proof (induction "bt @ low @ hi" arbitrary: sh D bt low hi A acc)
  case Nil
  from Nil.prems(1) obtain h where "sh_heap sh lru_head = Some h" "h_next h = hd (bt @ low @ hi @ [lru_head])" by (rule lru_first)
  with Nil show ?case
    by (subst EraseUnRefEntries_loop.simps) (auto simp: evicted_all_def)
next
  case (Cons a rest)
  note L = Cons.hyps(2) [symmetric]
  from Cons.prems(1) obtain h0 where h0: "sh_heap sh lru_head = Some h0" "h_next h0 = hd (bt @ low @ hi @ [lru_head])" by (rule lru_first)
  have n0: "h_next h0 = a" using h0(2) L by (metis append.assoc append_Cons list.sel(1))
  note D = lru_linksD [OF lru_okD(1) [OF invD(1) [OF Cons.prems(1)]], unfolded L]
  have na: "a \<noteq> lru_head" "a \<notin> set rest" using D(2) by auto
  obtain h where h: "sh_heap sh a = Some h" using D(4) [of a] by auto
  have aD: "a \<notin> D" using Cons.prems(2) unfolding L by auto
  obtain sh1 bt1 low1 hi1 h1 where e: "evict_oldest sh a = Some sh1" "shard_inv sh1 (insert a D) x bt1 low1 hi1 (A - {a})"
      "bt1 @ low1 @ hi1 = rest" "keeps {a} sh sh1" "sh_heap sh1 a = Some h1" "evicted_from h h1"
    using evict_oldest_inv [OF Cons.prems(1) L aD h] unfolding evicted_from_def by blast
  have dis: "set (bt1 @ low1 @ hi1) \<inter> insert a D = {}"
    unfolding e(3) using D(2) Cons.prems(2) unfolding L by auto
  obtain sh' where r: "EraseUnRefEntries_loop sh1 (acc @ [a]) = Some (sh', (acc @ [a]) @ rest)"
      "shard_inv sh' (set rest \<union> insert a D) x [] [] [] (A - {a} - set rest)"
      "keeps (set rest) sh1 sh'" "evicted_all (set rest) (sh_heap sh1) (sh_heap sh')"
    using Cons.hyps(1) [OF e(3) [symmetric] e(2) dis, of "acc @ [a]"] unfolding e(3) by blast
  have "EraseUnRefEntries_loop sh acc = EraseUnRefEntries_loop sh1 (acc @ [a])"
    using h0(1) n0 e(1) na by (subst EraseUnRefEntries_loop.simps) simp
  moreover have "keeps (set (a # rest)) sh sh'" using keeps_trans [OF e(4) r(3)] by simp
  moreover have "evicted_all (set (a # rest)) (sh_heap sh) (sh_heap sh')"
    using evicted_step [OF e(4) h e(5,6) r(3,4) na(2)] by simp
  moreover have "set rest \<union> insert a D = set (a # rest) \<union> D" "A - {a} - set rest = A - set (a # rest)" by auto
  ultimately show ?case unfolding L using r(1,2) by simp
qed

text \<open>The calls that giving up an entry makes: the eviction callback, and the deleter unless the callback took the object.\<close>

definition delete_calls :: "LRUHandle \<Rightarrow> CacheCall list" where
  "delete_calls h = (if ch_del_cb (h_helper h) then [DelCb (h_value h)] else [])"

definition evict_calls :: "(bytes \<Rightarrow> ObjectPtr \<Rightarrow> bool \<Rightarrow> bool) option \<Rightarrow> LRUHandle \<Rightarrow> CacheCall list" where
  "evict_calls callback h =
     (case callback of
        None \<Rightarrow> delete_calls h
      | Some cb \<Rightarrow> EvictionCb (handle_key h) (h_value h) (HasHit h)
          # (if cb (handle_key h) (h_value h) (HasHit h) then [] else delete_calls h))"

lemma evict_calls_cong: "evicted_from h h' \<Longrightarrow> evict_calls cb h' = evict_calls cb h"
  by (simp add: evict_calls_def delete_calls_def evicted_from_def split: option.split)

lemma shard_inv_calls [simp]: "shard_inv (sh\<lparr>sh_calls := c\<rparr>) D x bt low hi A = shard_inv sh D x bt low hi A"
  by (simp add: shard_inv_def lru_ok_def lru_links_def config_ok_def)

lemma handle_Free_inv:
  assumes inv: "shard_inv sh D x bt low hi A" and a: "a \<in> D" "a \<notin> A" "a \<notin> set (bt @ low @ hi)"
    and h: "sh_heap sh a = Some h" "h_refs h = 0"
  shows "handle_Free sh a = Some (sh\<lparr>sh_heap := (sh_heap sh)(a := None), sh_calls := sh_calls sh @ delete_calls h\<rparr>)"
    and "shard_inv (sh\<lparr>sh_heap := (sh_heap sh)(a := None)\<rparr>) (D - {a}) x bt low hi A"
    and "keeps {a} sh (sh\<lparr>sh_heap := (sh_heap sh)(a := None)\<rparr>)"
proof -
  show "handle_Free sh a = Some (sh\<lparr>sh_heap := (sh_heap sh)(a := None), sh_calls := sh_calls sh @ delete_calls h\<rparr>)"
    using h by (auto simp: handle_Free_def check_def free_handle_def delete_calls_def Let_def)
qed (rule inv_free [OF inv a])+

definition free_cells :: "addr set \<Rightarrow> LRUCacheShard \<Rightarrow> LRUCacheShard" where
  "free_cells E sh = sh\<lparr>sh_heap := sh_heap sh |` (- E)\<rparr>"

lemma free_cells_simps [simp]:
  "free_cells {} sh = sh" "free_cells E (sh\<lparr>sh_calls := c\<rparr>) = (free_cells E sh)\<lparr>sh_calls := c\<rparr>"
  "sh_calls (free_cells E sh) = sh_calls sh" "sh_usage (free_cells E sh) = sh_usage sh"
  "sh_capacity (free_cells E sh) = sh_capacity sh" "sh_eviction_callback (free_cells E sh) = sh_eviction_callback sh"
  "sh_heap (free_cells E sh) a = (if a \<in> E then None else sh_heap sh a)"
  by (simp_all add: free_cells_def restrict_map_def)

lemma free_cells_insert: "free_cells E (sh\<lparr>sh_heap := (sh_heap sh)(a := None)\<rparr>) = free_cells (insert a E) sh"
proof -
  have "(sh_heap sh)(a := None) |` (- E) = sh_heap sh |` (- insert a E)" by (rule ext) (simp add: restrict_map_def)
  then show ?thesis by (simp add: free_cells_def)
qed

lemma keeps_free_cells: "keeps E sh (free_cells E sh)"
  by (simp add: keeps_def same_pub_def settings_def lru_rest_def free_cells_def)

lemma inv_free_cells:
  assumes "shard_inv sh (set ds \<union> D) x bt low hi A" and "set ds \<inter> (A \<union> set (bt @ low @ hi) \<union> D) = {}"
  shows "shard_inv (free_cells (set ds) sh) D x bt low hi A"
  using assms
proof (induction ds arbitrary: sh)
  case (Cons a ds)
  show ?case
  proof (cases "a \<in> set ds")
    case True
    then show ?thesis using Cons by (simp add: insert_absorb)
  next
    case False
    have "shard_inv (sh\<lparr>sh_heap := (sh_heap sh)(a := None)\<rparr>) (set (a # ds) \<union> D - {a}) x bt low hi A"
      by (rule inv_free(2) [OF Cons.prems(1)]) (use Cons.prems(2) in auto)
    moreover have "set (a # ds) \<union> D - {a} = set ds \<union> D" using False Cons.prems(2) by auto
    ultimately show ?thesis
      using Cons.IH [of "sh\<lparr>sh_heap := (sh_heap sh)(a := None)\<rparr>"] Cons.prems(2) by (simp add: free_cells_insert)
  qed
qed simp

lemma calls_after_heap: "sh\<lparr>sh_calls := c, sh_heap := hp\<rparr> = sh\<lparr>sh_heap := hp, sh_calls := c\<rparr>"
  by simp

lemma NotifyEvicted_run:
  assumes "distinct ds" and "\<And>a. a \<in> set ds \<Longrightarrow> \<exists>h. sh_heap sh a = Some h \<and> h_refs h = 0"
  shows "NotifyEvicted sh ds = Some ((free_cells (set ds) sh)\<lparr>sh_calls := sh_calls sh
    @ concat (map (\<lambda>a. evict_calls (sh_eviction_callback sh) (the (sh_heap sh a))) ds)\<rparr>)"
  using assms
proof (induction ds arbitrary: sh)
  case (Cons a ds)
  obtain h where h: "sh_heap sh a = Some h" "h_refs h = 0" using Cons.prems(2) [of a] by auto
  let ?sh = "sh\<lparr>sh_heap := (sh_heap sh)(a := None), sh_calls := sh_calls sh @ evict_calls (sh_eviction_callback sh) h\<rparr>"
  have "NotifyEvicted sh (a # ds) = NotifyEvicted ?sh ds"
    using h by (auto simp: evict_calls_def delete_calls_def handle_Free_def check_def free_handle_def Let_def
        calls_after_heap split: option.splits)
  moreover have c: "map (\<lambda>b. evict_calls (sh_eviction_callback sh) (the (((sh_heap sh)(a := None)) b))) ds
      = map (\<lambda>b. evict_calls (sh_eviction_callback sh) (the (sh_heap sh b))) ds"
    using Cons.prems(1) by (intro map_cong) auto
  moreover have "\<exists>h. sh_heap ?sh b = Some h \<and> h_refs h = 0" if "b \<in> set ds" for b
    using that Cons.prems(1) Cons.prems(2) [of b] by auto
  note Cons.IH [OF _ this]
  ultimately show ?case
    using Cons.prems(1) h free_cells_insert [of "set ds" sh a] by (simp del: fun_upd_apply map_eq_conv)
qed simp

lemma free_all_run:
  assumes "distinct ds" and "\<And>a. a \<in> set ds \<Longrightarrow> \<exists>h. sh_heap sh a = Some h \<and> h_refs h = 0"
  shows "free_all sh ds = Some ((free_cells (set ds) sh)\<lparr>sh_calls := sh_calls sh
    @ concat (map (\<lambda>a. delete_calls (the (sh_heap sh a))) ds)\<rparr>)"
  using assms
proof (induction ds arbitrary: sh)
  case (Cons a ds)
  obtain h where h: "sh_heap sh a = Some h" "h_refs h = 0" using Cons.prems(2) [of a] by auto
  let ?sh = "sh\<lparr>sh_heap := (sh_heap sh)(a := None), sh_calls := sh_calls sh @ delete_calls h\<rparr>"
  have "free_all sh (a # ds) = free_all ?sh ds"
    using h by (auto simp: delete_calls_def handle_Free_def check_def free_handle_def Let_def calls_after_heap)
  moreover have c: "map (\<lambda>b. delete_calls (the (((sh_heap sh)(a := None)) b))) ds
      = map (\<lambda>b. delete_calls (the (sh_heap sh b))) ds"
    using Cons.prems(1) by (intro map_cong) auto
  moreover have "\<exists>h. sh_heap ?sh b = Some h \<and> h_refs h = 0" if "b \<in> set ds" for b
    using that Cons.prems(1) Cons.prems(2) [of b] by auto
  note Cons.IH [OF _ this]
  ultimately show ?case
    using Cons.prems(1) h free_cells_insert [of "set ds" sh a] by (simp del: fun_upd_apply map_eq_conv)
qed simp

end
