(* ===== verification/Lru_Shard_Ops.thy ===== *)
theory Lru_Shard_Ops
  imports Lru_Shard
begin

text \<open>
  Every public operation of an LRU cache shard, from a state that satisfies the invariant: it ends
  without a failed assertion or an access to a freed entry, and what it does to the entries, to the
  LRU order and to the table.
\<close>

section \<open>States between operations\<close>

text \<open>
  The state of a shard between operations: \<open>L\<close> is the LRU list from the oldest entry to the newest, \<open>A\<close>
  the entries of the hash table. A shard above its capacity has no entry that could be evicted.
\<close>

definition shard_state :: "LRUCacheShard \<Rightarrow> addr list \<Rightarrow> addr set \<Rightarrow> bool" where
  "shard_state sh L A \<longleftrightarrow>
     (\<exists>bt low hi. shard_inv sh {} 0 bt low hi A \<and> L = bt @ low @ hi) \<and> (sh_capacity sh < sh_usage sh \<longrightarrow> L = [])"

definition can_ref :: "LRUHandle \<Rightarrow> bool" where
  "can_ref h \<longleftrightarrow> h_refs h \<noteq> - 1"

text \<open>The same entry with another reference count, in or out of the table, hit or not.\<close>

definition same_entry :: "LRUHandle \<Rightarrow> LRUHandle \<Rightarrow> bool" where
  "same_entry h h' \<longleftrightarrow> h_value h' = h_value h \<and> h_helper h' = h_helper h \<and> h_total_charge h' = h_total_charge h
     \<and> handle_key h' = handle_key h \<and> h_hash h' = h_hash h"

lemma same_entry_refl [simp]: "same_entry h h"
  by (simp add: same_entry_def)

lemma same_entry_pub: "pub h' = pub h \<Longrightarrow> same_entry h h'"
  using pub_eqD [of h' h] by (simp add: same_entry_def)

lemma same_entry_trans: "same_entry h h' \<Longrightarrow> same_entry h' h'' \<Longrightarrow> same_entry h h''"
  by (simp add: same_entry_def)

lemma shard_stateI:
  "shard_inv sh {} 0 bt low hi A \<Longrightarrow> L = bt @ low @ hi \<Longrightarrow> (sh_capacity sh < sh_usage sh \<Longrightarrow> L = []) \<Longrightarrow> shard_state sh L A"
  by (auto simp: shard_state_def)

lemma shard_entry:
  assumes "shard_state sh L A" and "sh_heap sh a = Some h" and "a \<noteq> lru_head"
  shows "InCache h \<longleftrightarrow> a \<in> A" and "h_refs h = 0 \<longleftrightarrow> a \<in> set L" and "a \<in> set L \<Longrightarrow> a \<in> A"
    and "h_refs h \<noteq> 0 \<Longrightarrow> h_next h = nullptr" and "h_refs h \<noteq> 0 \<Longrightarrow> h_prev h = nullptr"
  using assms invD(7) [of sh "{}" 0 _ _ _ A a h] by (fastforce simp: shard_state_def entry_ok_def)+

lemma shard_table:
  assumes "shard_state sh L A"
  shows "table_holds (sh_table sh) (sh_heap sh) A" and "lru_head \<notin> A" and "sh_heap sh nullptr = None"
  using assms invD [of sh "{}" 0 _ _ _ A] by (auto simp: shard_state_def)

lemma entry_of_props:
  assumes "table_holds tb hp A" and "entry_of hp A key hash = e"
  shows "e = nullptr \<Longrightarrow> \<forall>a \<in> A. ident hp a \<noteq> (key, hash)"
    and "e \<noteq> nullptr \<Longrightarrow> e \<in> A \<and> ident hp e = (key, hash) \<and> hp e \<noteq> None"
proof -
  obtain bs where "table_of tb hp bs" "set (concat bs) = A" using assms(1) by (auto simp: table_holds_def)
  then have inj: "inj_on (ident hp) A" by (auto simp: table_of_def)
  have found: "a = e \<and> a \<noteq> nullptr" if "a \<in> A" "ident hp a = (key, hash)" for a
    using entry_of_eqI [OF inj that] assms(2) table_holds_alive(1) [OF assms(1) that(1)] by simp
  show "e = nullptr \<Longrightarrow> \<forall>a \<in> A. ident hp a \<noteq> (key, hash)" using found by blast
  assume "e \<noteq> nullptr"
  then obtain a where "a \<in> A" "ident hp a = (key, hash)" using assms(2) by (auto simp: entry_of_def split: if_splits)
  then show "e \<in> A \<and> ident hp e = (key, hash) \<and> hp e \<noteq> None"
    using found table_holds_alive(2) [OF assms(1)] by blast
qed

section \<open>References\<close>

lemma Ref_state:
  assumes st: "shard_state sh L A" and h: "sh_heap sh e = Some h" "h_refs h \<noteq> 0" "can_ref h" and e: "e \<noteq> lru_head"
  shows "\<exists>sh' h'. Shard_Ref sh e = Some (True, sh') \<and> shard_state sh' L A \<and> keeps {e} sh sh'
    \<and> sh_heap sh' e = Some h' \<and> h_refs h' = h_refs h + 1 \<and> same_entry h h'"
proof -
  obtain bt low hi where i: "shard_inv sh {} 0 bt low hi A" "L = bt @ low @ hi"
    using st by (auto simp: shard_state_def)
  let ?sh = "sh\<lparr>sh_heap := upd e handle_Ref (sh_heap sh)\<rparr>"
  have i1: "shard_inv sh {e} (the_charge sh e) bt low hi A" using inv_exempt [OF i(1) _ e] h by simp
  have a: "at sh e handle_Ref = Some ?sh" "shard_inv ?sh {e} (the_charge sh e) bt low hi A" "keeps {e} sh ?sh"
    using inv_at [OF i1 _ h(1), of handle_Ref] by simp_all
  have r: "h_refs h + 1 \<noteq> 0" using h(3) by (metis add.commute add_eq_0_iff can_ref_def)
  have "entry_ok A (set (bt @ low @ hi)) e (handle_Ref h)"
    using invD(7) [OF i(1) h(1) e] h(2) r by (simp add: entry_ok_def handle_Ref_def InCache_def)
  then have "shard_inv ?sh ({e} - {e}) (the_charge sh e - the_charge ?sh e) bt low hi A"
    by (intro inv_absorb [OF a(2)]) (use h in \<open>simp_all add: charge_of_def handle_Ref_def\<close>)
  then have "shard_inv ?sh {} 0 bt low hi A" using h by (simp add: charge_of_def handle_Ref_def)
  then have "shard_state ?sh L A" using st i(2) by (auto simp: shard_state_def)
  moreover have "Shard_Ref sh e = Some (True, ?sh)"
    using h a(1) by (simp add: Shard_Ref_def check_def HasRefs_def word_gt_0)
  ultimately show ?thesis
    using a(3) h by (intro exI [of _ ?sh] exI [of _ "handle_Ref h"]) (simp add: handle_Ref_def same_entry_def handle_key_def)
qed

text \<open>Taking a reference to an exempt entry that is in the table and not in the list.\<close>

lemma take_ref:
  assumes inv: "shard_inv sh {e} (the_charge sh e) bt low hi A" and h: "sh_heap sh e = Some h" "can_ref h" "InCache h"
    and e: "e \<in> A" "e \<notin> set (bt @ low @ hi)" "h_next h = nullptr" "h_prev h = nullptr"
  shows "\<exists>sh' h'. do { sh \<leftarrow> at sh e handle_Ref; sh \<leftarrow> at sh e SetHit; Some (e, sh) } = Some (e, sh')
    \<and> shard_inv sh' {} 0 bt low hi A \<and> keeps {e} sh sh' \<and> sh_heap sh' e = Some h'
    \<and> h_refs h' = h_refs h + 1 \<and> HasHit h' \<and> same_entry h h' \<and> sh_usage sh' = sh_usage sh"
proof -
  let ?h = "SetHit (handle_Ref h)"
  let ?sh1 = "sh\<lparr>sh_heap := upd e handle_Ref (sh_heap sh)\<rparr>"
  let ?sh2 = "?sh1\<lparr>sh_heap := upd e SetHit (sh_heap ?sh1)\<rparr>"
  have a: "at sh e handle_Ref = Some ?sh1" "shard_inv ?sh1 {e} (the_charge sh e) bt low hi A" "keeps {e} sh ?sh1"
    using inv_at [OF inv _ h(1), of handle_Ref] by simp_all
  have h1: "sh_heap ?sh1 e = Some (handle_Ref h)" using h by simp
  have b: "at ?sh1 e SetHit = Some ?sh2" "shard_inv ?sh2 {e} (the_charge sh e) bt low hi A" "keeps {e} ?sh1 ?sh2"
    using inv_at [OF a(2) _ h1, of SetHit] by simp_all
  have r: "h_refs h + 1 \<noteq> 0" using h(2) by (metis add.commute add_eq_0_iff can_ref_def)
  have f: "h_refs ?h = h_refs h + 1" "h_next ?h = h_next h" "h_prev ?h = h_prev h" "h_total_charge ?h = h_total_charge h"
    "same_entry h ?h" by (simp_all add: SetHit_def handle_Ref_def same_entry_def handle_key_def)
  have m: "h_m_flags (handle_Ref h) = h_m_flags h" by (simp add: handle_Ref_def)
  then have g: "InCache ?h" "HasHit ?h" using h(3) by (simp_all add: handle_flag_tests bit_setters)
  have h2: "sh_heap ?sh2 e = Some ?h" using h by simp
  then have c: "the_charge ?sh2 e = the_charge sh e" using h f by (simp add: charge_of_def)
  have "entry_ok A (set (bt @ low @ hi)) e ?h" using e f g r by (simp add: entry_ok_def)
  from inv_absorb [OF b(2) _ h2 this] have "shard_inv ?sh2 {} 0 bt low hi A" using c by simp
  moreover have "keeps {e} sh ?sh2" using keeps_trans [OF a(3) b(3)] by simp
  ultimately show ?thesis using a(1) b(1) h2 f g by (intro exI [of _ ?sh2] exI [of _ ?h]) simp
qed

lemma Lookup_state:
  assumes st: "shard_state sh L A" and e: "entry_of (sh_heap sh) A key hash = e"
    and ref: "\<And>h. sh_heap sh e = Some h \<Longrightarrow> can_ref h"
  shows "e = nullptr \<Longrightarrow> Shard_Lookup sh key hash = Some (nullptr, sh)"
    and "e \<noteq> nullptr \<Longrightarrow> \<exists>sh' h h'. Shard_Lookup sh key hash = Some (e, sh') \<and> shard_state sh' (removeAll e L) A
      \<and> keeps {e} sh sh' \<and> sh_heap sh e = Some h \<and> sh_heap sh' e = Some h' \<and> h_refs h' = h_refs h + 1
      \<and> HasHit h' \<and> same_entry h h'"
proof -
  note T = shard_table [OF st]
  have lk: "Table_Lookup (sh_table sh) (sh_heap sh) key hash = Some e" using Table_Lookup_holds [OF T(1)] e by simp
  then show "e = nullptr \<Longrightarrow> Shard_Lookup sh key hash = Some (nullptr, sh)" by (simp add: Shard_Lookup_def)
  assume nz: "e \<noteq> nullptr"
  obtain h where h: "sh_heap sh e = Some h" and eA: "e \<in> A" using entry_of_props(2) [OF T(1) e nz] by auto
  have eh: "e \<noteq> lru_head" using eA T(2) by auto
  note E = shard_entry [OF st h eh]
  obtain bt low hi where i: "shard_inv sh {} 0 bt low hi A" "L = bt @ low @ hi"
    using st by (auto simp: shard_state_def)
  have i1: "shard_inv sh {e} (the_charge sh e) bt low hi A" using inv_exempt [OF i(1) _ eh] h by simp
  have ic: "InCache h" using E(1) eA by simp
  have cap: "sh_capacity sh < sh_usage sh \<Longrightarrow> L = []" using st by (simp add: shard_state_def)
  show "\<exists>sh' h h'. Shard_Lookup sh key hash = Some (e, sh') \<and> shard_state sh' (removeAll e L) A
      \<and> keeps {e} sh sh' \<and> sh_heap sh e = Some h \<and> sh_heap sh' e = Some h' \<and> h_refs h' = h_refs h + 1
      \<and> HasHit h' \<and> same_entry h h'"
  proof (cases "e \<in> set L")
    case False
    then have rf: "h_refs h \<noteq> 0" using E(2) by simp
    have nl: "e \<notin> set (bt @ low @ hi)" using False i(2) by simp
    obtain sh' h' where t: "do { sh \<leftarrow> at sh e handle_Ref; sh \<leftarrow> at sh e SetHit; Some (e, sh) } = Some (e, sh')"
        "shard_inv sh' {} 0 bt low hi A" "keeps {e} sh sh'" "sh_heap sh' e = Some h'"
        "h_refs h' = h_refs h + 1" "HasHit h'" "same_entry h h'" "sh_usage sh' = sh_usage sh"
      using take_ref [OF i1 h ref [OF h] ic eA nl E(4) [OF rf] E(5) [OF rf]] by blast
    have "shard_state sh' (removeAll e L) A"
      using t(2) i(2) False cap keeps_settings(1) [OF t(3)] t(8)
      by (intro shard_stateI [OF t(2)]) simp_all
    moreover have "Shard_Lookup sh key hash = Some (e, sh')"
      using lk nz h ic rf t(1) by (simp add: Shard_Lookup_def check_def HasRefs_def word_gt_0)
    ultimately show ?thesis using t h by blast
  next
    case True
    then have rf: "h_refs h = 0" using E(2) by simp
    obtain sh1 where r: "LRU_Remove sh e = Some sh1" "keeps {} sh sh1" "sh_usage sh1 = sh_usage sh"
        "shard_inv sh1 {e} (the_charge sh e) (removeAll e bt) (removeAll e low) (removeAll e hi) A"
        "next_of (sh_heap sh1) e = nullptr" "prev_of (sh_heap sh1) e = nullptr"
      using LRU_Remove_inv [OF i1] True i(2) by blast
    obtain h1 where h1: "sh_heap sh1 e = Some h1" "pub h1 = pub h" using keeps_Some [OF r(2) h] by auto
    note p = pub_eqD [OF h1(2)]
    have "the_charge sh1 e = the_charge sh e" using charge_of_pub [OF r(2)] by simp
    with r(4) have i2: "shard_inv sh1 {e} (the_charge sh1 e) (removeAll e bt) (removeAll e low) (removeAll e hi) A" by simp
    have "can_ref h1" "InCache h1" "h_next h1 = nullptr" "h_prev h1 = nullptr"
      using ref [OF h] ic p r(5,6) h1(1) by (simp_all add: can_ref_def next_of_def prev_of_def)
    from take_ref [OF i2 h1(1) this(1,2) eA _ this(3,4)] obtain sh' h' where
      t: "do { sh \<leftarrow> at sh1 e handle_Ref; sh \<leftarrow> at sh e SetHit; Some (e, sh) } = Some (e, sh')"
        "shard_inv sh' {} 0 (removeAll e bt) (removeAll e low) (removeAll e hi) A" "keeps {e} sh1 sh'" "sh_heap sh' e = Some h'"
        "h_refs h' = h_refs h1 + 1" "HasHit h'" "same_entry h1 h'" "sh_usage sh' = sh_usage sh1" by auto
    have "keeps {e} sh sh'" using keeps_trans [OF r(2) t(3)] by simp
    moreover have "shard_state sh' (removeAll e L) A"
      using i(2) cap r(3) t(8) keeps_settings(1) [OF \<open>keeps {e} sh sh'\<close>] True by (intro shard_stateI [OF t(2)]) auto
    moreover have "Shard_Lookup sh key hash = Some (e, sh')"
      using lk nz h ic rf r(1) t(1) by (simp add: Shard_Lookup_def check_def HasRefs_def)
    moreover have "same_entry h h'" using same_entry_trans [OF same_entry_pub [OF h1(2)] t(7)] .
    ultimately show ?thesis using t h p(6) by auto
  qed
qed

section \<open>Removing entries from the table\<close>

lemma word_eq_minus: "unat (w - c) = unat w - unat c" if "c \<le> w" for w c :: u64
  using that by (rule word_minus_nat)

lemma settings_calls: "settings (sh\<lparr>sh_calls := c\<rparr>) = (settings sh)\<lparr>sh_calls := c\<rparr>"
  by (cases sh) (simp add: settings_def lru_rest_def)

lemma keeps_calls: "keeps D sh sh' \<Longrightarrow> keeps D (sh\<lparr>sh_calls := c\<rparr>) (sh'\<lparr>sh_calls := c\<rparr>)"
  by (simp add: keeps_def settings_calls)

text \<open>Taking an exempt entry out of the usage and freeing it.\<close>

lemma drop_entry:
  assumes inv: "shard_inv sh {e} (unat (h_total_charge h)) bt low hi A" and e: "e \<notin> A" "e \<notin> set (bt @ low @ hi)"
    and h: "sh_heap sh e = Some h" "h_refs h = 0"
  shows "h_total_charge h \<le> sh_usage sh"
    and "\<exists>sh'. handle_Free (sh\<lparr>sh_usage := sh_usage sh - h_total_charge h\<rparr>) e = Some sh' \<and> shard_inv sh' {} 0 bt low hi A
      \<and> keeps {e} (sh\<lparr>sh_calls := sh_calls sh @ delete_calls h\<rparr>) sh' \<and> sh_heap sh' e = None \<and> sh_usage sh' \<le> sh_usage sh"
proof -
  note u = inv_usage_sub [OF inv, of "h_total_charge h"]
  show le: "h_total_charge h \<le> sh_usage sh" using u(1) by simp
  let ?sh1 = "sh\<lparr>sh_usage := sh_usage sh - h_total_charge h\<rparr>"
  let ?sh2 = "?sh1\<lparr>sh_heap := (sh_heap ?sh1)(e := None)\<rparr>"
  let ?sh3 = "?sh2\<lparr>sh_calls := sh_calls sh @ delete_calls h\<rparr>"
  have i1: "shard_inv ?sh1 {e} 0 bt low hi A" using u(2) by simp
  have h1: "sh_heap ?sh1 e = Some h" using h by simp
  note f = handle_Free_inv [OF i1 _ e h1 h(2)]
  have f1: "handle_Free ?sh1 e = Some ?sh3" and f2: "shard_inv ?sh3 {} 0 bt low hi A" using f(1,2) by simp_all
  have "keeps {e} sh ?sh2" using keeps_trans [OF u(3) f(3)] by simp
  then have "keeps {e} (sh\<lparr>sh_calls := sh_calls sh @ delete_calls h\<rparr>) ?sh3" by (rule keeps_calls)
  moreover have "sh_usage ?sh3 \<le> sh_usage sh" using le by (simp add: word_le_nat_alt word_eq_minus)
  ultimately show "\<exists>sh'. handle_Free ?sh1 e = Some sh' \<and> shard_inv sh' {} 0 bt low hi A
      \<and> keeps {e} (sh\<lparr>sh_calls := sh_calls sh @ delete_calls h\<rparr>) sh' \<and> sh_heap sh' e = None \<and> sh_usage sh' \<le> sh_usage sh"
    using f1 f2 by (intro exI [of _ ?sh3]) simp
qed

lemma Erase_state:
  assumes st: "shard_state sh L A" and e: "entry_of (sh_heap sh) A key hash = e"
  shows "\<exists>sh' calls. Shard_Erase sh key hash = Some sh' \<and> shard_state sh' (removeAll e L) (A - {e})
    \<and> keeps {e} (sh\<lparr>sh_calls := sh_calls sh @ calls\<rparr>) sh'
    \<and> (\<forall>h. sh_heap sh e = Some h \<longrightarrow>
        (if h_refs h = 0 then sh_heap sh' e = None \<and> calls = delete_calls h
         else calls = [] \<and> (\<exists>h'. sh_heap sh' e = Some h' \<and> h_refs h' = h_refs h \<and> same_entry h h')))"
proof (cases "e = nullptr")
  case True
  note T = shard_table [OF st]
  obtain bt low hi where i: "shard_inv sh {} 0 bt low hi A" "L = bt @ low @ hi"
    using st by (auto simp: shard_state_def)
  have nA: "e \<notin> A" using table_holds_alive(1) [OF T(1)] True by blast
  obtain tb' hp' where t: "Table_Remove (sh_table sh) (sh_heap sh) key hash = Some (e, tb', hp')"
      "table_holds tb' hp' (A - {e})" "same_but_links (sh_heap sh) hp'"
    using Table_Remove_holds [OF T(1) e] by blast
  let ?sh = "sh\<lparr>sh_table := tb', sh_heap := hp'\<rparr>"
  have "shard_inv ?sh {} 0 bt low hi (A - {e})"
    by (rule inv_table [OF i(1) t(3,2)]) (use nA T(2) in auto)
  moreover have "e \<notin> set L" using i lru_linksD(3) [OF lru_okD(1) [OF invD(1) [OF i(1)]]] True by auto
  ultimately have "shard_state ?sh (removeAll e L) (A - {e})"
    using st i(2) by (auto simp: shard_state_def)
  moreover have "Shard_Erase sh key hash = Some ?sh" using t(1) True by (simp add: Shard_Erase_def)
  moreover have "keeps {e} (sh\<lparr>sh_calls := sh_calls sh @ []\<rparr>) ?sh" using keeps_links [OF t(3)] keeps_mono by fastforce
  ultimately show ?thesis using T(3) True by (intro exI [of _ ?sh] exI [of _ "[]"]) simp
next
  case nz: False
  note T = shard_table [OF st]
  obtain h where h: "sh_heap sh e = Some h" and eA: "e \<in> A" and id: "ident (sh_heap sh) e = (key, hash)"
    using entry_of_props(2) [OF T(1) e nz] by auto
  have kh: "handle_key h = key" "h_hash h = hash" using id h by (auto simp: ident_def)
  have eh: "e \<noteq> lru_head" using eA T(2) by auto
  note E = shard_entry [OF st h eh]
  obtain bt low hi where i: "shard_inv sh {} 0 bt low hi A" "L = bt @ low @ hi"
    using st by (auto simp: shard_state_def)
  have i1: "shard_inv sh {e} (the_charge sh e) bt low hi A" using inv_exempt [OF i(1) _ eh] h by simp
  obtain tb hp where r2: "Table_Remove (sh_table sh) (sh_heap sh) key hash = Some (e, tb, hp)"
      "shard_inv (sh\<lparr>sh_table := tb, sh_heap := hp\<rparr>) {e} (the_charge sh e) bt low hi (A - {e})"
      "same_but_links (sh_heap sh) hp"
    using Table_Remove_inv [OF i1 eA _ h] unfolding kh by blast
  let ?sh2 = "sh\<lparr>sh_table := tb, sh_heap := hp\<rparr>"
  obtain v where hv: "hp e = Some (h\<lparr>h_next_hash := v\<rparr>)" using same_but_links_Some [OF r2(3) h] .
  then have h2: "sh_heap ?sh2 e = Some (h\<lparr>h_next_hash := v\<rparr>)" by simp
  let ?h3 = "SetInCache False (h\<lparr>h_next_hash := v\<rparr>)"
  let ?sh3 = "?sh2\<lparr>sh_heap := upd e (SetInCache False) (sh_heap ?sh2)\<rparr>"
  have r3: "at ?sh2 e (SetInCache False) = Some ?sh3"
      "shard_inv ?sh3 {e} (the_charge sh e) bt low hi (A - {e})" "keeps {e} ?sh2 ?sh3"
    using inv_at [OF r2(2) _ h2, of "SetInCache False"] by simp_all
  have h3: "sh_heap ?sh3 e = Some ?h3" using h2 by simp
  have k3: "keeps {e} sh ?sh3" using keeps_trans [OF keeps_links [OF r2(3), of tb] r3(3)] by simp
  have ic: "InCache h" using E(1) eA by simp
  have cap: "sh_capacity sh < sh_usage sh \<Longrightarrow> L = []" using st by (simp add: shard_state_def)
  have run: "Shard_Erase sh key hash = (if h_refs h = 0 then do {
           sh \<leftarrow> LRU_Remove ?sh3 e;
           check (h_total_charge h \<le> sh_usage sh);
           handle_Free (sh\<lparr>sh_usage := sh_usage sh - h_total_charge h\<rparr>) e } else Some ?sh3)"
    using r2(1) nz h2 ic r3(1) hv by (simp add: Shard_Erase_def check_def InCache_def HasRefs_def word_gt_0 Let_def)
  show ?thesis
  proof (cases "h_refs h = 0")
    case False
    then have "entry_ok (A - {e}) (set (bt @ low @ hi)) e ?h3"
      using E i(2) by (simp add: entry_ok_def)
    from inv_absorb [OF r3(2) _ h3 this] have "shard_inv ?sh3 {} 0 bt low hi (A - {e})"
      using h hv by (simp add: charge_of_def)
    then have "shard_state ?sh3 (removeAll e L) (A - {e})"
      using E(2) False i(2) cap by (intro shard_stateI) simp_all
    moreover have "same_entry h ?h3" by (simp add: same_entry_def handle_key_def SetInCache_def)
    ultimately show ?thesis
      using run False h hv k3 by (intro exI [of _ ?sh3] exI [of _ "[]"]) simp
  next
    case True
    then have eL: "e \<in> set (bt @ low @ hi)" using E(2) i(2) by simp
    obtain sh4 where r4: "LRU_Remove ?sh3 e = Some sh4" "keeps {} ?sh3 sh4" "sh_usage sh4 = sh_usage sh"
        "shard_inv sh4 {e} (the_charge sh e) (removeAll e bt) (removeAll e low) (removeAll e hi) (A - {e})"
      using LRU_Remove_inv [OF r3(2) _ eL] by auto
    obtain h4 where h4: "sh_heap sh4 e = Some h4" "pub h4 = pub ?h3" using keeps_Some [OF r4(2) h3] by auto
    note p = pub_eqD [OF h4(2)]
    have c: "h_total_charge h4 = h_total_charge h" using p(3) by simp
    have i4: "shard_inv sh4 {e} (unat (h_total_charge h4)) (removeAll e bt) (removeAll e low) (removeAll e hi) (A - {e})"
      using r4(4) h c by (simp add: charge_of_def)
    note d = drop_entry [OF i4 _ _ h4(1)]
    have dc: "delete_calls h4 = delete_calls h" using p(1,2) by (simp add: delete_calls_def)
    have le: "h_total_charge h \<le> sh_usage sh4" using d(1) c p(6) True by simp
    obtain sh5 where r5: "handle_Free (sh4\<lparr>sh_usage := sh_usage sh4 - h_total_charge h\<rparr>) e = Some sh5"
        "shard_inv sh5 {} 0 (removeAll e bt) (removeAll e low) (removeAll e hi) (A - {e})"
        "keeps {e} (sh4\<lparr>sh_calls := sh_calls sh4 @ delete_calls h\<rparr>) sh5" "sh_heap sh5 e = None" "sh_usage sh5 \<le> sh_usage sh4"
      using d(2) c dc p(6) True by auto
    have k4: "keeps {e} sh sh4" using keeps_trans [OF k3 r4(2)] by simp
    have k5: "keeps {e} (sh\<lparr>sh_calls := sh_calls sh @ delete_calls h\<rparr>) sh5"
      using keeps_trans [OF keeps_calls [OF k4] r5(3) [unfolded keeps_settings(3) [OF k4]]] by simp
    have "sh_capacity sh5 < sh_usage sh5 \<Longrightarrow> L = []"
      using cap keeps_settings(1) [OF k5] r4(3) r5(5) by simp
    then have "shard_state sh5 (removeAll e L) (A - {e})"
      using i(2) by (intro shard_stateI [OF r5(2)]) auto
    moreover have "Shard_Erase sh key hash = Some sh5" using run True r4(1) le r5(1) by (simp add: check_def)
    ultimately show ?thesis using h True k5 r5(4) by (intro exI [of _ sh5] exI [of _ "delete_calls h"]) simp
  qed
qed

section \<open>Releasing references\<close>

text \<open>The last reference of an entry that is in the table and may not stay: out of the table and freed.\<close>

lemma release_erase:
  assumes inv: "shard_inv sh {e} (the_charge sh e) bt low hi A" and h: "sh_heap sh e = Some h" "h_refs h = 0"
    and e: "e \<in> A" "e \<notin> set (bt @ low @ hi)"
  shows "\<exists>tb hp sh2 sh'. Table_Remove (sh_table sh) (sh_heap sh) (handle_key h) (h_hash h) = Some (e, tb, hp)
    \<and> at (sh\<lparr>sh_table := tb, sh_heap := hp\<rparr>) e (SetInCache False) = Some sh2 \<and> h_total_charge h \<le> sh_usage sh2
    \<and> handle_Free (sh2\<lparr>sh_usage := sh_usage sh2 - h_total_charge h\<rparr>) e = Some sh'
    \<and> shard_inv sh' {} 0 bt low hi (A - {e}) \<and> keeps {e} (sh\<lparr>sh_calls := sh_calls sh @ delete_calls h\<rparr>) sh'
    \<and> sh_heap sh' e = None \<and> sh_usage sh' \<le> sh_usage sh"
proof -
  obtain tb hp where r: "Table_Remove (sh_table sh) (sh_heap sh) (handle_key h) (h_hash h) = Some (e, tb, hp)"
      "shard_inv (sh\<lparr>sh_table := tb, sh_heap := hp\<rparr>) {e} (the_charge sh e) bt low hi (A - {e})"
      "same_but_links (sh_heap sh) hp"
    using Table_Remove_inv [OF inv e(1) _ h(1)] by blast
  let ?sh1 = "sh\<lparr>sh_table := tb, sh_heap := hp\<rparr>"
  obtain v where hv: "hp e = Some (h\<lparr>h_next_hash := v\<rparr>)" using same_but_links_Some [OF r(3) h(1)] .
  then have h1: "sh_heap ?sh1 e = Some (h\<lparr>h_next_hash := v\<rparr>)" by simp
  let ?h2 = "SetInCache False (h\<lparr>h_next_hash := v\<rparr>)"
  let ?sh2 = "?sh1\<lparr>sh_heap := upd e (SetInCache False) (sh_heap ?sh1)\<rparr>"
  have t: "at ?sh1 e (SetInCache False) = Some ?sh2"
      "shard_inv ?sh2 {e} (the_charge sh e) bt low hi (A - {e})" "keeps {e} ?sh1 ?sh2"
    using inv_at [OF r(2) _ h1, of "SetInCache False"] by simp_all
  have h2: "sh_heap ?sh2 e = Some ?h2" using h1 by simp
  have k2: "keeps {e} sh ?sh2" using keeps_trans [OF keeps_links [OF r(3), of tb] t(3)] by simp
  have i2: "shard_inv ?sh2 {e} (unat (h_total_charge ?h2)) bt low hi (A - {e})" using t(2) h by (simp add: charge_of_def)
  have q: "h_total_charge ?h2 = h_total_charge h" "delete_calls ?h2 = delete_calls h" "h_refs ?h2 = 0"
    using h(2) by (simp_all add: delete_calls_def)
  note d = drop_entry [OF i2 _ e(2) h2 q(3), unfolded q]
  obtain sh' where f: "handle_Free (?sh2\<lparr>sh_usage := sh_usage ?sh2 - h_total_charge h\<rparr>) e = Some sh'"
      "shard_inv sh' {} 0 bt low hi (A - {e})" "keeps {e} (?sh2\<lparr>sh_calls := sh_calls ?sh2 @ delete_calls h\<rparr>) sh'"
      "sh_heap sh' e = None" "sh_usage sh' \<le> sh_usage ?sh2"
    using d(2) by auto
  have "keeps {e} (sh\<lparr>sh_calls := sh_calls sh @ delete_calls h\<rparr>) sh'"
    using keeps_trans [OF keeps_calls [OF k2] f(3) [unfolded keeps_settings(3) [OF k2]]] by simp
  then show ?thesis using r(1) hv d(1) f
    by - (rule exI [of _ tb], rule exI [of _ hp], rule exI [of _ ?sh2], rule exI [of _ sh'], simp)
qed

lemma Release_state:
  assumes st: "shard_state sh L A" and h: "sh_heap sh e = Some h" "h_refs h \<noteq> 0" and e: "e \<noteq> lru_head"
    and freed: "freed \<longleftrightarrow> h_refs h = 1 \<and> (\<not> InCache h \<or> sh_capacity sh < sh_usage sh \<or> erase)"
  shows "\<exists>sh'. Shard_Release sh e erase = Some (freed, sh') \<and>
    (if freed then shard_state sh' L (A - {e}) \<and> keeps {e} (sh\<lparr>sh_calls := sh_calls sh @ delete_calls h\<rparr>) sh'
        \<and> sh_heap sh' e = None
     else keeps {e} sh sh' \<and> (\<exists>h'. sh_heap sh' e = Some h' \<and> h_refs h' = h_refs h - 1 \<and> same_entry h h')
        \<and> (if h_refs h = 1 then \<exists>us vs. L = us @ vs \<and> shard_state sh' (us @ e # vs) A else shard_state sh' L A))"
proof -
  note E = shard_entry [OF st h(1) e]
  have e0: "e \<noteq> nullptr" using shard_table(3) [OF st] h(1) by (cases "e = nullptr") simp_all
  obtain bt low hi where i: "shard_inv sh {} 0 bt low hi A" "L = bt @ low @ hi"
    using st by (auto simp: shard_state_def)
  have nL: "e \<notin> set (bt @ low @ hi)" using E(2) h(2) i(2) by simp
  have cap: "sh_capacity sh < sh_usage sh \<Longrightarrow> L = []" using st by (simp add: shard_state_def)
  have i1: "shard_inv sh {e} (the_charge sh e) bt low hi A" using inv_exempt [OF i(1) _ e] h by simp
  let ?h1 = "h\<lparr>h_refs := h_refs h - 1\<rparr>"
  let ?sh1 = "sh\<lparr>sh_heap := upd e (\<lambda>_. ?h1) (sh_heap sh)\<rparr>"
  have t1: "at sh e (\<lambda>_. ?h1) = Some ?sh1" "shard_inv ?sh1 {e} (the_charge sh e) bt low hi A" "keeps {e} sh ?sh1"
    using inv_at [OF i1 _ h(1), of "\<lambda>_. ?h1"] by simp_all
  have h1: "sh_heap ?sh1 e = Some ?h1" using h by simp
  have c1: "the_charge ?sh1 e = the_charge sh e" "the_charge sh e = unat (h_total_charge h)" using h by (simp_all add: charge_of_def)
  have q: "InCache ?h1 = InCache h" "handle_key ?h1 = handle_key h" "delete_calls ?h1 = delete_calls h" "same_entry h ?h1"
    by (simp_all add: InCache_def handle_key_def delete_calls_def same_entry_def)
  have un: "handle_Unref h = Some (h_refs h = 1, ?h1)"
    using h(2) by (simp add: handle_Unref_def word_gt_0)
  consider (more) "h_refs h \<noteq> 1" | (gone) "h_refs h = 1" "\<not> InCache h"
    | (erase) "h_refs h = 1" "InCache h" "sh_capacity sh < sh_usage sh \<or> erase"
    | (keep) "h_refs h = 1" "InCache h" "\<not> sh_capacity sh < sh_usage sh" "\<not> erase" by blast
  then show ?thesis
  proof cases
    case more
    then have "entry_ok A (set (bt @ low @ hi)) e ?h1" using invD(7) [OF i(1) h(1) e] h(2) q(1) by (simp add: entry_ok_def)
    from inv_absorb [OF t1(2) _ h1 this] have "shard_inv ?sh1 {} 0 bt low hi A" using c1 by simp
    then have "shard_state ?sh1 L A" using cap i(2) by (intro shard_stateI) simp_all
    moreover have "Shard_Release sh e erase = Some (False, ?sh1)"
      using e0 h un more t1(1) by (simp add: Shard_Release_def)
    ultimately show ?thesis using more freed t1(3) h q(4) by (intro exI [of _ ?sh1]) simp
  next
    case gone
    then have eA: "e \<notin> A" using E(1) by simp
    have "shard_inv ?sh1 {e} (unat (h_total_charge ?h1)) bt low hi A" using t1(2) c1 by simp
    note d = drop_entry [OF this eA nL h1]
    obtain sh' where f: "handle_Free (?sh1\<lparr>sh_usage := sh_usage ?sh1 - h_total_charge ?h1\<rparr>) e = Some sh'"
        "shard_inv sh' {} 0 bt low hi A" "keeps {e} (?sh1\<lparr>sh_calls := sh_calls ?sh1 @ delete_calls ?h1\<rparr>) sh'"
        "sh_heap sh' e = None" "sh_usage sh' \<le> sh_usage ?sh1"
      using d(2) gone by auto
    have k: "keeps {e} (sh\<lparr>sh_calls := sh_calls sh @ delete_calls h\<rparr>) sh'"
      using keeps_trans [OF keeps_calls [OF t1(3)] f(3) [unfolded q]] by simp
    have "shard_state sh' L (A - {e})"
      using f(2,5) eA i(2) cap keeps_settings(1) [OF k] by (intro shard_stateI) simp_all
    moreover have "Shard_Release sh e erase = Some (True, sh')"
      using e0 h un gone q(1) d(1) f(1) by (simp add: Shard_Release_def check_def)
    ultimately show ?thesis using gone freed k f(4) by auto
  next
    case erase
    then have eA: "e \<in> A" using E(1) by simp
    have r0: "h_refs ?h1 = 0" using erase by simp
    obtain tb hp sh2 sh' where r: "Table_Remove (sh_table ?sh1) (sh_heap ?sh1) (handle_key ?h1) (h_hash ?h1) = Some (e, tb, hp)"
        "at (?sh1\<lparr>sh_table := tb, sh_heap := hp\<rparr>) e (SetInCache False) = Some sh2" "h_total_charge ?h1 \<le> sh_usage sh2"
        "handle_Free (sh2\<lparr>sh_usage := sh_usage sh2 - h_total_charge ?h1\<rparr>) e = Some sh'"
        "shard_inv sh' {} 0 bt low hi (A - {e})" "keeps {e} (?sh1\<lparr>sh_calls := sh_calls ?sh1 @ delete_calls ?h1\<rparr>) sh'"
        "sh_heap sh' e = None" "sh_usage sh' \<le> sh_usage ?sh1"
      using release_erase [OF t1(2) [folded c1(1)] h1 r0 eA nL] by blast
    obtain lru where lru: "sh_heap sh lru_head = Some lru" "h_next lru = hd (bt @ low @ hi @ [lru_head])"
      using lru_first [OF i(1)] by blast
    have nx: "h_next lru = lru_head \<or> erase" using erase(3) cap i(2) lru(2) by auto
    have k: "keeps {e} (sh\<lparr>sh_calls := sh_calls sh @ delete_calls h\<rparr>) sh'"
      using keeps_trans [OF keeps_calls [OF t1(3)] r(6) [unfolded q]] by simp
    have "shard_state sh' L (A - {e})"
      using r(5,8) i(2) cap keeps_settings(1) [OF k] by (intro shard_stateI) simp_all
    moreover have "Shard_Release sh e erase = Some (True, sh')"
      using e0 h un erase q(1) r(1-4) lru(1) nx e by (simp add: Shard_Release_def check_def)
    ultimately show ?thesis using erase freed k r(7) by auto
  next
    case keep
    then have eA: "e \<in> A" using E(1) by simp
    have nn: "h_next ?h1 = nullptr" "h_prev ?h1 = nullptr" using E(4,5) h(2) by simp_all
    obtain sh' bt' low' hi' us vs where r: "LRU_Insert ?sh1 e = Some sh'" "shard_inv sh' {e} (the_charge sh e) bt' low' hi' A"
        "bt @ low @ hi = us @ vs" "bt' @ low' @ hi' = us @ e # vs" "keeps {} ?sh1 sh'" "sh_usage sh' = sh_usage ?sh1"
      using LRU_Insert_inv [OF t1(2) _ _ h1 nn] nL c1(1) by auto
    obtain h' where h': "sh_heap sh' e = Some h'" "pub h' = pub ?h1" using keeps_Some [OF r(5) h1] by auto
    note p = pub_eqD [OF h'(2)]
    have "entry_ok A (set (bt' @ low' @ hi')) e h'" using eA r(4) p(6,7) keep q(1) by (simp add: entry_ok_def)
    from inv_absorb [OF r(2) _ h'(1) this] have "shard_inv sh' {} 0 bt' low' hi' A"
      using charge_of_pub [OF r(5)] c1 by simp
    moreover have k: "keeps {e} sh sh'" using keeps_trans [OF t1(3) r(5)] by simp
    ultimately have "shard_state sh' (us @ e # vs) A"
      using r(4) [symmetric] r(6) keep(3) keeps_settings(1) [OF k] by (intro shard_stateI) simp_all
    moreover have "same_entry h h'" using same_entry_trans [OF q(4) same_entry_pub [OF h'(2)]] .
    moreover have "Shard_Release sh e erase = Some (False, sh')"
      using e0 h un keep q(1) r(1) by (simp add: Shard_Release_def)
    ultimately show ?thesis using keep freed k h'(1) p(6) r(3) i(2) by auto
  qed
qed

section \<open>Eviction and the settings\<close>

lemma u64_bound: "unat w < 2 ^ 64" for w :: u64
  using unsigned_less [of w, where ?'a = nat] by simp

lemma inv_settings:
  assumes "shard_inv sh D x bt low hi A" and "config_ok sh'" and "sh_heap sh' = sh_heap sh" "sh_table sh' = sh_table sh"
    "sh_usage sh' = sh_usage sh" "sh_lru_usage sh' = sh_lru_usage sh" "sh_lru_low_pri sh' = sh_lru_low_pri sh"
    "sh_lru_bottom_pri sh' = sh_lru_bottom_pri sh" "sh_high_pri_pool_usage sh' = sh_high_pri_pool_usage sh"
    "sh_low_pri_pool_usage sh' = sh_low_pri_pool_usage sh"
  shows "shard_inv sh' D x bt low hi A"
  using assms unfolding shard_inv_def lru_ok_def lru_links_def by simp

text \<open>The calls made when the entries of a list are evicted.\<close>

definition evictions :: "LRUCacheShard \<Rightarrow> addr list \<Rightarrow> CacheCall list" where
  "evictions sh ds = concat (map (\<lambda>a. evict_calls (sh_eviction_callback sh) (the (sh_heap sh a))) ds)"

definition deletions :: "LRUCacheShard \<Rightarrow> addr list \<Rightarrow> CacheCall list" where
  "deletions sh ds = concat (map (\<lambda>a. delete_calls (the (sh_heap sh a))) ds)"

lemma evicted_calls:
  assumes "evicted_all (set ds) hp hp'"
  shows "map (\<lambda>a. evict_calls cb (the (hp' a))) ds = map (\<lambda>a. evict_calls cb (the (hp a))) ds"
    and "map (\<lambda>a. delete_calls (the (hp' a))) ds = map (\<lambda>a. delete_calls (the (hp a))) ds"
    and "a \<in> set ds \<Longrightarrow> \<exists>h. hp' a = Some h \<and> h_refs h = 0"
  using assms
  by (auto simp: evicted_all_def evict_calls_cong evicted_from_def delete_calls_def dest!: bspec split: option.splits)

lemma NotifyEvicted_inv:
  assumes inv: "shard_inv sh (set ds \<union> D) x bt low hi A" and ds: "distinct ds" "set ds \<inter> (A \<union> set (bt @ low @ hi) \<union> D) = {}"
    and ev: "evicted_all (set ds) hp (sh_heap sh)"
  shows "\<exists>sh'. NotifyEvicted sh ds = Some sh' \<and> shard_inv sh' D x bt low hi A
    \<and> keeps (set ds) (sh\<lparr>sh_calls := sh_calls sh @ evictions (sh\<lparr>sh_heap := hp\<rparr>) ds\<rparr>) sh'
    \<and> (\<forall>a. sh_heap sh' a = (if a \<in> set ds then None else sh_heap sh a)) \<and> sh_usage sh' = sh_usage sh"
proof -
  let ?sh = "(free_cells (set ds) sh)\<lparr>sh_calls := sh_calls sh @ evictions (sh\<lparr>sh_heap := hp\<rparr>) ds\<rparr>"
  have "NotifyEvicted sh ds = Some ?sh"
    using NotifyEvicted_run [OF ds(1) evicted_calls(3) [OF ev]] evicted_calls(1) [OF ev] by (simp add: evictions_def)
  moreover have "shard_inv ?sh D x bt low hi A" using inv_free_cells [OF inv ds(2)] by simp
  moreover have "keeps (set ds) (sh\<lparr>sh_calls := sh_calls sh @ evictions (sh\<lparr>sh_heap := hp\<rparr>) ds\<rparr>) ?sh"
    by (rule keeps_calls [OF keeps_free_cells])
  ultimately show ?thesis by auto
qed

lemma inv_distinct: "shard_inv sh D x bt low hi A \<Longrightarrow> distinct (bt @ low @ hi)"
  using lru_linksD(2) [OF lru_okD(1) [OF invD(1)]] by fastforce

lemma EraseUnRefEntries_state:
  assumes st: "shard_state sh L A"
  shows "\<exists>sh'. EraseUnRefEntries sh = Some sh' \<and> shard_state sh' [] (A - set L)
    \<and> keeps (set L) (sh\<lparr>sh_calls := sh_calls sh @ deletions sh L\<rparr>) sh' \<and> (\<forall>a \<in> set L. sh_heap sh' a = None)"
proof -
  obtain bt low hi where i: "shard_inv sh {} 0 bt low hi A" "L = bt @ low @ hi"
    using st by (auto simp: shard_state_def)
  obtain sh1 where r: "EraseUnRefEntries_loop sh [] = Some (sh1, L)" "shard_inv sh1 (set L \<union> {}) 0 [] [] [] (A - set L)"
      "keeps (set L) sh sh1" "evicted_all (set L) (sh_heap sh) (sh_heap sh1)"
    using EraseUnRefEntries_loop_inv [OF i(1), of "[]"] i(2) by auto
  let ?sh2 = "(free_cells (set L) sh1)\<lparr>sh_calls := sh_calls sh @ deletions sh L\<rparr>"
  have "distinct L" using inv_distinct [OF i(1)] i(2) by simp
  note free_all_run [OF this evicted_calls(3) [OF r(4)]]
  then have "free_all sh1 L = Some ?sh2"
    using evicted_calls(2) [OF r(4)] keeps_settings(3) [OF r(3)] by (simp add: deletions_def)
  moreover have "shard_inv ?sh2 {} 0 [] [] [] (A - set L)" using inv_free_cells [OF r(2)] by auto
  then have "shard_state ?sh2 [] (A - set L)" by (intro shard_stateI) simp_all
  moreover have "keeps (set L) (sh\<lparr>sh_calls := sh_calls sh @ deletions sh L\<rparr>) ?sh2"
    using keeps_calls [OF keeps_trans [OF r(3) keeps_free_cells [of "set L"]]] by simp
  ultimately show ?thesis using r(1) by (intro exI [of _ ?sh2]) (simp add: EraseUnRefEntries_def)
qed

text \<open>The settings that a new capacity or ratio determines.\<close>

abbreviation with_capacity :: "LRUCacheShard \<Rightarrow> u64 \<Rightarrow> LRUCacheShard" where
  "with_capacity sh capacity \<equiv> sh\<lparr>sh_capacity := capacity,
     sh_high_pri_pool_capacity := double_mult (double_of_u64 capacity) (sh_high_pri_pool_ratio sh),
     sh_low_pri_pool_capacity := double_mult (double_of_u64 capacity) (sh_low_pri_pool_ratio sh)\<rparr>"

lemma Shard_SetCapacity_inv:
  assumes i: "shard_inv sh {} 0 bt low hi A" and L: "L = bt @ low @ hi"
    and ds: "ds = lru_victims (the_charge sh) (unat capacity) (unat (sh_usage sh)) L"
  shows "\<exists>sh' L'. Shard_SetCapacity sh capacity = Some sh' \<and> L = ds @ L' \<and> shard_state sh' L' (A - set ds)
    \<and> keeps (set ds) ((with_capacity sh capacity)\<lparr>sh_calls := sh_calls sh @ evictions sh ds\<rparr>) sh'
    \<and> (\<forall>a \<in> set ds. sh_heap sh' a = None)"
proof -
  have "config_ok (with_capacity sh capacity)" using invD(9) [OF i] by (simp add: config_ok_def not_negative_mult)
  from inv_settings [OF i this] have i0: "shard_inv (with_capacity sh capacity) {} 0 bt low hi A" by simp
  have u: "unat (sh_usage (with_capacity sh capacity)) + unat (0::u64) < 2 ^ 64"
    using u64_bound [of "sh_usage sh"] by simp
  have e: "set (bt @ low @ hi) \<inter> {} = {}" by simp
  obtain sh1 bt' low' hi' ds' where r': "EvictFromLRU (with_capacity sh capacity) 0 [] = Some (sh1, [] @ ds')"
      "ds' = lru_victims (the_charge (with_capacity sh capacity)) (unat (sh_capacity (with_capacity sh capacity)))
         (unat (sh_usage (with_capacity sh capacity)) + unat (0::u64)) (bt @ low @ hi)"
      "bt @ low @ hi = ds' @ bt' @ low' @ hi'" "shard_inv sh1 (set ds' \<union> {}) 0 bt' low' hi' (A - set ds')"
      "keeps (set ds') (with_capacity sh capacity) sh1"
      "evicted_all (set ds') (sh_heap (with_capacity sh capacity)) (sh_heap sh1)"
      "sh_capacity (with_capacity sh capacity) < sh_usage sh1 + 0 \<longrightarrow> bt' @ low' @ hi' = []"
    using EvictFromLRU_inv [OF i0 e u, of "[]"] by blast
  have "ds' = ds" using r'(2) ds L by simp
  note r = r'(1,3-) [unfolded this]
  have d: "distinct ds" "set ds \<inter> (A - set ds \<union> set (bt' @ low' @ hi') \<union> {}) = {}"
    using inv_distinct [OF i] unfolding r(2) by auto
  obtain sh2 where n: "NotifyEvicted sh1 ds = Some sh2" "shard_inv sh2 {} 0 bt' low' hi' (A - set ds)"
      "keeps (set ds) (sh1\<lparr>sh_calls := sh_calls sh1 @ evictions (sh1\<lparr>sh_heap := sh_heap sh\<rparr>) ds\<rparr>) sh2"
      "\<forall>a. sh_heap sh2 a = (if a \<in> set ds then None else sh_heap sh1 a)" "sh_usage sh2 = sh_usage sh1"
    using NotifyEvicted_inv [OF r(3) d r(5)] by auto
  have ev: "evictions (sh1\<lparr>sh_heap := sh_heap sh\<rparr>) ds = evictions sh ds" using keeps_settings(4) [OF r(4)] by (simp add: evictions_def)
  have k: "keeps (set ds) ((with_capacity sh capacity)\<lparr>sh_calls := sh_calls sh @ evictions sh ds\<rparr>) sh2"
    using keeps_trans [OF keeps_calls [OF r(4)] n(3) [unfolded ev keeps_settings(3) [OF r(4)]]] by simp
  have "shard_state sh2 (bt' @ low' @ hi') (A - set ds)"
    using n(5) r(6) keeps_settings(1) [OF k] by (intro shard_stateI [OF n(2)]) simp_all
  moreover have "Shard_SetCapacity sh capacity = Some sh2" using r(1) n(1) by (simp add: Shard_SetCapacity_def)
  ultimately show ?thesis using k n(4) r(2) L by auto
qed

lemma MaintainPoolSize_inv:
  assumes inv: "shard_inv sh {} 0 bt low hi A"
  shows "\<exists>sh' bt' low' hi'. MaintainPoolSize sh = Some sh' \<and> shard_inv sh' {} 0 bt' low' hi' A
    \<and> bt' @ low' @ hi' = bt @ low @ hi \<and> keeps {} sh sh' \<and> sh_usage sh' = sh_usage sh
    \<and> \<not> double_less (sh_high_pri_pool_capacity sh') (double_of_u64 (sh_high_pri_pool_usage sh'))
    \<and> \<not> double_less (sh_low_pri_pool_capacity sh') (double_of_u64 (sh_low_pri_pool_usage sh'))"
proof -
  note l = invD(1) [OF inv]
  have "charges (sh_heap sh) (bt @ low @ hi) < 2 ^ 64" using lru_okD(2) [OF l] u64_bound [of "sh_lru_usage sh"] by simp
  with MaintainPoolSize_ok [OF lru_okD(1) [OF l]] invD(9) [OF inv]
  obtain sh' bt' low' hi' where m: "MaintainPoolSize sh = Some sh'" "lru_links sh' bt' low' hi'"
      "bt' @ low' @ hi' = bt @ low @ hi" "lru_frame (set (bt @ low @ hi)) sh sh'" "sh_lru_usage sh' = sh_lru_usage sh"
      "\<not> double_less (sh_high_pri_pool_capacity sh') (double_of_u64 (sh_high_pri_pool_usage sh'))"
      "\<not> double_less (sh_low_pri_pool_capacity sh') (double_of_u64 (sh_low_pri_pool_usage sh'))"
    unfolding config_ok_def by blast
  have k: "keeps {} sh sh'" using keeps_lru_frame [OF m(4)] .
  have "charge_of (sh_heap sh') = charge_of (sh_heap sh)" using charge_of_pub [OF k] by (intro ext) simp
  then have "charges (sh_heap sh') (bt @ low @ hi) = charges (sh_heap sh) (bt @ low @ hi)" by (simp add: charges_def)
  then have "lru_ok sh' bt' low' hi'" using m(2,3,5) lru_okD(2) [OF l] by (simp add: lru_ok_def)
  from inv_lru_frame [OF inv this m(4)] have "shard_inv sh' {} 0 bt' low' hi' A" using m(3) by auto
  then show ?thesis using m k lru_frame_rest [OF m(4)] by blast
qed

lemma SetHighPriorityPoolRatio_state:
  assumes st: "shard_state sh L A" and r: "not_negative ratio"
  shows "\<exists>sh'. SetHighPriorityPoolRatio sh ratio = Some sh' \<and> shard_state sh' L A
    \<and> keeps {} (sh\<lparr>sh_high_pri_pool_ratio := ratio,
        sh_high_pri_pool_capacity := double_mult (double_of_u64 (sh_capacity sh)) ratio\<rparr>) sh'
    \<and> \<not> double_less (sh_high_pri_pool_capacity sh') (double_of_u64 (sh_high_pri_pool_usage sh'))
    \<and> \<not> double_less (sh_low_pri_pool_capacity sh') (double_of_u64 (sh_low_pri_pool_usage sh'))"
proof -
  obtain bt low hi where i: "shard_inv sh {} 0 bt low hi A" "L = bt @ low @ hi"
    using st by (auto simp: shard_state_def)
  let ?sh = "sh\<lparr>sh_high_pri_pool_ratio := ratio,
    sh_high_pri_pool_capacity := double_mult (double_of_u64 (sh_capacity sh)) ratio\<rparr>"
  have "config_ok ?sh" using invD(9) [OF i(1)] r by (simp add: config_ok_def not_negative_mult)
  from inv_settings [OF i(1) this] have "shard_inv ?sh {} 0 bt low hi A" by simp
  from MaintainPoolSize_inv [OF this] obtain sh' bt' low' hi' where m: "MaintainPoolSize ?sh = Some sh'"
      "shard_inv sh' {} 0 bt' low' hi' A" "bt' @ low' @ hi' = bt @ low @ hi" "keeps {} ?sh sh'" "sh_usage sh' = sh_usage sh"
      "\<not> double_less (sh_high_pri_pool_capacity sh') (double_of_u64 (sh_high_pri_pool_usage sh'))"
      "\<not> double_less (sh_low_pri_pool_capacity sh') (double_of_u64 (sh_low_pri_pool_usage sh'))" by auto
  have "shard_state sh' L A"
    using st i(2) m(3) [symmetric] m(5) keeps_settings(1) [OF m(4)]
    by (intro shard_stateI [OF m(2)]) (simp_all add: shard_state_def)
  then show ?thesis using m(1,4,6,7) by (intro exI [of _ sh']) (simp add: SetHighPriorityPoolRatio_def)
qed

lemma SetLowPriorityPoolRatio_state:
  assumes st: "shard_state sh L A" and r: "not_negative ratio"
  shows "\<exists>sh'. SetLowPriorityPoolRatio sh ratio = Some sh' \<and> shard_state sh' L A
    \<and> keeps {} (sh\<lparr>sh_low_pri_pool_ratio := ratio,
        sh_low_pri_pool_capacity := double_mult (double_of_u64 (sh_capacity sh)) ratio\<rparr>) sh'
    \<and> \<not> double_less (sh_high_pri_pool_capacity sh') (double_of_u64 (sh_high_pri_pool_usage sh'))
    \<and> \<not> double_less (sh_low_pri_pool_capacity sh') (double_of_u64 (sh_low_pri_pool_usage sh'))"
proof -
  obtain bt low hi where i: "shard_inv sh {} 0 bt low hi A" "L = bt @ low @ hi"
    using st by (auto simp: shard_state_def)
  let ?sh = "sh\<lparr>sh_low_pri_pool_ratio := ratio,
    sh_low_pri_pool_capacity := double_mult (double_of_u64 (sh_capacity sh)) ratio\<rparr>"
  have "config_ok ?sh" using invD(9) [OF i(1)] r by (simp add: config_ok_def not_negative_mult)
  from inv_settings [OF i(1) this] have "shard_inv ?sh {} 0 bt low hi A" by simp
  from MaintainPoolSize_inv [OF this] obtain sh' bt' low' hi' where m: "MaintainPoolSize ?sh = Some sh'"
      "shard_inv sh' {} 0 bt' low' hi' A" "bt' @ low' @ hi' = bt @ low @ hi" "keeps {} ?sh sh'" "sh_usage sh' = sh_usage sh"
      "\<not> double_less (sh_high_pri_pool_capacity sh') (double_of_u64 (sh_high_pri_pool_usage sh'))"
      "\<not> double_less (sh_low_pri_pool_capacity sh') (double_of_u64 (sh_low_pri_pool_usage sh'))" by auto
  have "shard_state sh' L A"
    using st i(2) m(3) [symmetric] m(5) keeps_settings(1) [OF m(4)]
    by (intro shard_stateI [OF m(2)]) (simp_all add: shard_state_def)
  then show ?thesis using m(1,4,6,7) by (intro exI [of _ sh']) (simp add: SetLowPriorityPoolRatio_def)
qed

lemma SetStrictCapacityLimit_state:
  assumes st: "shard_state sh L A"
  shows "shard_state (SetStrictCapacityLimit sh b) L A"
proof -
  obtain bt low hi where i: "shard_inv sh {} 0 bt low hi A" "L = bt @ low @ hi"
    using st by (auto simp: shard_state_def)
  have "config_ok (SetStrictCapacityLimit sh b)" using invD(9) [OF i(1)] by (simp add: config_ok_def SetStrictCapacityLimit_def)
  from inv_settings [OF i(1) this] have "shard_inv (SetStrictCapacityLimit sh b) {} 0 bt low hi A"
    by (simp add: SetStrictCapacityLimit_def)
  then show ?thesis using st i(2) by (intro shard_stateI) (simp_all add: SetStrictCapacityLimit_def shard_state_def)
qed

lemma new_table: "table_holds (LRUHandleTable_new bits) hp {}"
  unfolding table_holds_def
  by (intro exI [of _ "replicate 16 []"]) (simp add: table_of_def buckets_def LRUHandleTable_new_def)

lemma LRUCacheShard_new_state:
  assumes "not_negative high_pri_pool_ratio" and "not_negative low_pri_pool_ratio"
  shows "\<exists>sh. LRUCacheShard_new capacity strict_capacity_limit high_pri_pool_ratio low_pri_pool_ratio policy bits callback lru
      = Some sh \<and> shard_state sh [] {} \<and> sh_capacity sh = capacity \<and> sh_strict_capacity_limit sh = strict_capacity_limit
    \<and> sh_calls sh = [] \<and> sh_eviction_callback sh = callback"
proof -
  let ?sh = "\<lparr>sh_metadata_charge_policy = policy, sh_capacity = 0, sh_high_pri_pool_usage = 0,
        sh_low_pri_pool_usage = 0, sh_strict_capacity_limit = strict_capacity_limit,
        sh_high_pri_pool_ratio = high_pri_pool_ratio, sh_high_pri_pool_capacity = double_zero,
        sh_low_pri_pool_ratio = low_pri_pool_ratio, sh_low_pri_pool_capacity = double_zero,
        sh_lru_low_pri = lru_head, sh_lru_bottom_pri = lru_head,
        sh_table = LRUHandleTable_new bits, sh_usage = 0, sh_lru_usage = 0,
        sh_eviction_callback = callback, sh_heap = [lru_head \<mapsto> lru\<lparr>h_next := lru_head, h_prev := lru_head\<rparr>],
        sh_calls = []\<rparr>"
  have "shard_inv ?sh {} 0 [] [] [] {}"
    using assms new_table
    by (auto simp: shard_inv_def lru_ok_def lru_links_def config_ok_def charges_def next_of_def prev_of_def split: if_splits)
  from Shard_SetCapacity_inv [OF this refl refl, of capacity] obtain sh where s: "Shard_SetCapacity ?sh capacity = Some sh"
      "shard_state sh [] {}" "keeps {} ((with_capacity ?sh capacity)\<lparr>sh_calls := []\<rparr>) sh"
    by (auto simp: evictions_def)
  then show ?thesis using keeps_settings(1-4) [OF s(3)] unfolding LRUCacheShard_new_def by simp
qed

end
