(* ===== verification/Lru_Shard_Insert.thy ===== *)
theory Lru_Shard_Insert
  imports Lru_Shard_Ops
begin

text \<open>
  Inserting into an LRU cache shard and creating standalone entries: the room that eviction makes, the
  entry that is replaced, and the new entry.
\<close>

section \<open>New entries\<close>

definition new_handle :: "LRUCacheShard \<Rightarrow> bytes \<Rightarrow> u32 \<Rightarrow> ObjectPtr \<Rightarrow> CacheItemHelper \<Rightarrow> u64 \<Rightarrow> LRUHandle" where
  "new_handle sh key hash val helper charge =
     CalcTotalCharge charge (sh_metadata_charge_policy sh)
       \<lparr>h_value = val, h_helper = helper, h_next_hash = nullptr, h_next = nullptr, h_prev = nullptr,
        h_total_charge = 0, h_key_length = of_nat (length key), h_hash = hash, h_refs = 0,
        h_m_flags = 0, h_im_flags = 0, h_key_data = key\<rparr>"

definition entry_charge :: "LRUCacheShard \<Rightarrow> bytes \<Rightarrow> u64 \<Rightarrow> u64" where
  "entry_charge sh key charge =
     charge + (if sh_metadata_charge_policy sh = kFullChargeCacheMetadata then 71 + of_nat (length key) else 0)"

text \<open>What the callers of an allocation promise: a block that is not in use, a key that fits and a value where the helper needs one.\<close>

definition fresh_entry :: "LRUCacheShard \<Rightarrow> addr \<Rightarrow> bytes \<Rightarrow> ObjectPtr \<Rightarrow> CacheItemHelper \<Rightarrow> bool" where
  "fresh_entry sh e key val helper \<longleftrightarrow> e \<noteq> nullptr \<and> sh_heap sh e = None \<and> length key < 2 ^ 64
     \<and> \<not> (IsSecondaryCacheCompatible helper \<and> val = nullptr)"

lemma new_handle_fields:
  assumes "length key < 2 ^ 64"
  shows "h_refs (new_handle sh key hash val helper charge) = 0" "h_next (new_handle sh key hash val helper charge) = nullptr"
    "h_prev (new_handle sh key hash val helper charge) = nullptr" "h_value (new_handle sh key hash val helper charge) = val"
    "h_helper (new_handle sh key hash val helper charge) = helper" "h_hash (new_handle sh key hash val helper charge) = hash"
    "handle_key (new_handle sh key hash val helper charge) = key"
    "h_total_charge (new_handle sh key hash val helper charge) = entry_charge sh key charge"
    "h_m_flags (new_handle sh key hash val helper charge) = 0"
  using assms
  by (simp_all add: new_handle_def CalcTotalCharge_def CalcuMetaCharge_def handle_key_def entry_charge_def
      sizeof_LRUHandle_def unsigned_of_nat take_bit_nat_eq_self)

lemma CreateHandle_run:
  "fresh_entry sh e key val helper \<Longrightarrow> CreateHandle sh e key hash val helper charge
     = Some (sh\<lparr>sh_heap := (sh_heap sh)(e \<mapsto> new_handle sh key hash val helper charge)\<rparr>)"
  by (simp add: CreateHandle_def fresh_entry_def check_def new_handle_def)

section \<open>Making room\<close>

lemma evict_room:
  assumes st: "shard_state sh L A" and e: "sh_heap sh e = None" "e \<noteq> nullptr"
    and h: "h_next h = nullptr" "h_prev h = nullptr" and room: "unat (sh_usage sh) + unat (h_total_charge h) < 2 ^ 64"
    and ds: "ds = lru_victims (the_charge sh) (unat (sh_capacity sh)) (unat (sh_usage sh) + unat (h_total_charge h)) L"
  shows "\<exists>sh1 bt low hi h1. EvictFromLRU (sh\<lparr>sh_heap := (sh_heap sh)(e \<mapsto> h)\<rparr>) (h_total_charge h) [] = Some (sh1, ds)
    \<and> L = ds @ bt @ low @ hi \<and> shard_inv sh1 (set ds \<union> {e}) 0 bt low hi (A - set ds)
    \<and> keeps (insert e (set ds)) sh sh1 \<and> evicted_all (set ds) (sh_heap sh) (sh_heap sh1)
    \<and> (sh_capacity sh < sh_usage sh1 + h_total_charge h \<longrightarrow> bt @ low @ hi = [])
    \<and> sh_heap sh1 e = Some h1 \<and> pub h1 = pub h \<and> h_next h1 = nullptr \<and> h_prev h1 = nullptr
    \<and> unat (sh_usage sh1) + charges (sh_heap sh) ds = unat (sh_usage sh)
    \<and> distinct L \<and> e \<notin> set L \<and> e \<notin> A \<and> e \<noteq> lru_head \<and> set ds \<subseteq> A"
proof -
  obtain bt low hi where i: "shard_inv sh {} 0 bt low hi A" "L = bt @ low @ hi"
    using st by (auto simp: shard_state_def)
  let ?sh = "sh\<lparr>sh_heap := (sh_heap sh)(e \<mapsto> h)\<rparr>"
  have n: "shard_inv ?sh {e} 0 bt low hi A" "keeps {e} sh ?sh" "e \<notin> A" "e \<notin> set (bt @ low @ hi)" "e \<noteq> lru_head"
    using inv_new [OF i(1) e] by blast+
  have dis: "set (bt @ low @ hi) \<inter> {e} = {}" using n(4) by simp
  have u: "unat (sh_usage ?sh) + unat (h_total_charge h) < 2 ^ 64" using room by simp
  obtain sh1 bt' low' hi' ds' where r: "EvictFromLRU ?sh (h_total_charge h) [] = Some (sh1, [] @ ds')"
      "ds' = lru_victims (the_charge ?sh) (unat (sh_capacity ?sh)) (unat (sh_usage ?sh) + unat (h_total_charge h)) (bt @ low @ hi)"
      "bt @ low @ hi = ds' @ bt' @ low' @ hi'" "shard_inv sh1 (set ds' \<union> {e}) 0 bt' low' hi' (A - set ds')"
      "keeps (set ds') ?sh sh1" "evicted_all (set ds') (sh_heap ?sh) (sh_heap sh1)" "set ds' \<subseteq> A"
      "unat (sh_usage sh1) + charges (sh_heap ?sh) ds' = unat (sh_usage ?sh)"
      "sh_capacity ?sh < sh_usage sh1 + h_total_charge h \<longrightarrow> bt' @ low' @ hi' = []"
      "off_list (insert lru_head (set (bt @ low @ hi))) ?sh sh1"
    using EvictFromLRU_inv [OF n(1) dis u, of "[]"] by blast
  have cs: "the_charge ?sh a = the_charge sh a" if "a \<in> set (bt @ low @ hi)" for a
    using that n(4) by (auto simp: charge_of_def)
  have d: "ds' = ds" using r(2) lru_victims_cong [of "bt @ low @ hi" "the_charge ?sh" "the_charge sh", OF cs] ds i(2) by simp
  have ed: "e \<notin> set ds" using n(4) r(3) d by (metis UnI1 set_append)
  have "keeps (insert e (set ds)) sh sh1" using keeps_trans [OF n(2) r(5)] d by simp
  moreover have "evicted_all (set ds) (sh_heap sh) (sh_heap sh1)"
    using r(6) ed unfolding d evicted_all_def by (auto dest!: bspec split: if_splits)
  moreover have h0: "sh_heap ?sh e = Some h" by simp
  from keeps_Some [OF r(5) this] ed d obtain h1 where h1: "sh_heap sh1 e = Some h1" "pub h1 = pub h" by auto
  moreover have "h_next h1 = nullptr" "h_prev h1 = nullptr"
    using off_listD [OF r(10), of e] n(4,5) h h1(1) by (auto simp: next_of_def prev_of_def)
  moreover have "charges (sh_heap ?sh) ds = charges (sh_heap sh) ds"
    by (rule charges_cong) (use cs r(3) d in auto)
  moreover have "distinct L" using inv_distinct [OF i(1)] i(2) by simp
  ultimately show ?thesis
    using r(1,3,4,7,8,9) n(3,4,5) i(2) d
    by - (rule exI [of _ sh1], rule exI [of _ bt'], rule exI [of _ low'], rule exI [of _ hi'], rule exI [of _ h1], simp)
qed

section \<open>The entry that is replaced\<close>

lemma off_list_usage: "off_list S sh sh' \<Longrightarrow> off_list S sh (sh'\<lparr>sh_usage := u\<rparr>)"
  by (simp add: off_list_def)

lemma overwrite_inv:
  assumes inv: "shard_inv sh (insert old D) (x + the_charge sh old) bt low hi A" and oD: "old \<notin> D" "old \<notin> A"
    and ho: "sh_heap sh old = Some ho" "InCache ho" and refs: "h_refs ho = 0 \<longleftrightarrow> old \<in> set (bt @ low @ hi)"
    and links: "h_refs ho \<noteq> 0 \<Longrightarrow> h_next ho = nullptr \<and> h_prev ho = nullptr"
    and olds: "olds = (if h_refs ho = 0 then [old] else [])"
  shows "\<exists>sh' bt' low' hi' ho'. overwrite_old sh old refs_list = Some (Status_OkOverwritten, sh', refs_list @ olds)
    \<and> shard_inv sh' (set olds \<union> D) x bt' low' hi' A \<and> bt' @ low' @ hi' = removeAll old (bt @ low @ hi)
    \<and> keeps {old} sh sh' \<and> off_list (insert lru_head (insert old (set (bt @ low @ hi)))) sh sh'
    \<and> sh_heap sh' old = Some ho' \<and> h_refs ho' = h_refs ho \<and> same_entry ho ho' \<and> HasHit ho' = HasHit ho
    \<and> sh_usage sh' \<le> sh_usage sh"
proof -
  have nz: "old \<noteq> nullptr" using ho(1) invD(3) [OF inv] by (cases "old = nullptr") simp_all
  let ?h1 = "SetInCache False ho"
  let ?sh1 = "sh\<lparr>sh_heap := upd old (SetInCache False) (sh_heap sh)\<rparr>"
  have t: "at sh old (SetInCache False) = Some ?sh1"
      "shard_inv ?sh1 (insert old D) (x + the_charge sh old) bt low hi A" "keeps {old} sh ?sh1"
    using inv_at [OF inv _ ho(1), of "SetInCache False"] by simp_all
  have h1: "sh_heap ?sh1 old = Some ?h1" using ho by simp
  have c1: "the_charge ?sh1 old = unat (h_total_charge ho)" "the_charge sh old = unat (h_total_charge ho)"
    using ho by (simp_all add: charge_of_def)
  have ol1: "off_list (insert lru_head (insert old (set (bt @ low @ hi)))) sh ?sh1"
    by (simp add: off_list_def next_of_def prev_of_def)
  have se: "same_entry ho ?h1" by (simp add: same_entry_def)
  show ?thesis
  proof (cases "h_refs ho = 0")
    case False
    then have nl: "old \<notin> set (bt @ low @ hi)" using refs by simp
    have "entry_ok A (set (bt @ low @ hi)) old ?h1" using nl oD links False by (simp add: entry_ok_def)
    from inv_absorb [OF t(2) _ h1 this] have "shard_inv ?sh1 D x bt low hi A" using c1 oD by simp
    moreover have "removeAll old (bt @ low @ hi) = bt @ low @ hi" using nl by (rule removeAll_id)
    moreover have "overwrite_old sh old refs_list = Some (Status_OkOverwritten, ?sh1, refs_list @ olds)"
      using nz ho t(1) False olds by (simp add: overwrite_old_def check_def HasRefs_def word_gt_0)
    ultimately show ?thesis using t(3) ol1 h1 se False olds
      by - (rule exI [of _ ?sh1], rule exI [of _ bt], rule exI [of _ low], rule exI [of _ hi], rule exI [of _ ?h1], simp)
  next
    case True
    then have "old \<in> set (bt @ low @ hi)" using refs by simp
    then obtain sh2 where r: "LRU_Remove ?sh1 old = Some sh2" "keeps {} ?sh1 sh2" "sh_usage sh2 = sh_usage ?sh1"
        "shard_inv sh2 (insert old D) (x + the_charge sh old) (removeAll old bt) (removeAll old low) (removeAll old hi) A"
        "off_list (insert lru_head (set (bt @ low @ hi))) ?sh1 sh2"
      using LRU_Remove_inv [OF t(2)] by blast
    obtain h2 where h2: "sh_heap sh2 old = Some h2" "pub h2 = pub ?h1" using keeps_Some [OF r(2) h1] by auto
    note p = pub_eqD [OF h2(2)]
    note u = inv_usage_sub [OF r(4), of "h_total_charge ho"]
    let ?sh3 = "sh2\<lparr>sh_usage := sh_usage sh2 - h_total_charge ho\<rparr>"
    have i3: "shard_inv ?sh3 (set olds \<union> D) x (removeAll old bt) (removeAll old low) (removeAll old hi) A"
      using u(2) c1 True olds by simp
    have le: "h_total_charge ho \<le> sh_usage sh2" using u(1) c1 by simp
    have k: "keeps {old} sh ?sh3" using keeps_trans [OF t(3) keeps_trans [OF r(2) u(3)]] c1 by simp
    have o3: "off_list (insert lru_head (insert old (set (bt @ low @ hi)))) sh ?sh3"
      using off_list_trans [OF ol1 r(5)] by (rule off_list_mono [THEN off_list_usage]) auto
    have "overwrite_old sh old refs_list = Some (Status_OkOverwritten, ?sh3, refs_list @ olds)"
      using nz ho t(1) True olds r(1) le by (simp add: overwrite_old_def check_def HasRefs_def)
    moreover have "sh_usage ?sh3 \<le> sh_usage sh" using le r(3) by (simp add: word_le_nat_alt word_eq_minus)
    moreover have "same_entry ho h2" using same_entry_trans [OF se same_entry_pub [OF h2(2)]] .
    ultimately show ?thesis using i3 k o3 h2(1) p True
      by - (rule exI [of _ ?sh3], rule exI [of _ "removeAll old bt"], rule exI [of _ "removeAll old low"],
          rule exI [of _ "removeAll old hi"], rule exI [of _ h2], simp)
  qed
qed

definition replaced :: "LRUCacheShard \<Rightarrow> addr \<Rightarrow> addr list" where
  "replaced sh old = (case sh_heap sh old of None \<Rightarrow> [] | Some ho \<Rightarrow> if h_refs ho = 0 then [old] else [])"

lemma insert_table:
  assumes inv: "shard_inv sh D 0 bt low hi A" and e: "e \<in> D" and D: "D \<inter> A = {}" "set (bt @ low @ hi) \<inter> D = {}"
    and h: "sh_heap sh e = Some h" "h_next h = nullptr" "h_prev h = nullptr" and card: "card A < 2 ^ 32 - 1"
    and room: "unat (sh_usage sh) + unat (h_total_charge h) < 2 ^ 64"
    and old: "entry_of (sh_heap sh) A (handle_key h) (h_hash h) = old"
  shows "\<exists>tb hp sh' bt' low' hi' h'. Table_Insert (sh_table sh) (sh_heap sh) e = Some (old, tb, hp)
    \<and> overwrite_old (sh\<lparr>sh_table := tb, sh_heap := hp, sh_usage := sh_usage sh + h_total_charge h\<rparr>) old l
      = Some (if old = nullptr then Status_OK else Status_OkOverwritten, sh', l @ replaced sh old)
    \<and> shard_inv sh' (set (replaced sh old) \<union> D) (unat (h_total_charge h)) bt' low' hi' (insert e (A - {old}))
    \<and> bt' @ low' @ hi' = removeAll old (bt @ low @ hi) \<and> keeps {old} sh sh' \<and> sh_usage sh' \<le> sh_usage sh + h_total_charge h
    \<and> sh_heap sh' e = Some h' \<and> pub h' = pub h \<and> h_next h' = nullptr \<and> h_prev h' = nullptr
    \<and> (\<forall>ho. sh_heap sh old = Some ho \<longrightarrow>
        (\<exists>ho'. sh_heap sh' old = Some ho' \<and> h_refs ho' = h_refs ho \<and> same_entry ho ho' \<and> HasHit ho' = HasHit ho))"
proof (cases "old = nullptr")
  case True
  have eA: "e \<notin> A" using e D by auto
  obtain tb hp where t: "Table_Insert (sh_table sh) (sh_heap sh) e = Some (old, tb, hp)"
      "shard_inv (sh\<lparr>sh_table := tb, sh_heap := hp\<rparr>) D 0 bt low hi (insert e (A - {old}))" "same_but_links (sh_heap sh) hp"
    using Table_Insert_inv [OF inv eA e h(1) card old disjI1 [OF True]] by blast
  let ?sh1 = "sh\<lparr>sh_table := tb, sh_heap := hp\<rparr>"
  let ?sh2 = "?sh1\<lparr>sh_usage := sh_usage ?sh1 + h_total_charge h\<rparr>"
  note u = inv_usage_add [OF t(2), of "h_total_charge h"]
  have i2: "shard_inv ?sh2 D (unat (h_total_charge h)) bt low hi (insert e (A - {old}))" and k2: "keeps {} ?sh1 ?sh2"
    using u room by simp_all
  obtain v where hv: "hp e = Some (h\<lparr>h_next_hash := v\<rparr>)" using same_but_links_Some [OF t(3) h(1)] .
  have k: "keeps {old} sh ?sh2" using keeps_mono [OF keeps_trans [OF keeps_links [OF t(3), of tb] k2]] by simp
  have n: "sh_heap sh old = None" using invD(3) [OF inv] True by simp
  have "nullptr \<notin> set (bt @ low @ hi)" using lru_linksD(3) [OF lru_okD(1) [OF invD(1) [OF inv]]] .
  then have "removeAll old (bt @ low @ hi) = bt @ low @ hi" using True by (metis removeAll_id)
  then show ?thesis
    using t(1) i2 k hv h(2,3) n True
    by - (rule exI [of _ tb], rule exI [of _ hp], rule exI [of _ ?sh2], rule exI [of _ bt], rule exI [of _ low],
        rule exI [of _ hi], rule exI [of _ "h\<lparr>h_next_hash := v\<rparr>"], simp add: overwrite_old_def replaced_def pub_link)
next
  case False
  have eA: "e \<notin> A" using e D by auto
  obtain ho where oA: "old \<in> A" and ho: "sh_heap sh old = Some ho"
    using entry_of_props(2) [OF invD(2) [OF inv] old False] by auto
  have oD: "old \<notin> D" "old \<noteq> lru_head" "old \<noteq> e" using oA D e invD(6) [OF inv] by auto
  have eo: "entry_ok A (set (bt @ low @ hi)) old ho" using invD(7) [OF inv ho oD(2,1)] .
  have i1: "shard_inv sh (insert old D) (0 + the_charge sh old) bt low hi A" using inv_exempt [OF inv _ oD(2,1)] ho by simp
  obtain tb hp where t: "Table_Insert (sh_table sh) (sh_heap sh) e = Some (old, tb, hp)"
      "shard_inv (sh\<lparr>sh_table := tb, sh_heap := hp\<rparr>) (insert old D) (0 + the_charge sh old) bt low hi (insert e (A - {old}))"
      "same_but_links (sh_heap sh) hp"
    using Table_Insert_inv [OF i1 eA _ h(1) card old] e by blast
  let ?sh1 = "sh\<lparr>sh_table := tb, sh_heap := hp\<rparr>"
  let ?sh2 = "?sh1\<lparr>sh_usage := sh_usage ?sh1 + h_total_charge h\<rparr>"
  note u = inv_usage_add [OF t(2), of "h_total_charge h"]
  obtain w where hw: "hp old = Some (ho\<lparr>h_next_hash := w\<rparr>)" using same_but_links_Some [OF t(3) ho] .
  obtain v where hv: "hp e = Some (h\<lparr>h_next_hash := v\<rparr>)" using same_but_links_Some [OF t(3) h(1)] .
  have c: "the_charge ?sh2 old = the_charge sh old" using ho hw by (simp add: charge_of_def)
  have i2: "shard_inv ?sh2 (insert old D) (unat (h_total_charge h) + the_charge ?sh2 old) bt low hi (insert e (A - {old}))"
    and k2: "keeps {} ?sh1 ?sh2"
    using u room c by (simp_all add: add.commute)
  let ?ho = "ho\<lparr>h_next_hash := w\<rparr>"
  have h2: "sh_heap ?sh2 old = Some ?ho" and ic: "InCache ?ho" and oA': "old \<notin> insert e (A - {old})"
    using hw eo oA oD by (simp_all add: InCache_def entry_ok_def)
  have re: "h_refs ?ho = 0 \<longleftrightarrow> old \<in> set (bt @ low @ hi)" and li: "h_refs ?ho \<noteq> 0 \<Longrightarrow> h_next ?ho = nullptr \<and> h_prev ?ho = nullptr"
    using eo by (simp_all add: entry_ok_def)
  have rl: "replaced sh old = (if h_refs ?ho = 0 then [old] else [])" using ho by (simp add: replaced_def)
  obtain sh' bt' low' hi' ho' where r: "overwrite_old ?sh2 old l = Some (Status_OkOverwritten, sh', l @ replaced sh old)"
      "shard_inv sh' (set (replaced sh old) \<union> D) (unat (h_total_charge h)) bt' low' hi' (insert e (A - {old}))"
      "bt' @ low' @ hi' = removeAll old (bt @ low @ hi)" "keeps {old} ?sh2 sh'"
      "off_list (insert lru_head (insert old (set (bt @ low @ hi)))) ?sh2 sh'"
      "sh_heap sh' old = Some ho'" "h_refs ho' = h_refs ?ho" "same_entry ?ho ho'" "HasHit ho' = HasHit ?ho"
      "sh_usage sh' \<le> sh_usage ?sh2"
    using overwrite_inv [OF i2 oD(1) oA' h2 ic re li rl] by blast
  have k: "keeps {old} sh sh'" using keeps_trans [OF keeps_trans [OF keeps_links [OF t(3), of tb] k2] r(4)] by simp
  have "sh_heap ?sh2 e = Some (h\<lparr>h_next_hash := v\<rparr>)" using hv by simp
  from keeps_Some [OF r(4) this] oD(3) obtain h' where h': "sh_heap sh' e = Some h'" "pub h' = pub (h\<lparr>h_next_hash := v\<rparr>)" by auto
  have "e \<notin> insert lru_head (insert old (set (bt @ low @ hi)))" using e D invD(5) [OF inv] oD(3) by auto
  from off_listD [OF r(5) this] have "h_next h' = nullptr" "h_prev h' = nullptr"
    using h hv h'(1) by (simp_all add: next_of_def prev_of_def)
  moreover have "HasHit ho' = HasHit ho" "same_entry ho ho'" "h_refs ho' = h_refs ho"
    using r(7-9) by (simp_all add: HasHit_def same_entry_def handle_key_def)
  ultimately show ?thesis
    using t(1) r(1-3,6,10) k h' ho False
    by - (rule exI [of _ tb], rule exI [of _ hp], rule exI [of _ sh'], rule exI [of _ bt'], rule exI [of _ low'],
        rule exI [of _ hi'], rule exI [of _ h'], simp add: pub_link)
qed

section \<open>Insertion\<close>

lemma evicted_keeps:
  assumes "evicted_all E hp (sh_heap sh)" and "keeps D sh sh'" and "E \<inter> D = {}"
  shows "evicted_all E hp (sh_heap sh')"
  unfolding evicted_all_def
proof
  fix a
  assume a: "a \<in> E"
  then obtain h h' where h: "hp a = Some h" "sh_heap sh a = Some h'" "evicted_from h h'"
    using assms(1) by (auto simp: evicted_all_def)
  have "a \<notin> D" using a assms(3) by auto
  from keeps_Some [OF assms(2) h(2) this] obtain h'' where "sh_heap sh' a = Some h''" "pub h'' = pub h'" .
  then show "\<exists>h h'. hp a = Some h \<and> sh_heap sh' a = Some h' \<and> evicted_from h h'"
    using h evicted_from_pub [OF h(3)] by blast
qed

lemma evicted_all_insert:
  "evicted_all (insert a E) hp hp' \<longleftrightarrow> (\<exists>h h'. hp a = Some h \<and> hp' a = Some h' \<and> evicted_from h h') \<and> evicted_all E hp hp'"
  by (simp add: evicted_all_def)

text \<open>The new entry goes to the LRU list, or the caller gets the first reference to it.\<close>

definition place_entry ::
  "LRUCacheShard \<Rightarrow> addr \<Rightarrow> bool \<Rightarrow> Status \<Rightarrow> addr list \<Rightarrow> (Status \<times> addr \<times> LRUCacheShard \<times> addr list) option" where
  "place_entry sh e want_handle s l =
     (if \<not> want_handle then do { sh \<leftarrow> LRU_Insert sh e; Some (s, nullptr, sh, l) }
      else do {
        h \<leftarrow> sh_heap sh e;
        sh \<leftarrow> (if \<not> HasRefs h then at sh e handle_Ref else Some sh);
        Some (s, e, sh, l)
      })"

lemma InsertItem_run:
  assumes "sh_heap sh e = Some h" and "EvictFromLRU sh (h_total_charge h) [] = Some (sh1, ds)"
    and "\<not> (sh_capacity sh1 < sh_usage sh1 + h_total_charge h \<and> (sh_strict_capacity_limit sh1 \<or> \<not> want_handle))"
    and "Table_Insert (sh_table sh1) (sh_heap sh1) e = Some (old, tb, hp)"
    and "overwrite_old (sh1\<lparr>sh_table := tb, sh_heap := hp, sh_usage := sh_usage sh1 + h_total_charge h\<rparr>) old ds = Some (s, sh2, l)"
    and "place_entry sh2 e want_handle s l = Some (s', handle, sh3, l')" and "NotifyEvicted sh3 l' = Some sh4"
  shows "InsertItem sh e want_handle = Some (s', handle, sh4)"
  unfolding InsertItem_def place_entry_def [symmetric] using assms by auto

lemma place_inv:
  assumes inv: "shard_inv sh (insert e E) (unat (h_total_charge h)) bt low hi A" and eE: "e \<notin> E" "e \<in> A"
    and dis: "set (bt @ low @ hi) \<inter> insert e E = {}" and h: "sh_heap sh e = Some h" "h_next h = nullptr" "h_prev h = nullptr"
    and r: "h_refs h = 0" "InCache h"
  shows "\<exists>sh' bt' low' hi' h'.
      place_entry sh e want_handle s l = Some (s, if want_handle then e else nullptr, sh', l)
    \<and> shard_inv sh' E 0 bt' low' hi' A
    \<and> (if want_handle then bt' @ low' @ hi' = bt @ low @ hi else \<exists>us vs. bt @ low @ hi = us @ vs \<and> bt' @ low' @ hi' = us @ e # vs)
    \<and> keeps {e} sh sh' \<and> sh_usage sh' = sh_usage sh \<and> sh_heap sh' e = Some h'
    \<and> h_refs h' = (if want_handle then 1 else 0) \<and> same_entry h h'"
proof (cases want_handle)
  case True
  let ?sh1 = "sh\<lparr>sh_heap := upd e handle_Ref (sh_heap sh)\<rparr>"
  have t: "at sh e handle_Ref = Some ?sh1" "shard_inv ?sh1 (insert e E) (unat (h_total_charge h)) bt low hi A" "keeps {e} sh ?sh1"
    using inv_at [OF inv _ h(1), of handle_Ref] by simp_all
  have h1: "sh_heap ?sh1 e = Some (handle_Ref h)" using h by simp
  have "entry_ok A (set (bt @ low @ hi)) e (handle_Ref h)"
    using eE dis h r by (simp add: entry_ok_def handle_Ref_def InCache_def)
  from inv_absorb [OF t(2) _ h1 this] have "shard_inv ?sh1 E 0 bt low hi A"
    using h(1) eE by (simp add: charge_of_def handle_Ref_def)
  then show ?thesis using True t(3) h r
    by - (rule exI [of _ ?sh1], rule exI [of _ bt], rule exI [of _ low], rule exI [of _ hi], rule exI [of _ "handle_Ref h"],
        simp add: place_entry_def HasRefs_def handle_Ref_def same_entry_def handle_key_def)
next
  case False
  have x: "the_charge sh e \<le> unat (h_total_charge h)" using h by (simp add: charge_of_def)
  obtain sh' bt' low' hi' us vs where l: "LRU_Insert sh e = Some sh'"
      "shard_inv sh' (insert e E) (unat (h_total_charge h)) bt' low' hi' A" "bt @ low @ hi = us @ vs"
      "bt' @ low' @ hi' = us @ e # vs" "keeps {} sh sh'" "sh_usage sh' = sh_usage sh"
    using LRU_Insert_inv [OF inv _ dis h x] by blast
  obtain h' where h': "sh_heap sh' e = Some h'" "pub h' = pub h" using keeps_Some [OF l(5) h(1)] by auto
  note p = pub_eqD [OF h'(2)]
  have "e \<in> set (bt' @ low' @ hi')" unfolding l(4) by simp
  then have "entry_ok A (set (bt' @ low' @ hi')) e h'" using eE r p by (simp add: entry_ok_def)
  from inv_absorb [OF l(2) _ h'(1) this] have "shard_inv sh' E 0 bt' low' hi' A"
    using h'(1) eE p by (simp add: charge_of_def)
  moreover have "keeps {e} sh sh'" using keeps_mono [OF l(5)] by simp
  ultimately show ?thesis using False l(1,3,4,6) h'(1) p(6) r same_entry_pub [OF h'(2)]
    by - (rule exI [of _ sh'], rule exI [of _ bt'], rule exI [of _ low'], rule exI [of _ hi'], rule exI [of _ h'], auto simp: place_entry_def)
qed

definition insert_handle ::
  "LRUCacheShard \<Rightarrow> bytes \<Rightarrow> u32 \<Rightarrow> ObjectPtr \<Rightarrow> CacheItemHelper \<Rightarrow> u64 \<Rightarrow> Priority \<Rightarrow> LRUHandle" where
  "insert_handle sh key hash val helper charge priority =
     SetInCache True (SetPriority priority (new_handle sh key hash val helper charge))"

text \<open>The entries that are evicted to make room for a charge, and whether the charge then fits.\<close>

definition victims :: "LRUCacheShard \<Rightarrow> addr list \<Rightarrow> u64 \<Rightarrow> addr list" where
  "victims sh L c = lru_victims (the_charge sh) (unat (sh_capacity sh)) (unat (sh_usage sh) + unat c) L"

definition charge_fits :: "LRUCacheShard \<Rightarrow> addr list \<Rightarrow> u64 \<Rightarrow> bool" where
  "charge_fits sh L c \<longleftrightarrow> unat (sh_usage sh) - charges (sh_heap sh) (victims sh L c) + unat c \<le> unat (sh_capacity sh)"

lemma SetPriority_fields [simp]:
  "h_refs (SetPriority p h) = h_refs h" "h_next (SetPriority p h) = h_next h" "h_prev (SetPriority p h) = h_prev h"
  "h_value (SetPriority p h) = h_value h" "h_helper (SetPriority p h) = h_helper h" "h_hash (SetPriority p h) = h_hash h"
  "handle_key (SetPriority p h) = handle_key h" "h_total_charge (SetPriority p h) = h_total_charge h"
  "HasHit (SetPriority p h) = HasHit h"
  by (simp_all add: SetPriority_def handle_key_def HasHit_def)

lemma insert_handle_fields:
  assumes "length key < 2 ^ 64" and "h = insert_handle sh key hash val helper charge priority"
  shows "h_refs h = 0" "h_next h = nullptr" "h_prev h = nullptr" "h_value h = val" "h_helper h = helper" "h_hash h = hash"
    "handle_key h = key" "h_total_charge h = entry_charge sh key charge" "InCache h" "\<not> HasHit h"
  using new_handle_fields [OF assms(1), of sh hash val helper charge] unfolding assms(2)
  by (simp_all add: insert_handle_def) (simp add: HasHit_def)

lemma upd_new: "upd e f (hp(e \<mapsto> h)) = hp(e \<mapsto> f h)"
  by (simp add: upd_def)

lemma Shard_Insert_run:
  "fresh_entry sh e key val helper \<Longrightarrow> Shard_Insert sh e key hash val helper charge want_handle priority
     = InsertItem (sh\<lparr>sh_heap := (sh_heap sh)(e \<mapsto> insert_handle sh key hash val helper charge priority)\<rparr>) e want_handle"
  by (simp add: Shard_Insert_def CreateHandle_run insert_handle_def upd_new)

lemma charge_fits_usage:
  assumes "unat (sh_usage sh1) + charges (sh_heap sh) (victims sh L c) = unat (sh_usage sh)"
    and "unat (sh_usage sh) + unat c < 2 ^ 64"
  shows "sh_capacity sh < sh_usage sh1 + c \<longleftrightarrow> \<not> charge_fits sh L c"
proof -
  have "unat (sh_usage sh1 + c) = unat (sh_usage sh1) + unat c" using assms by (simp add: unat_word_ariths)
  then show ?thesis using assms(1) unfolding charge_fits_def word_less_nat_alt by linarith
qed

lemma Insert_full:
  assumes st: "shard_state sh L A" and fr: "fresh_entry sh e key val helper"
    and room: "unat (sh_usage sh) + unat (entry_charge sh key charge) < 2 ^ 64"
    and full: "\<not> charge_fits sh L (entry_charge sh key charge)" "sh_strict_capacity_limit sh \<or> \<not> want_handle"
    and h: "h = insert_handle sh key hash val helper charge priority"
  shows "\<exists>sh'. Shard_Insert sh e key hash val helper charge want_handle priority
      = Some (if want_handle then Status_MemoryLimit_msg ''Insert failed due to LRU cache being full.'' else Status_OK, nullptr, sh')
    \<and> shard_state sh' [] (A - set L)
    \<and> keeps (set L) (sh\<lparr>sh_calls := sh_calls sh @ evictions sh L
        @ (if want_handle then [] else evict_calls (sh_eviction_callback sh) h)\<rparr>) sh'
    \<and> (\<forall>a \<in> insert e (set L). sh_heap sh' a = None)
    \<and> unat (sh_usage sh') + charges (sh_heap sh) L = unat (sh_usage sh)"
proof -
  have fe: "e \<noteq> nullptr" "sh_heap sh e = None" "length key < 2 ^ 64" using fr by (simp_all add: fresh_entry_def)
  note f = insert_handle_fields [OF fe(3) h]
  let ?c = "entry_charge sh key charge"
  obtain sh1 bt low hi h1 where r: "EvictFromLRU (sh\<lparr>sh_heap := (sh_heap sh)(e \<mapsto> h)\<rparr>) ?c [] = Some (sh1, victims sh L ?c)"
      "L = victims sh L ?c @ bt @ low @ hi" "shard_inv sh1 (set (victims sh L ?c) \<union> {e}) 0 bt low hi (A - set (victims sh L ?c))"
      "keeps (insert e (set (victims sh L ?c))) sh sh1" "evicted_all (set (victims sh L ?c)) (sh_heap sh) (sh_heap sh1)"
      "sh_capacity sh < sh_usage sh1 + ?c \<longrightarrow> bt @ low @ hi = []"
      "sh_heap sh1 e = Some h1" "pub h1 = pub h"
      "unat (sh_usage sh1) + charges (sh_heap sh) (victims sh L ?c) = unat (sh_usage sh)"
      "distinct L" "e \<notin> set L" "e \<notin> A"
    using evict_room [OF st fe(2,1) f(2,3), of "victims sh L ?c"] room unfolding f(8) victims_def by blast
  have over: "sh_capacity sh < sh_usage sh1 + ?c" using charge_fits_usage [OF r(9) room] full(1) by simp
  then have "bt @ low @ hi = []" using r(6) by simp
  then have L: "victims sh L ?c = L" and b: "bt = []" "low = []" "hi = []" using r(2) by simp_all
  note r = r [unfolded L b]
  note S = keeps_settings [OF r(4)]
  have i1: "shard_inv sh1 (insert e (set L)) 0 [] [] [] (A - set L)" using r(3) by simp
  let ?sh2 = "sh1\<lparr>sh_heap := upd e (SetInCache False) (sh_heap sh1)\<rparr>"
  have t: "at sh1 e (SetInCache False) = Some ?sh2" "shard_inv ?sh2 (insert e (set L)) 0 [] [] [] (A - set L)" "keeps {e} sh1 ?sh2"
    using inv_at [OF i1 _ r(7), of "SetInCache False"] by simp_all
  have k2: "keeps (insert e (set L)) sh ?sh2" using keeps_trans [OF r(4) t(3)] by simp
  have ev: "evicted_all (set L) (sh_heap sh) (sh_heap ?sh2)" by (rule evicted_keeps [OF r(5) t(3)]) (use r(11) in simp)
  have keep: "keeps (set L) (sh\<lparr>sh_calls := x\<rparr>) sh'" if "keeps (insert e (set L)) (sh\<lparr>sh_calls := x\<rparr>) sh'" "sh_heap sh' e = None" for x sh'
    using that fe(2) unfolding keeps_def same_pub_def by (metis (no_types, lifting) LRUCacheShard.select_convs(16) LRUCacheShard.surjective LRUCacheShard.update_convs(17) insertE option.map(1))
  note p = pub_eqD [OF r(8)]
  show ?thesis
  proof (cases want_handle)
    case False
    have hr: "h_refs h1 = 0" using p(6) f(1) by simp
    have "evicted_from h (SetInCache False h1)" using p hr by (simp add: evicted_from_def)
    then have ev': "evicted_all (set (L @ [e])) ((sh_heap sh)(e \<mapsto> h)) (sh_heap ?sh2)"
      using ev r(7,11) by (auto simp: evicted_all_def)
    have i2: "shard_inv ?sh2 (set (L @ [e]) \<union> {}) 0 [] [] [] (A - set L)" using t(2) by simp
    obtain sh3 where n: "NotifyEvicted ?sh2 (L @ [e]) = Some sh3" "shard_inv sh3 {} 0 [] [] [] (A - set L)"
        "keeps (set (L @ [e])) (?sh2\<lparr>sh_calls := sh_calls ?sh2 @ evictions (?sh2\<lparr>sh_heap := (sh_heap sh)(e \<mapsto> h)\<rparr>) (L @ [e])\<rparr>) sh3"
        "\<forall>a. sh_heap sh3 a = (if a \<in> set (L @ [e]) then None else sh_heap ?sh2 a)" "sh_usage sh3 = sh_usage sh1"
      using NotifyEvicted_inv [OF i2 _ _ ev'] r(10-12) by auto
    have "map (\<lambda>a. evict_calls cb (the (((sh_heap sh)(e \<mapsto> h)) a))) L = map (\<lambda>a. evict_calls cb (the (sh_heap sh a))) L" for cb
      using r(11) by auto
    then have c: "evictions (?sh2\<lparr>sh_heap := (sh_heap sh)(e \<mapsto> h)\<rparr>) (L @ [e]) = evictions sh L @ evict_calls (sh_eviction_callback sh) h"
      using S(4) by (simp add: evictions_def fun_upd_same del: map_eq_conv fun_upd_apply)
    have "keeps (insert e (set L)) (sh\<lparr>sh_calls := sh_calls sh @ evictions sh L @ evict_calls (sh_eviction_callback sh) h\<rparr>) sh3"
      using keeps_trans [OF keeps_calls [OF k2] n(3) [unfolded c keeps_settings(3) [OF k2]]] by simp
    note k3 = keep [OF this]
    have "shard_state sh3 [] (A - set L)" using n(2) by (intro shard_stateI) simp_all
    moreover have "Shard_Insert sh e key hash val helper charge want_handle priority = Some (Status_OK, nullptr, sh3)"
      using False over S(1) r(1) t(1) n(1) f(8) by (simp add: Shard_Insert_run [OF fr] InsertItem_def h [symmetric])
    ultimately show ?thesis using False k3 n(4,5) r(9) by (intro exI [of _ sh3]) simp
  next
    case True
    let ?sh3 = "?sh2\<lparr>sh_heap := (sh_heap ?sh2)(e := None)\<rparr>"
    have g: "free_handle ?sh2 e = Some ?sh3" "shard_inv ?sh3 (set L \<union> {}) 0 [] [] [] (A - set L)" "keeps {e} ?sh2 ?sh3"
      using inv_free [OF t(2), of e] r(11,12) by simp_all
    have ev3: "evicted_all (set L) (sh_heap sh) (sh_heap ?sh3)" by (rule evicted_keeps [OF ev g(3)]) (use r(11) in simp)
    obtain sh4 where n: "NotifyEvicted ?sh3 L = Some sh4" "shard_inv sh4 {} 0 [] [] [] (A - set L)"
        "keeps (set L) (?sh3\<lparr>sh_calls := sh_calls ?sh3 @ evictions (?sh3\<lparr>sh_heap := sh_heap sh\<rparr>) L\<rparr>) sh4"
        "\<forall>a. sh_heap sh4 a = (if a \<in> set L then None else sh_heap ?sh3 a)" "sh_usage sh4 = sh_usage sh1"
      using NotifyEvicted_inv [OF g(2) _ _ ev3] r(10-12) by auto
    have c: "evictions (?sh3\<lparr>sh_heap := sh_heap sh\<rparr>) L = evictions sh L" using S(4) by (simp add: evictions_def)
    have k3: "keeps (insert e (set L)) sh ?sh3" using keeps_trans [OF k2 g(3)] by simp
    have "keeps (insert e (set L)) (sh\<lparr>sh_calls := sh_calls sh @ evictions sh L\<rparr>) sh4"
      using keeps_trans [OF keeps_calls [OF k3] n(3) [unfolded c keeps_settings(3) [OF k3]]] by simp
    note k4 = keep [OF this]
    have "shard_state sh4 [] (A - set L)" using n(2) by (intro shard_stateI) simp_all
    moreover have "Shard_Insert sh e key hash val helper charge want_handle priority
        = Some (Status_MemoryLimit_msg ''Insert failed due to LRU cache being full.'', nullptr, sh4)"
      using True full(2) over S(1,2) r(1) t(1) g(1) n(1) f(8) by (simp add: Shard_Insert_run [OF fr] InsertItem_def h [symmetric])
    ultimately show ?thesis using True k4 n(4,5) r(9) by (intro exI [of _ sh4]) simp
  qed
qed

lemma entry_of_keeps:
  assumes "keeps D sh sh'" and "D \<inter> A = {}"
  shows "entry_of (sh_heap sh') A key hash = entry_of (sh_heap sh) A key hash"
proof -
  have "ident (sh_heap sh') a = ident (sh_heap sh) a" if "a \<in> A" for a
  proof -
    have "map_option pub (sh_heap sh' a) = map_option pub (sh_heap sh a)"
      using assms that by (auto simp: keeps_def same_pub_def)
    then show ?thesis
      by (cases "sh_heap sh a"; cases "sh_heap sh' a") (auto simp: ident_def dest: pub_eqD)
  qed
  then have "a \<in> A \<and> ident (sh_heap sh') a = (key, hash) \<longleftrightarrow> a \<in> A \<and> ident (sh_heap sh) a = (key, hash)" for a
    by auto
  then show ?thesis by (auto simp: entry_of_def)
qed

lemma Insert_ok:
  assumes st: "shard_state sh L A" and fr: "fresh_entry sh e key val helper"
    and room: "unat (sh_usage sh) + unat (entry_charge sh key charge) < 2 ^ 64" and card: "card A < 2 ^ 32 - 1"
    and ok: "charge_fits sh L (entry_charge sh key charge) \<or> \<not> sh_strict_capacity_limit sh \<and> want_handle"
    and h: "h = insert_handle sh key hash val helper charge priority"
    and ds: "ds = victims sh L (entry_charge sh key charge)" and old: "old = entry_of (sh_heap sh) (A - set ds) key hash"
  shows "\<exists>sh' L' h'. Shard_Insert sh e key hash val helper charge want_handle priority
      = Some (if old = nullptr then Status_OK else Status_OkOverwritten, if want_handle then e else nullptr, sh')
    \<and> shard_state sh' L' (insert e (A - set ds - {old}))
    \<and> (\<exists>R. L = ds @ R \<and> (if want_handle then L' = removeAll old R else \<exists>us vs. removeAll old R = us @ vs \<and> L' = us @ e # vs))
    \<and> keeps ({e, old} \<union> set ds) (sh\<lparr>sh_calls := sh_calls sh @ evictions sh (ds @ replaced sh old)\<rparr>) sh'
    \<and> sh_heap sh' e = Some h' \<and> h_refs h' = (if want_handle then 1 else 0) \<and> same_entry h h'
    \<and> (\<forall>a \<in> set (ds @ replaced sh old). sh_heap sh' a = None)
    \<and> (\<forall>ho. sh_heap sh old = Some ho \<longrightarrow> h_refs ho \<noteq> 0 \<longrightarrow>
        (\<exists>ho'. sh_heap sh' old = Some ho' \<and> h_refs ho' = h_refs ho \<and> same_entry ho ho'))
    \<and> unat (sh_usage sh') + charges (sh_heap sh) ds \<le> unat (sh_usage sh) + unat (entry_charge sh key charge)"
proof -
  have fe: "e \<noteq> nullptr" "sh_heap sh e = None" "length key < 2 ^ 64" using fr by (simp_all add: fresh_entry_def)
  note f = insert_handle_fields [OF fe(3) h]
  let ?c = "entry_charge sh key charge"
  obtain sh1 bt low hi h1 where r: "EvictFromLRU (sh\<lparr>sh_heap := (sh_heap sh)(e \<mapsto> h)\<rparr>) ?c [] = Some (sh1, ds)"
      "L = ds @ bt @ low @ hi" "shard_inv sh1 (set ds \<union> {e}) 0 bt low hi (A - set ds)"
      "keeps (insert e (set ds)) sh sh1" "evicted_all (set ds) (sh_heap sh) (sh_heap sh1)"
      "sh_capacity sh < sh_usage sh1 + ?c \<longrightarrow> bt @ low @ hi = []"
      "sh_heap sh1 e = Some h1" "pub h1 = pub h" "h_next h1 = nullptr" "h_prev h1 = nullptr"
      "unat (sh_usage sh1) + charges (sh_heap sh) ds = unat (sh_usage sh)"
      "distinct L" "e \<notin> set L" "e \<notin> A"
    using evict_room [OF st fe(2,1) f(2,3), of ds] room ds unfolding f(8) victims_def by blast
  note S = keeps_settings [OF r(4)]
  note p = pub_eqD [OF r(8)]
  have fit: "sh_capacity sh < sh_usage sh1 + ?c \<longleftrightarrow> \<not> charge_fits sh L ?c" using charge_fits_usage [OF r(11) [unfolded ds] room] .
  have D: "(set ds \<union> {e}) \<inter> (A - set ds) = {}" "set (bt @ low @ hi) \<inter> (set ds \<union> {e}) = {}"
    using r(14) r(12,13) unfolding r(2) by auto
  have c1: "h_total_charge h1 = ?c" "h_hash h1 = hash" "handle_key h1 = key" "h_refs h1 = 0" "InCache h1" using p f by simp_all
  have u1: "unat (sh_usage sh1) + unat (h_total_charge h1) < 2 ^ 64" using r(11) room c1 by simp
  have cd: "card (A - set ds) < 2 ^ 32 - 1" using card card_Diff_subset_Int [of A "set ds"] by simp
  have o1: "entry_of (sh_heap sh1) (A - set ds) (handle_key h1) (h_hash h1) = old"
    using entry_of_keeps [OF r(4), of "A - set ds"] r(14) old c1 by auto
  obtain tb hp sh2 bt2 low2 hi2 h2 where t: "Table_Insert (sh_table sh1) (sh_heap sh1) e = Some (old, tb, hp)"
      "overwrite_old (sh1\<lparr>sh_table := tb, sh_heap := hp, sh_usage := sh_usage sh1 + h_total_charge h1\<rparr>) old ds
        = Some (if old = nullptr then Status_OK else Status_OkOverwritten, sh2, ds @ replaced sh1 old)"
      "shard_inv sh2 (set (replaced sh1 old) \<union> (set ds \<union> {e})) (unat (h_total_charge h1)) bt2 low2 hi2 (insert e (A - set ds - {old}))"
      "bt2 @ low2 @ hi2 = removeAll old (bt @ low @ hi)" "keeps {old} sh1 sh2" "sh_usage sh2 \<le> sh_usage sh1 + h_total_charge h1"
      "sh_heap sh2 e = Some h2" "pub h2 = pub h1" "h_next h2 = nullptr" "h_prev h2 = nullptr"
      "\<forall>ho. sh_heap sh1 old = Some ho \<longrightarrow>
        (\<exists>ho'. sh_heap sh2 old = Some ho' \<and> h_refs ho' = h_refs ho \<and> same_entry ho ho' \<and> HasHit ho' = HasHit ho)"
    using insert_table [OF r(3) _ D r(7,9,10) cd u1 o1, of ds] by blast
  have nn: "nullptr \<notin> set ds"
    using r(5) shard_table(3) [OF st] by (auto simp: evicted_all_def)
  have oA: "old \<noteq> nullptr \<Longrightarrow> old \<in> A - set ds" using entry_of_props(2) [OF invD(2) [OF r(3)] o1] by blast
  have on: "old \<notin> insert e (set ds)" using oA nn fe(1) r(14) by (cases "old = nullptr") auto
  have om: "map_option pub (sh_heap sh1 old) = map_option pub (sh_heap sh old)"
    using r(4) on by (auto simp: keeps_def same_pub_def)
  then have re: "replaced sh1 old = replaced sh old"
    by (cases "sh_heap sh old"; cases "sh_heap sh1 old") (auto simp: replaced_def dest: pub_eqD)
  have rs: "set (replaced sh old) \<subseteq> {old}" "distinct (replaced sh old)" by (auto simp: replaced_def split: option.split)
  let ?E = "set (ds @ replaced sh old)"
  have eE: "e \<notin> ?E" using on rs r(13) r(2) by auto
  have i2: "shard_inv sh2 (insert e ?E) (unat (h_total_charge h2)) bt2 low2 hi2 (insert e (A - set ds - {old}))"
    using t(3) pub_eqD(3) [OF t(8)] unfolding re by (simp add: Un_commute)
  have L2: "set (bt2 @ low2 @ hi2) = set (bt @ low @ hi) - {old}" unfolding t(4) by auto
  have d2: "set (bt2 @ low2 @ hi2) \<inter> insert e ?E = {}" using D(2) rs unfolding L2 by auto
  have eA': "e \<in> insert e (A - set ds - {old})" by simp
  have h2: "h_refs h2 = 0" "InCache h2" using pub_eqD [OF t(8)] c1 by simp_all
  let ?s = "if old = nullptr then Status_OK else Status_OkOverwritten"
  obtain sh3 bt3 low3 hi3 h3 where q: "place_entry sh2 e want_handle ?s (ds @ replaced sh old) = Some (?s, if want_handle then e else nullptr, sh3, ds @ replaced sh old)"
      "shard_inv sh3 ?E 0 bt3 low3 hi3 (insert e (A - set ds - {old}))"
      "if want_handle then bt3 @ low3 @ hi3 = bt2 @ low2 @ hi2
       else \<exists>us vs. bt2 @ low2 @ hi2 = us @ vs \<and> bt3 @ low3 @ hi3 = us @ e # vs"
      "keeps {e} sh2 sh3" "sh_usage sh3 = sh_usage sh2" "sh_heap sh3 e = Some h3"
      "h_refs h3 = (if want_handle then 1 else 0)" "same_entry h2 h3"
    using place_inv [OF i2 eE eA' d2 t(7,9,10) h2, where want_handle = want_handle and s = ?s and l = "ds @ replaced sh old"]
    by blast
  have v: "evicted_all ?E (sh_heap sh) (sh_heap sh3)"
  proof (rule evicted_keeps [OF _ q(4)])
    have "evicted_all (set ds) (sh_heap sh) (sh_heap sh2)" by (rule evicted_keeps [OF r(5) t(5)]) (use on in auto)
    moreover have "evicted_all (set (replaced sh old)) (sh_heap sh) (sh_heap sh2)"
    proof (cases "sh_heap sh old")
      case (Some ho)
      then obtain ho1 where o1: "sh_heap sh1 old = Some ho1" "pub ho1 = pub ho" using om by auto
      then obtain ho2 where o2: "sh_heap sh2 old = Some ho2" "h_refs ho2 = h_refs ho1" "same_entry ho1 ho2" "HasHit ho2 = HasHit ho1"
        using t(11) by blast
      show ?thesis
      proof (cases "h_refs ho = 0")
        case True
        then have "h_refs ho1 = 0" using pub_eqD(6) [OF o1(2)] by simp
        then have "evicted_from ho1 ho2" using o2 by (simp add: evicted_from_def same_entry_def)
        from evicted_pub_from [OF o1(2) this] show ?thesis using Some True o2 by (simp add: replaced_def evicted_all_def)
      qed (simp add: replaced_def evicted_all_def Some)
    qed (simp add: replaced_def evicted_all_def)
    ultimately show "evicted_all ?E (sh_heap sh) (sh_heap sh2)" by (auto simp: evicted_all_def)
  qed (use eE in auto)
  have dd: "distinct (ds @ replaced sh old)" using r(12) rs on unfolding r(2) by auto
  have L3: "set (bt3 @ low3 @ hi3) \<subseteq> insert e (set (bt2 @ low2 @ hi2))"
    using q(3) by (auto split: if_splits) (metis Un_iff insert_iff list.simps(15) set_append)+
  have d3: "?E \<inter> (insert e (A - set ds - {old}) \<union> set (bt3 @ low3 @ hi3) \<union> {}) = {}" using L3 d2 eE rs by auto
  have i3: "shard_inv sh3 (?E \<union> {}) 0 bt3 low3 hi3 (insert e (A - set ds - {old}))" using q(2) by simp
  obtain sh4 where n: "NotifyEvicted sh3 (ds @ replaced sh old) = Some sh4" "shard_inv sh4 {} 0 bt3 low3 hi3 (insert e (A - set ds - {old}))"
      "keeps ?E (sh3\<lparr>sh_calls := sh_calls sh3 @ evictions (sh3\<lparr>sh_heap := sh_heap sh\<rparr>) (ds @ replaced sh old)\<rparr>) sh4"
      "\<forall>a. sh_heap sh4 a = (if a \<in> ?E then None else sh_heap sh3 a)" "sh_usage sh4 = sh_usage sh3"
    using NotifyEvicted_inv [OF i3 dd d3 v] by blast
  have k3: "keeps ({e, old} \<union> set ds) sh sh3"
    by (rule keeps_mono [OF keeps_trans [OF keeps_trans [OF r(4) t(5)] q(4)]]) auto
  have ev: "evictions (sh3\<lparr>sh_heap := sh_heap sh\<rparr>) (ds @ replaced sh old) = evictions sh (ds @ replaced sh old)"
    using keeps_settings(4) [OF k3] by (simp add: evictions_def)
  have k4: "keeps ({e, old} \<union> set ds) (sh\<lparr>sh_calls := sh_calls sh @ evictions sh (ds @ replaced sh old)\<rparr>) sh4"
    by (rule keeps_mono [OF keeps_trans [OF keeps_calls [OF k3] n(3) [unfolded ev keeps_settings(3) [OF k3]]]]) (use rs in auto)
  have w: "\<exists>R. L = ds @ R \<and> (if want_handle then bt3 @ low3 @ hi3 = removeAll old R
      else \<exists>us vs. removeAll old R = us @ vs \<and> bt3 @ low3 @ hi3 = us @ e # vs)"
    using r(2) q(3) [unfolded t(4)] by blast
  have "bt3 @ low3 @ hi3 = []" if "sh_capacity sh4 < sh_usage sh4"
  proof -
    have "sh_capacity sh < sh_usage sh1 + ?c"
      using that keeps_settings(1) [OF k4] n(5) q(5) t(6) c1(1) by simp
    then have "\<not> charge_fits sh L ?c" "bt @ low @ hi = []" using fit r(6) by simp_all
    then show ?thesis using ok q(3) t(4) by simp
  qed
  then have "shard_state sh4 (bt3 @ low3 @ hi3) (insert e (A - set ds - {old}))" by (intro shard_stateI [OF n(2)]) simp_all
  moreover have "\<not> (sh_capacity sh < sh_usage sh1 + ?c \<and> (sh_strict_capacity_limit sh1 \<or> \<not> want_handle))"
    using fit ok S(2) by auto
  then have "Shard_Insert sh e key hash val helper charge want_handle priority = Some (?s, if want_handle then e else nullptr, sh4)"
    using InsertItem_run [OF _ _ _ t(1) _ q(1) n(1), of "sh\<lparr>sh_heap := (sh_heap sh)(e \<mapsto> h)\<rparr>" h] S(1) r(1) t(2) f(8) c1(1) re
    by (simp add: Shard_Insert_run [OF fr] h [symmetric])
  moreover have "\<exists>ho'. sh_heap sh4 old = Some ho' \<and> h_refs ho' = h_refs ho \<and> same_entry ho ho'"
    if ho: "sh_heap sh old = Some ho" "h_refs ho \<noteq> 0" for ho
  proof -
    obtain ho1 where o1: "sh_heap sh1 old = Some ho1" "pub ho1 = pub ho" using om ho by auto
    then obtain ho2 where o2: "sh_heap sh2 old = Some ho2" "h_refs ho2 = h_refs ho1" "same_entry ho1 ho2" using t(11) by blast
    obtain ho3 where o3: "sh_heap sh3 old = Some ho3" "pub ho3 = pub ho2" using keeps_Some [OF q(4) o2(1)] on by auto
    have "old \<notin> ?E" using on ho by (simp add: replaced_def)
    then show ?thesis
      using n(4) o1 o2 o3 pub_eqD(6) [OF o1(2)] pub_eqD(6) [OF o3(2)]
        same_entry_trans [OF same_entry_trans [OF same_entry_pub [OF o1(2)] o2(3)] same_entry_pub [OF o3(2)]] by simp
  qed
  moreover have "same_entry h h3"
    using same_entry_trans [OF same_entry_trans [OF same_entry_pub [OF r(8)] same_entry_pub [OF t(8)]] q(8)] .
  moreover have "unat (sh_usage sh4) \<le> unat (sh_usage sh1) + unat ?c"
    using t(6) n(5) q(5) u1 c1(1) by (simp add: word_le_nat_alt unat_word_ariths)
  then have "unat (sh_usage sh4) + charges (sh_heap sh) ds \<le> unat (sh_usage sh) + unat ?c" using r(11) by simp
  ultimately show ?thesis using w k4 n(4) eE q(6,7)
    by - (rule exI [of _ sh4], rule exI [of _ "bt3 @ low3 @ hi3"], rule exI [of _ h3], simp)
qed

section \<open>Standalone entries\<close>

definition standalone_handle :: "LRUCacheShard \<Rightarrow> bytes \<Rightarrow> u32 \<Rightarrow> ObjectPtr \<Rightarrow> CacheItemHelper \<Rightarrow> u64 \<Rightarrow> LRUHandle" where
  "standalone_handle sh key hash val helper charge =
     handle_Ref (SetIsStandalone True (new_handle sh key hash val helper charge))"

lemma standalone_handle_fields:
  assumes "length key < 2 ^ 64" and "h = standalone_handle sh key hash val helper charge"
  shows "h_refs h = 1" "h_next h = nullptr" "h_prev h = nullptr" "h_value h = val" "h_helper h = helper" "h_hash h = hash"
    "handle_key h = key" "h_total_charge h = entry_charge sh key charge" "\<not> InCache h"
  using new_handle_fields [OF assms(1), of sh hash val helper charge] unfolding assms(2)
  by (simp_all add: standalone_handle_def handle_Ref_def SetIsStandalone_def handle_key_def InCache_def)

text \<open>The part of \<^verbatim>\<open>CreateStandalone\<close> between eviction and notification.\<close>

definition charge_standalone :: "LRUCacheShard \<Rightarrow> addr \<Rightarrow> u64 \<Rightarrow> bool \<Rightarrow> (addr \<times> LRUCacheShard) option" where
  "charge_standalone sh e c allow_uncharged =
     (if sh_strict_capacity_limit sh \<and> sh_capacity sh < sh_usage sh + c then
        if allow_uncharged then do { sh \<leftarrow> at sh e (h_total_charge_update (\<lambda>_. 0)); Some (e, sh) }
        else do { sh \<leftarrow> free_handle sh e; Some (nullptr, sh) }
      else Some (e, sh\<lparr>sh_usage := sh_usage sh + c\<rparr>))"

lemma CreateStandalone_run:
  assumes "fresh_entry sh e key val helper" and "h = standalone_handle sh key hash val helper charge"
    and "EvictFromLRU (sh\<lparr>sh_heap := (sh_heap sh)(e \<mapsto> h)\<rparr>) (h_total_charge h) [] = Some (sh1, ds)"
    and "charge_standalone sh1 e (h_total_charge h) allow_uncharged = Some (e', sh2)" and "NotifyEvicted sh2 ds = Some sh3"
  shows "CreateStandalone sh e key hash val helper charge allow_uncharged = Some (e', sh3)"
  unfolding CreateStandalone_def charge_standalone_def [symmetric]
  using assms(3-5) by (simp add: CreateHandle_run [OF assms(1)] upd_new assms(2) standalone_handle_def)

lemma charge_standalone_inv:
  assumes inv: "shard_inv sh (insert e E) 0 bt low hi A" and eE: "e \<notin> E" "e \<notin> A" "e \<notin> set (bt @ low @ hi)"
    and h: "sh_heap sh e = Some h" "h_next h = nullptr" "h_prev h = nullptr" "h_refs h = 1" "\<not> InCache h"
    and room: "unat (sh_usage sh) + unat (h_total_charge h) < 2 ^ 64"
    and charged: "charged \<longleftrightarrow> \<not> (sh_strict_capacity_limit sh \<and> sh_capacity sh < sh_usage sh + h_total_charge h)"
  shows "\<exists>sh'. charge_standalone sh e (h_total_charge h) allow_uncharged = Some (if charged \<or> allow_uncharged then e else nullptr, sh')
    \<and> shard_inv sh' E 0 bt low hi A \<and> keeps {e} sh sh' \<and> sh_usage sh' = (if charged then sh_usage sh + h_total_charge h else sh_usage sh)
    \<and> sh_heap sh' e = (if charged then Some h else if allow_uncharged then Some (h\<lparr>h_total_charge := 0\<rparr>) else None)"
proof -
  consider "charged" | "\<not> charged" "allow_uncharged" | "\<not> charged" "\<not> allow_uncharged" by blast
  then show ?thesis
  proof cases
    case 1
    let ?sh = "sh\<lparr>sh_usage := sh_usage sh + h_total_charge h\<rparr>"
    note u = inv_usage_add [OF inv room]
    have "entry_ok A (set (bt @ low @ hi)) e h" using eE h by (simp add: entry_ok_def)
    from inv_absorb [OF u(1) _ _ this] have "shard_inv ?sh E 0 bt low hi A" using h eE by (simp add: charge_of_def)
    moreover have "keeps {e} sh ?sh" using keeps_mono [OF u(2)] by simp
    ultimately show ?thesis using 1 charged h by (intro exI [of _ ?sh]) (auto simp: charge_standalone_def)
  next
    case 2
    let ?h = "h\<lparr>h_total_charge := 0\<rparr>"
    let ?sh = "sh\<lparr>sh_heap := upd e (h_total_charge_update (\<lambda>_. 0)) (sh_heap sh)\<rparr>"
    have t: "at sh e (h_total_charge_update (\<lambda>_. 0)) = Some ?sh" "shard_inv ?sh (insert e E) 0 bt low hi A" "keeps {e} sh ?sh"
      using inv_at [OF inv _ h(1), of "h_total_charge_update (\<lambda>_. 0)"] eE by simp_all
    have "entry_ok A (set (bt @ low @ hi)) e ?h" using eE h by (simp add: entry_ok_def InCache_def)
    from inv_absorb [OF t(2) _ _ this] have "shard_inv ?sh E 0 bt low hi A" using h eE by (simp add: charge_of_def)
    then show ?thesis using 2 charged h t(3) by (intro exI [of _ ?sh]) (auto simp: charge_standalone_def)
  next
    case 3
    let ?sh = "sh\<lparr>sh_heap := (sh_heap sh)(e := None)\<rparr>"
    have "free_handle sh e = Some ?sh" "shard_inv ?sh E 0 bt low hi A" "keeps {e} sh ?sh"
      using inv_free [OF inv, of e] eE by simp_all
    then show ?thesis using 3 charged by (intro exI [of _ ?sh]) (auto simp: charge_standalone_def)
  qed
qed

lemma CreateStandalone_state:
  assumes st: "shard_state sh L A" and fr: "fresh_entry sh e key val helper"
    and room: "unat (sh_usage sh) + unat (entry_charge sh key charge) < 2 ^ 64"
    and h: "h = standalone_handle sh key hash val helper charge"
    and ds: "ds = victims sh L (entry_charge sh key charge)"
    and charged: "charged \<longleftrightarrow> charge_fits sh L (entry_charge sh key charge) \<or> \<not> sh_strict_capacity_limit sh"
  shows "\<exists>sh' R. CreateStandalone sh e key hash val helper charge allow_uncharged
      = Some (if charged \<or> allow_uncharged then e else nullptr, sh')
    \<and> L = ds @ R \<and> shard_state sh' R (A - set ds)
    \<and> keeps (insert e (set ds)) (sh\<lparr>sh_calls := sh_calls sh @ evictions sh ds\<rparr>) sh' \<and> (\<forall>a \<in> set ds. sh_heap sh' a = None)
    \<and> (if charged \<or> allow_uncharged then \<exists>h'. sh_heap sh' e = Some h' \<and> h_refs h' = 1 \<and> \<not> InCache h' \<and> h_value h' = val
        \<and> handle_key h' = key \<and> h_total_charge h' = (if charged then entry_charge sh key charge else 0)
       else sh_heap sh' e = None)"
proof -
  have fe: "e \<noteq> nullptr" "sh_heap sh e = None" "length key < 2 ^ 64" using fr by (simp_all add: fresh_entry_def)
  note f = standalone_handle_fields [OF fe(3) h]
  let ?c = "entry_charge sh key charge"
  obtain sh1 bt low hi h1 where r: "EvictFromLRU (sh\<lparr>sh_heap := (sh_heap sh)(e \<mapsto> h)\<rparr>) ?c [] = Some (sh1, ds)"
      "L = ds @ bt @ low @ hi" "shard_inv sh1 (set ds \<union> {e}) 0 bt low hi (A - set ds)"
      "keeps (insert e (set ds)) sh sh1" "evicted_all (set ds) (sh_heap sh) (sh_heap sh1)"
      "sh_capacity sh < sh_usage sh1 + ?c \<longrightarrow> bt @ low @ hi = []"
      "sh_heap sh1 e = Some h1" "pub h1 = pub h" "h_next h1 = nullptr" "h_prev h1 = nullptr"
      "unat (sh_usage sh1) + charges (sh_heap sh) ds = unat (sh_usage sh)" "distinct L" "e \<notin> set L" "e \<notin> A"
    using evict_room [OF st fe(2,1) f(2,3), of ds] room ds unfolding f(8) victims_def by blast
  note S = keeps_settings [OF r(4)]
  note p = pub_eqD [OF r(8)]
  have c1: "h_total_charge h1 = ?c" "h_refs h1 = 1" "\<not> InCache h1" "h_value h1 = val" "handle_key h1 = key" using p f by simp_all
  have i1: "shard_inv sh1 (insert e (set ds)) 0 bt low hi (A - set ds)" using r(3) by simp
  have u1: "unat (sh_usage sh1) + unat (h_total_charge h1) < 2 ^ 64" using r(11) room c1 by simp
  have ne: "e \<notin> set ds" "e \<notin> A - set ds" "e \<notin> set (bt @ low @ hi)" using r(13,14) unfolding r(2) by auto
  have ch: "charged \<longleftrightarrow> \<not> (sh_strict_capacity_limit sh1 \<and> sh_capacity sh1 < sh_usage sh1 + h_total_charge h1)"
    using charged charge_fits_usage [OF r(11) [unfolded ds] room] S(1,2) c1(1) by auto
  obtain sh2 where t: "charge_standalone sh1 e (h_total_charge h1) allow_uncharged = Some (if charged \<or> allow_uncharged then e else nullptr, sh2)"
      "shard_inv sh2 (set ds) 0 bt low hi (A - set ds)" "keeps {e} sh1 sh2"
      "sh_usage sh2 = (if charged then sh_usage sh1 + h_total_charge h1 else sh_usage sh1)"
      "sh_heap sh2 e = (if charged then Some h1 else if allow_uncharged then Some (h1\<lparr>h_total_charge := 0\<rparr>) else None)"
    using charge_standalone_inv [OF i1 ne r(7,9,10) c1(2,3) u1 ch] by blast
  have k2: "keeps (insert e (set ds)) sh sh2" using keeps_trans [OF r(4) t(3)] by simp
  have v: "evicted_all (set ds) (sh_heap sh) (sh_heap sh2)" by (rule evicted_keeps [OF r(5) t(3)]) (use ne in simp)
  have i2: "shard_inv sh2 (set ds \<union> {}) 0 bt low hi (A - set ds)" using t(2) by simp
  have dd: "distinct ds" "set ds \<inter> (A - set ds \<union> set (bt @ low @ hi) \<union> {}) = {}" using r(12) unfolding r(2) by auto
  obtain sh3 where n: "NotifyEvicted sh2 ds = Some sh3" "shard_inv sh3 {} 0 bt low hi (A - set ds)"
      "keeps (set ds) (sh2\<lparr>sh_calls := sh_calls sh2 @ evictions (sh2\<lparr>sh_heap := sh_heap sh\<rparr>) ds\<rparr>) sh3"
      "\<forall>a. sh_heap sh3 a = (if a \<in> set ds then None else sh_heap sh2 a)" "sh_usage sh3 = sh_usage sh2"
    using NotifyEvicted_inv [OF i2 dd v] by blast
  have ev: "evictions (sh2\<lparr>sh_heap := sh_heap sh\<rparr>) ds = evictions sh ds"
    using keeps_settings(4) [OF k2] by (simp add: evictions_def)
  have k3: "keeps (insert e (set ds)) (sh\<lparr>sh_calls := sh_calls sh @ evictions sh ds\<rparr>) sh3"
    using keeps_trans [OF keeps_calls [OF k2] n(3) [unfolded ev keeps_settings(3) [OF k2]]] by simp
  have "bt @ low @ hi = []" if "sh_capacity sh3 < sh_usage sh3"
  proof -
    have "sh_usage sh1 \<le> sh_usage sh1 + ?c" using u1 c1(1) by (simp add: word_le_nat_alt unat_word_ariths)
    then have "sh_capacity sh < sh_usage sh1 + ?c"
      using that keeps_settings(1) [OF k3] n(5) t(4) c1(1) by (auto split: if_splits)
    then show ?thesis using r(6) by simp
  qed
  then have "shard_state sh3 (bt @ low @ hi) (A - set ds)" by (intro shard_stateI [OF n(2)]) simp_all
  moreover have "CreateStandalone sh e key hash val helper charge allow_uncharged
      = Some (if charged \<or> allow_uncharged then e else nullptr, sh3)"
    by (rule CreateStandalone_run [OF fr h _ _ n(1)]) (use r(1) t(1) f(8) c1(1) in simp_all)
  ultimately show ?thesis using r(2) k3 n(4) t(5) ne(1) c1
    by - (rule exI [of _ sh3], rule exI [of _ "bt @ low @ hi"], simp add: InCache_def handle_key_def)
qed

end
