(* ===== verification/Lru_Cache_Props.thy ===== *)
theory Lru_Cache_Props
  imports Lru_Shard_Insert
begin

text \<open>
  The properties of an LRU cache shard: every sequence of operations that clients may make is free of
  failed assertions, dangling accesses and endless loops and keeps the documented states of the
  entries; no entry is leaked; the shard behaves as a map from which eviction removes entries in LRU
  order within the capacity.
\<close>

section \<open>Clients\<close>

datatype ShardOp =
    OpInsert addr bytes u32 ObjectPtr CacheItemHelper u64 bool Priority
  | OpStandalone addr bytes u32 ObjectPtr CacheItemHelper u64 bool
  | OpLookup bytes u32
  | OpRef addr
  | OpRelease addr bool
  | OpErase bytes u32
  | OpEraseUnRef
  | OpSetCapacity u64
  | OpSetStrict bool
  | OpHighRatio double
  | OpLowRatio double

fun run_op :: "LRUCacheShard \<Rightarrow> ShardOp \<Rightarrow> LRUCacheShard option" where
  "run_op sh (OpInsert e key hash val helper charge want priority) =
     map_option (\<lambda>(_, _, sh). sh) (Shard_Insert sh e key hash val helper charge want priority)"
| "run_op sh (OpStandalone e key hash val helper charge allow) =
     map_option snd (CreateStandalone sh e key hash val helper charge allow)"
| "run_op sh (OpLookup key hash) = map_option snd (Shard_Lookup sh key hash)"
| "run_op sh (OpRef e) = map_option snd (Shard_Ref sh e)"
| "run_op sh (OpRelease e erase) = map_option snd (Shard_Release sh e erase)"
| "run_op sh (OpErase key hash) = Shard_Erase sh key hash"
| "run_op sh OpEraseUnRef = EraseUnRefEntries sh"
| "run_op sh (OpSetCapacity capacity) = Shard_SetCapacity sh capacity"
| "run_op sh (OpSetStrict b) = Some (SetStrictCapacityLimit sh b)"
| "run_op sh (OpHighRatio r) = SetHighPriorityPoolRatio sh r"
| "run_op sh (OpLowRatio r) = SetLowPriorityPoolRatio sh r"

text \<open>
  What a client and its environment promise: references are taken and released only through handles that
  are held, no entry gets \<open>2\<^sup>32\<close> references, the allocator returns blocks that are not in use, the charges and
  the number of entries stay within their integer types, and ratios are not negative.
\<close>

definition held :: "LRUCacheShard \<Rightarrow> addr \<Rightarrow> bool" where
  "held sh e \<longleftrightarrow> e \<noteq> lru_head \<and> (case sh_heap sh e of None \<Rightarrow> False | Some h \<Rightarrow> h_refs h \<noteq> 0)"

definition may_ref :: "LRUCacheShard \<Rightarrow> addr \<Rightarrow> bool" where
  "may_ref sh e \<longleftrightarrow> (case sh_heap sh e of None \<Rightarrow> True | Some h \<Rightarrow> can_ref h)"

definition may_allocate :: "LRUCacheShard \<Rightarrow> addr \<Rightarrow> bytes \<Rightarrow> ObjectPtr \<Rightarrow> CacheItemHelper \<Rightarrow> u64 \<Rightarrow> bool" where
  "may_allocate sh e key val helper charge \<longleftrightarrow> fresh_entry sh e key val helper
     \<and> unat (sh_usage sh) + unat (entry_charge sh key charge) < 2 ^ 64"

fun client_ok :: "LRUCacheShard \<Rightarrow> ShardOp \<Rightarrow> bool" where
  "client_ok sh (OpInsert e key hash val helper charge want priority) \<longleftrightarrow>
     may_allocate sh e key val helper charge \<and> tb_elems (sh_table sh) \<noteq> - 1"
| "client_ok sh (OpStandalone e key hash val helper charge allow) \<longleftrightarrow> may_allocate sh e key val helper charge"
| "client_ok sh (OpLookup key hash) \<longleftrightarrow>
     (case Table_Lookup (sh_table sh) (sh_heap sh) key hash of None \<Rightarrow> True | Some e \<Rightarrow> may_ref sh e)"
| "client_ok sh (OpRef e) \<longleftrightarrow> held sh e \<and> may_ref sh e"
| "client_ok sh (OpRelease e erase) \<longleftrightarrow> e = nullptr \<or> held sh e"
| "client_ok sh (OpHighRatio r) \<longleftrightarrow> not_negative r"
| "client_ok sh (OpLowRatio r) \<longleftrightarrow> not_negative r"
| "client_ok sh op \<longleftrightarrow> True"

inductive shard_reachable :: "LRUCacheShard \<Rightarrow> bool" where
  new: "not_negative high_pri_pool_ratio \<Longrightarrow> not_negative low_pri_pool_ratio
    \<Longrightarrow> LRUCacheShard_new capacity strict_capacity_limit high_pri_pool_ratio low_pri_pool_ratio policy bits callback lru = Some sh
    \<Longrightarrow> shard_reachable sh"
| step: "shard_reachable sh \<Longrightarrow> client_ok sh op \<Longrightarrow> run_op sh op = Some sh' \<Longrightarrow> shard_reachable sh'"

inductive_cases shard_reachableE: "shard_reachable sh"

section \<open>Every operation returns\<close>

lemma state_elems:
  assumes "shard_state sh L A"
  shows "unat (tb_elems (sh_table sh)) = card A" and "finite A"
proof -
  obtain bs where "table_of (sh_table sh) (sh_heap sh) bs" "set (concat bs) = A"
    using shard_table(1) [OF assms] by (auto simp: table_holds_def)
  then show "unat (tb_elems (sh_table sh)) = card A" "finite A"
    unfolding table_of_def buckets_def using distinct_card [of "concat bs"] by auto
qed

lemma state_card:
  assumes st: "shard_state sh L A" and el: "tb_elems (sh_table sh) \<noteq> - 1"
  shows "card A < 2 ^ 32 - 1"
proof -
  have "unat (- 1 :: u32) = 2 ^ 32 - 1" by (simp add: unsigned_minus_1_eq_mask mask_eq_exp_minus_1)
  moreover have "tb_elems (sh_table sh) < - 1" using el by (simp add: word_order.not_eq_extremum)
  ultimately show ?thesis using state_elems(1) [OF st] by (simp add: word_less_nat_alt)
qed

lemma held_Some:
  assumes "held sh e"
  obtains h where "sh_heap sh e = Some h" and "h_refs h \<noteq> 0" and "e \<noteq> lru_head"
  using assms by (auto simp: held_def split: option.splits)

lemma run_op_state:
  assumes st: "shard_state sh L A" and ok: "client_ok sh op"
  shows "\<exists>sh' L' A'. run_op sh op = Some sh' \<and> shard_state sh' L' A'"
proof (cases op)
  case (OpInsert e key hash val helper charge want priority)
  then have fr: "fresh_entry sh e key val helper" and room: "unat (sh_usage sh) + unat (entry_charge sh key charge) < 2 ^ 64"
    and el: "tb_elems (sh_table sh) \<noteq> - 1" using ok by (simp_all add: may_allocate_def)
  have card: "card A < 2 ^ 32 - 1" by (rule state_card [OF st el])
  show ?thesis
  proof (cases "charge_fits sh L (entry_charge sh key charge) \<or> \<not> sh_strict_capacity_limit sh \<and> want")
    case True
    from Insert_ok [OF st fr room card True refl refl refl, of hash priority] OpInsert show ?thesis by auto
  next
    case False
    then have "\<not> charge_fits sh L (entry_charge sh key charge)" "sh_strict_capacity_limit sh \<or> \<not> want" by auto
    from Insert_full [OF st fr room this refl, of hash priority] OpInsert show ?thesis by auto
  qed
next
  case (OpStandalone e key hash val helper charge allow)
  then have fr: "fresh_entry sh e key val helper" and room: "unat (sh_usage sh) + unat (entry_charge sh key charge) < 2 ^ 64"
    using ok by (simp_all add: may_allocate_def)
  from CreateStandalone_state [OF st fr room refl refl refl, of hash allow] OpStandalone show ?thesis by auto
next
  case (OpLookup key hash)
  obtain e where e: "entry_of (sh_heap sh) A key hash = e" by simp
  have "Table_Lookup (sh_table sh) (sh_heap sh) key hash = Some e"
    using Table_Lookup_holds [OF shard_table(1) [OF st]] e by simp
  then have r: "\<And>h. sh_heap sh e = Some h \<Longrightarrow> can_ref h" using ok OpLookup by (simp add: may_ref_def)
  show ?thesis
  proof (cases "e = nullptr")
    case True
    from Lookup_state(1) [OF st e r True] OpLookup st show ?thesis by auto
  next
    case False
    from Lookup_state(2) [OF st e r False] OpLookup show ?thesis by auto
  qed
next
  case (OpRef e)
  then obtain h where h: "sh_heap sh e = Some h" "h_refs h \<noteq> 0" "e \<noteq> lru_head" using ok by (auto elim: held_Some)
  then have "can_ref h" using ok OpRef by (simp add: may_ref_def)
  from Ref_state [OF st h(1,2) this h(3)] OpRef show ?thesis by auto
next
  case (OpRelease e erase)
  show ?thesis
  proof (cases "e = nullptr")
    case True
    then show ?thesis using OpRelease st by (auto simp: Shard_Release_def)
  next
    case False
    then obtain h where h: "sh_heap sh e = Some h" "h_refs h \<noteq> 0" "e \<noteq> lru_head" using ok OpRelease by (auto elim: held_Some)
    from Release_state [OF st h refl, of erase] OpRelease show ?thesis by (auto split: if_splits)
  qed
next
  case (OpErase key hash)
  from Erase_state [OF st refl, of key hash] OpErase show ?thesis by auto
next
  case OpEraseUnRef
  from EraseUnRefEntries_state [OF st] OpEraseUnRef show ?thesis by auto
next
  case (OpSetCapacity capacity)
  obtain bt low hi where "shard_inv sh {} 0 bt low hi A" "L = bt @ low @ hi" using st by (auto simp: shard_state_def)
  from Shard_SetCapacity_inv [OF this refl, of capacity] OpSetCapacity show ?thesis by auto
next
  case (OpSetStrict b)
  with SetStrictCapacityLimit_state [OF st, of b] show ?thesis by auto
next
  case (OpHighRatio r)
  with SetHighPriorityPoolRatio_state [OF st, of r] ok show ?thesis by auto
next
  case (OpLowRatio r)
  with SetLowPriorityPoolRatio_state [OF st, of r] ok show ?thesis by auto
qed

lemma reachable_state:
  assumes "shard_reachable sh"
  obtains L A where "shard_state sh L A"
proof -
  have "\<exists>L A. shard_state sh L A" using assms
  proof (induction rule: shard_reachable.induct)
    case (new hi lo capacity strict policy bits callback lru sh)
    from LRUCacheShard_new_state [OF new(1,2), of capacity strict policy bits callback lru] new(3) show ?case by auto
  next
    case (step sh op sh')
    then obtain L A where "shard_state sh L A" by blast
    from run_op_state [OF this step(2)] step(3) show ?case by auto
  qed
  then show ?thesis using that by blast
qed

section \<open>What can be observed of a shard\<close>

text \<open>The LRU list from the oldest entry to the newest.\<close>

partial_function (option) lru_walk :: "heap \<Rightarrow> addr \<Rightarrow> addr list option" where
  "lru_walk hp a = (if a = lru_head then Some [] else do { h \<leftarrow> hp a; as \<leftarrow> lru_walk hp (h_next h); Some (a # as) })"

declare lru_walk.simps [code]

definition lru_order :: "LRUCacheShard \<Rightarrow> addr list option" where
  "lru_order sh = do { lru \<leftarrow> sh_heap sh lru_head; lru_walk (sh_heap sh) (h_next lru) }"

lemma lru_walk_segment:
  assumes "dlseg (next_of hp) P a as lru_head" and "lru_head \<notin> set as" and "\<And>b. b \<in> set as \<Longrightarrow> hp b \<noteq> None"
  shows "lru_walk hp (next_of hp a) = Some as"
    and "TEST_GetLRUSize_loop hp (next_of hp a) n = Some (n + of_nat (length as))"
  using assms
proof (induction as arbitrary: a n)
  case Nil
  {
    case 1
    then show ?case by (subst lru_walk.simps) simp
  next
    case 2
    then show ?case by (subst TEST_GetLRUSize_loop.simps) simp
  }
next
  case (Cons b as)
  {
    case 1
    then obtain h where h: "hp b = Some h" using 1(3) [of b] by auto
    then have "lru_walk hp (h_next h) = Some as" using Cons.IH(1) [of b] 1 by (simp add: next_of_def)
    then show ?case using 1 h by (subst lru_walk.simps) auto
  next
    case 2
    then obtain h where h: "hp b = Some h" using 2(3) [of b] by auto
    then have "TEST_GetLRUSize_loop hp (h_next h) (n + 1) = Some (n + 1 + of_nat (length as))"
      using Cons.IH(2) [of b "n + 1"] 2 by (simp add: next_of_def)
    then show ?case using 2 h by (subst TEST_GetLRUSize_loop.simps) (auto simp: algebra_simps)
  }
qed

lemma state_lru_order:
  assumes "shard_state sh L A"
  shows "lru_order sh = Some L" and "TEST_GetLRUSize sh = Some (of_nat (length L))" and "distinct L"
proof -
  obtain bt low hi where i: "shard_inv sh {} 0 bt low hi A" "L = bt @ low @ hi" using assms by (auto simp: shard_state_def)
  note D = lru_linksD [OF lru_okD(1) [OF invD(1) [OF i(1)]], folded i(2)]
  obtain lru where "sh_heap sh lru_head = Some lru" using D(4) [of lru_head] by auto
  then show "lru_order sh = Some L" "TEST_GetLRUSize sh = Some (of_nat (length L))"
    using lru_walk_segment(1) [OF D(1)] lru_walk_segment(2) [OF D(1), of 0] D(2,4) by (simp_all add: lru_order_def TEST_GetLRUSize_def next_of_def)
  show "distinct L" using D(2) by simp
qed

lemma state_lookup:
  assumes st: "shard_state sh L A" and h: "sh_heap sh a = Some h"
  shows "Table_Lookup (sh_table sh) (sh_heap sh) (handle_key h) (h_hash h) = Some a \<longleftrightarrow> a \<in> A"
proof -
  note T = shard_table [OF st]
  obtain bs where bs: "table_of (sh_table sh) (sh_heap sh) bs" "set (concat bs) = A" using T(1) by (auto simp: table_holds_def)
  have inj: "inj_on (ident (sh_heap sh)) A" using bs by (auto simp: table_of_def)
  have id: "ident (sh_heap sh) a = (handle_key h, h_hash h)" using h by (simp add: ident_def)
  have nz: "a \<noteq> nullptr" using h T(3) by (cases "a = nullptr") simp_all
  show ?thesis
    using Table_Lookup_holds [OF T(1), of "handle_key h" "h_hash h"] entry_of_eqI [OF inj _ id]
      entry_of_props(2) [OF T(1), of "handle_key h" "h_hash h" a] nz by auto
qed

lemma state_usage:
  assumes st: "shard_state sh L A"
  shows "unat (Shard_GetUsage sh) = (\<Sum>a \<in> dom (sh_heap sh) - {lru_head}. the_charge sh a)"
    and "\<exists>w. Shard_GetPinnedUsage sh = Some w \<and> unat w = (\<Sum>a \<in> {a. held sh a}. the_charge sh a)"
proof -
  obtain bt low hi where i: "shard_inv sh {} 0 bt low hi A" "L = bt @ low @ hi" using st by (auto simp: shard_state_def)
  note I = invD [OF i(1)]
  show u: "unat (Shard_GetUsage sh) = (\<Sum>a \<in> dom (sh_heap sh) - {lru_head}. the_charge sh a)"
    using I(8) by (simp add: Shard_GetUsage_def)
  have L: "unat (sh_lru_usage sh) = (\<Sum>a \<in> set L. the_charge sh a)"
    using lru_okD(2) [OF I(1)] charges_sum [OF state_lru_order(3) [OF st]] i(2) by simp
  have D: "set L \<subseteq> dom (sh_heap sh) - {lru_head}"
    using lru_linksD(2,4) [OF lru_okD(1) [OF I(1)]] i(2) by fastforce
  have "{a. held sh a} = dom (sh_heap sh) - {lru_head} - set L"
    using shard_entry(2) [OF st] by (auto simp: held_def split: option.splits)
  moreover have "(\<Sum>a \<in> dom (sh_heap sh) - {lru_head}. the_charge sh a)
      = (\<Sum>a \<in> dom (sh_heap sh) - {lru_head} - set L. the_charge sh a) + (\<Sum>a \<in> set L. the_charge sh a)"
    using sum.subset_diff [OF D, of "the_charge sh"] I(4) by simp
  ultimately have s: "unat (sh_usage sh) = (\<Sum>a \<in> {a. held sh a}. the_charge sh a) + unat (sh_lru_usage sh)"
    using u L by (simp add: Shard_GetUsage_def)
  then have "sh_lru_usage sh \<le> sh_usage sh" by (simp add: word_le_nat_alt)
  then show "\<exists>w. Shard_GetPinnedUsage sh = Some w \<and> unat w = (\<Sum>a \<in> {a. held sh a}. the_charge sh a)"
    using s by (simp add: Shard_GetPinnedUsage_def word_eq_minus)
qed

section \<open>The deleters\<close>

text \<open>The calls made so far and the deleter calls that the entries in memory still owe.\<close>

definition ledger :: "LRUCacheShard \<Rightarrow> CacheCall multiset" where
  "ledger sh = mset (sh_calls sh) + (\<Sum>a \<in> dom (sh_heap sh) - {lru_head}. mset (delete_calls (the (sh_heap sh a))))"

lemma ledger_keeps:
  assumes k: "keeps D (sh\<lparr>sh_calls := sh_calls sh @ cs\<rparr>) sh'" and fin: "finite (dom (sh_heap sh))" and D: "D \<subseteq> dom (sh_heap sh) - {lru_head}"
    and cs: "mset cs + (\<Sum>a \<in> D \<inter> dom (sh_heap sh'). mset (delete_calls (the (sh_heap sh' a))))
      = (\<Sum>a \<in> D. mset (delete_calls (the (sh_heap sh a))))"
  shows "ledger sh' = ledger sh"
proof -
  let ?c = "\<lambda>sh a. mset (delete_calls (the (sh_heap sh a)))"
  let ?R = "dom (sh_heap sh) - {lru_head} - D"
  have same: "map_option pub (sh_heap sh' a) = map_option pub (sh_heap sh a)" if "a \<notin> D" for a
    using k that by (simp add: keeps_def same_pub_def)
  then have al: "sh_heap sh' a = None \<longleftrightarrow> sh_heap sh a = None" if "a \<notin> D" for a
    using that by (metis map_option_is_None)
  have "a \<in> dom (sh_heap sh') - {lru_head} \<longleftrightarrow> a \<in> ?R \<union> (D \<inter> dom (sh_heap sh'))" for a
    using al [of a] D by (cases "a \<in> D") auto
  then have dom': "dom (sh_heap sh') - {lru_head} = ?R \<union> (D \<inter> dom (sh_heap sh'))" by blast
  have eq: "?c sh' a = ?c sh a" if a: "a \<in> ?R" for a
  proof -
    obtain h h' where "sh_heap sh a = Some h" "sh_heap sh' a = Some h'" "pub h' = pub h" using same [of a] a by auto
    then show ?thesis using pub_eqD(1,2) [of h' h] by (simp add: delete_calls_def)
  qed
  have fD: "finite D" using fin D by (meson finite_Diff rev_finite_subset)
  have "(\<Sum>a \<in> dom (sh_heap sh') - {lru_head}. ?c sh' a) = (\<Sum>a \<in> ?R. ?c sh a) + (\<Sum>a \<in> D \<inter> dom (sh_heap sh'). ?c sh' a)"
    unfolding dom' using fin fD eq by (subst sum.union_disjoint) (auto intro: sum.cong)
  moreover have "(\<Sum>a \<in> dom (sh_heap sh) - {lru_head}. ?c sh a) = (\<Sum>a \<in> ?R. ?c sh a) + (\<Sum>a \<in> D. ?c sh a)"
    using sum.subset_diff [OF D, of "?c sh"] fin by simp
  moreover have "sh_calls sh' = sh_calls sh @ cs" using keeps_settings(3) [OF k] by simp
  ultimately show ?thesis using cs [symmetric] by (simp add: ledger_def algebra_simps)
qed

lemma state_finite: "shard_state sh L A \<Longrightarrow> finite (dom (sh_heap sh))"
  using invD(4) by (auto simp: shard_state_def)

lemma same_entry_delete: "same_entry h h' \<Longrightarrow> delete_calls h' = delete_calls h"
  by (simp add: same_entry_def delete_calls_def)

lemma Release_ledger:
  assumes st: "shard_state sh L A" and h: "sh_heap sh e = Some h" "h_refs h \<noteq> 0" "e \<noteq> lru_head"
  shows "\<exists>b sh' L' A'. Shard_Release sh e erase = Some (b, sh') \<and> shard_state sh' L' A' \<and> ledger sh' = ledger sh
    \<and> (\<forall>a. a \<noteq> e \<longrightarrow> map_option h_refs (sh_heap sh' a) = map_option h_refs (sh_heap sh a))
    \<and> (case sh_heap sh' e of None \<Rightarrow> h_refs h = 1 | Some h' \<Rightarrow> h_refs h' = h_refs h - 1)"
proof -
  define freed where "freed \<longleftrightarrow> h_refs h = 1 \<and> (\<not> InCache h \<or> sh_capacity sh < sh_usage sh \<or> erase)"
  note R = Release_state [OF st h freed_def]
  have e: "{e} \<subseteq> dom (sh_heap sh) - {lru_head}" using h by auto
  have others: "\<forall>a. a \<noteq> e \<longrightarrow> map_option h_refs (sh_heap sh' a) = map_option h_refs (sh_heap sh a)"
    if "keeps {e} (sh\<lparr>sh_calls := cs\<rparr>) sh'" for sh' cs
  proof (intro allI impI)
    fix a
    assume "a \<noteq> e"
    then have "map_option pub (sh_heap sh' a) = map_option pub (sh_heap sh a)" using that by (simp add: keeps_def same_pub_def)
    then show "map_option h_refs (sh_heap sh' a) = map_option h_refs (sh_heap sh a)"
      by (cases "sh_heap sh a"; cases "sh_heap sh' a") (auto dest: pub_eqD(6))
  qed
  show ?thesis
  proof (cases freed)
    case True
    then obtain sh' where r: "Shard_Release sh e erase = Some (freed, sh')" "shard_state sh' L (A - {e})"
        "keeps {e} (sh\<lparr>sh_calls := sh_calls sh @ delete_calls h\<rparr>) sh'" "sh_heap sh' e = None"
      using R by auto
    have "{e} \<inter> dom (sh_heap sh') = {}" using r(4) by auto
    then have "ledger sh' = ledger sh" by (intro ledger_keeps [OF r(3) state_finite [OF st] e]) (use h in simp)
    moreover have "h_refs h = 1" using True by (simp add: freed_def)
    ultimately show ?thesis using r others [OF r(3)] by auto
  next
    case False
    then obtain sh' h' L' where r: "Shard_Release sh e erase = Some (freed, sh')" "shard_state sh' L' A" "keeps {e} sh sh'"
        "sh_heap sh' e = Some h'" "h_refs h' = h_refs h - 1" "same_entry h h'"
      using R by (auto split: if_splits)
    have k: "keeps {e} (sh\<lparr>sh_calls := sh_calls sh @ []\<rparr>) sh'" using r(3) by simp
    have "{e} \<inter> dom (sh_heap sh') = {e}" using r(4) by auto
    then have "ledger sh' = ledger sh"
      by (intro ledger_keeps [OF k state_finite [OF st] e]) (use r(4,6) h same_entry_delete [of h h'] in simp)
    then show ?thesis using r others [OF k] by auto
  qed
qed

lemma mset_concat_map: "mset (concat (map f as)) = (\<Sum>a \<leftarrow> as. mset (f a))"
  by (induction as) simp_all

lemma Erase_ledger:
  assumes st: "shard_state sh L A" and all: "\<And>a h. sh_heap sh a = Some h \<Longrightarrow> a \<noteq> lru_head \<Longrightarrow> h_refs h = 0"
  shows "\<exists>sh'. EraseUnRefEntries sh = Some sh' \<and> shard_state sh' [] {} \<and> ledger sh' = ledger sh \<and> dom (sh_heap sh') = {lru_head}"
proof -
  obtain sh' where r: "EraseUnRefEntries sh = Some sh'" "shard_state sh' [] (A - set L)"
      "keeps (set L) (sh\<lparr>sh_calls := sh_calls sh @ deletions sh L\<rparr>) sh'" "\<forall>a \<in> set L. sh_heap sh' a = None"
    using EraseUnRefEntries_state [OF st] by blast
  have L: "a \<in> set L" if "sh_heap sh a \<noteq> None" "a \<noteq> lru_head" for a
    using that all shard_entry(2) [OF st] by (metis option.exhaust)
  have sub: "set L \<subseteq> dom (sh_heap sh) - {lru_head}"
    using st lru_linksD(2,4) [OF lru_okD(1) [OF invD(1)]] by (fastforce simp: shard_state_def)
  have nL: "lru_head \<notin> set L" using sub by auto
  have out: "sh_heap sh' a = None \<longleftrightarrow> sh_heap sh a = None" if "a \<notin> set L" for a
    using r(3) that unfolding keeps_def same_pub_def by (simp) (metis map_option_is_None)
  have hd: "sh_heap sh lru_head \<noteq> None" using st lru_head_alive by (auto simp: shard_state_def)
  have "sh_heap sh' a = None" if "a \<noteq> lru_head" for a using that out [of a] L [of a] r(4) by auto
  then have d: "dom (sh_heap sh') = {lru_head}" using out [OF nL] hd by fastforce
  have dis: "distinct L" by (rule state_lru_order(3) [OF st])
  have "mset (deletions sh L) = (\<Sum>a \<in> set L. mset (delete_calls (the (sh_heap sh a))))"
    using dis by (simp add: deletions_def mset_concat_map sum_list_distinct_conv_sum_set)
  moreover have "set L \<inter> dom (sh_heap sh') = {}" using d nL by auto
  ultimately have led: "ledger sh' = ledger sh" by (intro ledger_keeps [OF r(3) state_finite [OF st] sub]) simp
  have e: "A - set L = {}"
    using shard_table(1,2) [OF r(2)] table_holds_alive(2) d by (metis domIff equals0I singletonD)
  have "shard_state sh' [] {}" using r(2) unfolding e .
  then show ?thesis using r(1) d led by auto
qed

fun release_all :: "LRUCacheShard \<Rightarrow> addr list \<Rightarrow> LRUCacheShard option" where
  "release_all sh [] = Some sh"
| "release_all sh (e # es) = do { (_, sh) \<leftarrow> Shard_Release sh e False; release_all sh es }"

text \<open>One release for every reference.\<close>

definition releases :: "LRUCacheShard \<Rightarrow> addr list \<Rightarrow> bool" where
  "releases sh es \<longleftrightarrow> (\<forall>a. count_list es a =
     (if a = lru_head then 0 else case sh_heap sh a of None \<Rightarrow> 0 | Some h \<Rightarrow> unat (h_refs h)))"

lemma release_all_ledger:
  assumes "shard_state sh L A" and "releases sh es"
  shows "\<exists>sh' L' A'. release_all sh es = Some sh' \<and> shard_state sh' L' A' \<and> ledger sh' = ledger sh
    \<and> (\<forall>a h. sh_heap sh' a = Some h \<longrightarrow> a \<noteq> lru_head \<longrightarrow> h_refs h = 0)"
  using assms
proof (induction es arbitrary: sh L A)
  case Nil
  then have "h_refs h = 0" if "sh_heap sh a = Some h" "a \<noteq> lru_head" for a h
    using that spec [OF Nil(2) [unfolded releases_def], of a] by (simp add: unsigned_eq_0_iff)
  then show ?case using Nil(1) by auto
next
  case (Cons e es)
  note C = Cons.prems(2) [unfolded releases_def, rule_format]
  have e: "e \<noteq> lru_head" using C [of e] by auto
  obtain h where h: "sh_heap sh e = Some h" using C [of e] e by (cases "sh_heap sh e") auto
  have n: "unat (h_refs h) = Suc (count_list es e)" using C [of e] e h by simp
  then have r0: "h_refs h \<noteq> 0" by auto
  obtain b sh1 L1 A1 where r: "Shard_Release sh e False = Some (b, sh1)" "shard_state sh1 L1 A1" "ledger sh1 = ledger sh"
      "\<forall>a. a \<noteq> e \<longrightarrow> map_option h_refs (sh_heap sh1 a) = map_option h_refs (sh_heap sh a)"
      "case sh_heap sh1 e of None \<Rightarrow> h_refs h = 1 | Some h' \<Rightarrow> h_refs h' = h_refs h - 1"
    using Release_ledger [OF Cons.prems(1) h r0 e, of False] by blast
  have m: "unat (h_refs h - 1) = count_list es e" using n r0 unat_minus_one [of "h_refs h"] by simp
  have "count_list es a = (if a = lru_head then 0 else case sh_heap sh1 a of None \<Rightarrow> 0 | Some h \<Rightarrow> unat (h_refs h))" for a
  proof (cases "a = e")
    case True
    then show ?thesis using r(5) e m n by (cases "sh_heap sh1 e") auto
  next
    case False
    then have "map_option h_refs (sh_heap sh1 a) = map_option h_refs (sh_heap sh a)" using r(4) by simp
    then show ?thesis using C [of a] False by (cases "sh_heap sh1 a"; cases "sh_heap sh a") auto
  qed
  then have "releases sh1 es" by (simp add: releases_def)
  from Cons.IH [OF r(2) this] show ?case using r(1,3) by auto
qed

section \<open>The shard as a map\<close>

definition shard_map :: "LRUCacheShard \<Rightarrow> bytes \<times> u32 \<Rightarrow> ObjectPtr option" where
  "shard_map sh k = (case Table_Lookup (sh_table sh) (sh_heap sh) (fst k) (snd k) of
     None \<Rightarrow> None | Some e \<Rightarrow> map_option h_value (sh_heap sh e))"

definition entry_id :: "LRUCacheShard \<Rightarrow> addr \<Rightarrow> bytes \<times> u32" where
  "entry_id sh a = ident (sh_heap sh) a"

lemma shard_map_entry:
  assumes st: "shard_state sh L A" and e: "entry_of (sh_heap sh) A (fst k) (snd k) = e"
  shows "shard_map sh k = map_option h_value (sh_heap sh e)"
  using Table_Lookup_holds [OF shard_table(1) [OF st], of "fst k" "snd k"] e by (simp add: shard_map_def)

lemma shard_map_Some:
  assumes st: "shard_state sh L A"
  shows "shard_map sh k = Some v \<longleftrightarrow> (\<exists>a h. a \<in> A \<and> sh_heap sh a = Some h \<and> entry_id sh a = k \<and> h_value h = v)"
    and "inj_on (entry_id sh) A"
proof -
  note T = shard_table [OF st]
  obtain bs where bs: "table_of (sh_table sh) (sh_heap sh) bs" "set (concat bs) = A" using T(1) by (auto simp: table_holds_def)
  show inj: "inj_on (entry_id sh) A" using bs by (auto simp: table_of_def entry_id_def inj_on_def)
  obtain e where e: "entry_of (sh_heap sh) A (fst k) (snd k) = e" by simp
  note P = entry_of_props [OF T(1) e]
  have m: "shard_map sh k = map_option h_value (sh_heap sh e)" by (rule shard_map_entry [OF st e])
  show "shard_map sh k = Some v \<longleftrightarrow> (\<exists>a h. a \<in> A \<and> sh_heap sh a = Some h \<and> entry_id sh a = k \<and> h_value h = v)"
  proof (cases "e = nullptr")
    case True
    then show ?thesis using m T(3) P(1) by (auto simp: entry_id_def)
  next
    case False
    then have p: "e \<in> A" "entry_id sh e = k" "sh_heap sh e \<noteq> None" using P(2) by (auto simp: entry_id_def)
    then have "a \<in> A \<and> entry_id sh a = k \<longleftrightarrow> a = e" for a using inj by (auto simp: inj_on_def)
    then have "(\<exists>a h. a \<in> A \<and> sh_heap sh a = Some h \<and> entry_id sh a = k \<and> h_value h = v)
        \<longleftrightarrow> (\<exists>h. sh_heap sh e = Some h \<and> h_value h = v)" by metis
    then show ?thesis using m by auto
  qed
qed

lemma shard_map_eqI:
  assumes st: "shard_state sh L A" and eq: "\<And>k v. m k = Some v \<longleftrightarrow>
      (\<exists>a h. a \<in> A \<and> sh_heap sh a = Some h \<and> entry_id sh a = k \<and> h_value h = v)"
  shows "shard_map sh = m"
proof
  fix k
  show "shard_map sh k = m k"
    using shard_map_Some(1) [OF st, of k] eq [of k] by (metis option.exhaust)
qed

text \<open>What stays of an entry outside of the set that an operation touches.\<close>

lemma keeps_entry:
  assumes "keeps D (sh\<lparr>sh_calls := c\<rparr>) sh'" and "a \<notin> D"
  shows "(\<exists>h'. sh_heap sh' a = Some h' \<and> entry_id sh' a = k \<and> h_value h' = v)
    \<longleftrightarrow> (\<exists>h. sh_heap sh a = Some h \<and> entry_id sh a = k \<and> h_value h = v)"
proof -
  have "map_option pub (sh_heap sh' a) = map_option pub (sh_heap sh a)"
    using assms by (simp add: keeps_def same_pub_def)
  then show ?thesis
    by (cases "sh_heap sh a"; cases "sh_heap sh' a") (auto simp: entry_id_def ident_def dest: pub_eqD)
qed

lemma map_restrict:
  assumes st: "shard_state sh L A" and st': "shard_state sh' L' (A - E)" and k: "keeps D (sh\<lparr>sh_calls := c\<rparr>) sh'"
    and D: "D \<inter> A \<subseteq> E" "E \<subseteq> A"
  shows "shard_map sh' = shard_map sh |` (- entry_id sh ` E)"
proof (rule shard_map_eqI [OF st'])
  fix q v
  note inj = shard_map_Some(2) [OF st]
  have "(\<exists>h. sh_heap sh' a = Some h \<and> entry_id sh' a = q \<and> h_value h = v)
      \<longleftrightarrow> (\<exists>h. sh_heap sh a = Some h \<and> entry_id sh a = q \<and> h_value h = v)" if "a \<in> A - E" for a
    using keeps_entry [OF k, of a q v] that D by blast
  moreover have "entry_id sh a \<in> entry_id sh ` E \<longleftrightarrow> a \<in> E" if "a \<in> A" for a
    using inj that D(2) by (auto simp: inj_on_def)
  ultimately show "(shard_map sh |` (- entry_id sh ` E)) q = Some v
      \<longleftrightarrow> (\<exists>a h. a \<in> A - E \<and> sh_heap sh' a = Some h \<and> entry_id sh' a = q \<and> h_value h = v)"
    using shard_map_Some(1) [OF st, of q v] by (auto simp: restrict_map_def) blast+
qed

lemma map_insert:
  assumes st: "shard_state sh L A" and st': "shard_state sh' L' (insert e (A - E - {old}))"
    and k: "keeps ({e, old} \<union> E) (sh\<lparr>sh_calls := c\<rparr>) sh'" and E: "E \<subseteq> A" "e \<notin> A" "old \<notin> E"
    and old: "old = entry_of (sh_heap sh) (A - E) key hash" and e: "sh_heap sh' e = Some h" "entry_id sh' e = (key, hash)"
  shows "shard_map sh' = (shard_map sh |` (- entry_id sh ` E))((key, hash) \<mapsto> h_value h)"
proof (rule shard_map_eqI [OF st'])
  fix q v
  note inj = shard_map_Some(2) [OF st]
  have inj': "inj_on (ident (sh_heap sh)) (A - E)" using inj by (auto simp: entry_id_def inj_on_def)
  have o: "a = old" if "a \<in> A - E" "entry_id sh a = (key, hash)" for a
    using entry_of_eqI [OF inj' that(1), of key hash] that(2) old by (simp add: entry_id_def)
  have ol: "entry_id sh old = (key, hash)" if "old \<in> A"
  proof -
    have "\<exists>a \<in> A - E. ident (sh_heap sh) a = (key, hash)"
      using that old shard_table [OF st] table_holds_alive(1) by (auto simp: entry_of_def split: if_splits)
    then show ?thesis using o by (auto simp: entry_id_def)
  qed
  have same: "(\<exists>h. sh_heap sh' a = Some h \<and> entry_id sh' a = q \<and> h_value h = v)
      \<longleftrightarrow> (\<exists>h. sh_heap sh a = Some h \<and> entry_id sh a = q \<and> h_value h = v)" if "a \<in> A - E - {old}" for a
    using keeps_entry [OF k, of a q v] that E by blast
  have im: "entry_id sh a \<in> entry_id sh ` E \<longleftrightarrow> a \<in> E" if "a \<in> A" for a
    using inj that E(1) by (auto simp: inj_on_def)
  have "(\<exists>a h. a \<in> insert e (A - E - {old}) \<and> sh_heap sh' a = Some h \<and> entry_id sh' a = q \<and> h_value h = v)
      \<longleftrightarrow> (q = (key, hash) \<and> v = h_value h) \<or> (\<exists>a h. a \<in> A - E - {old} \<and> sh_heap sh a = Some h \<and> entry_id sh a = q \<and> h_value h = v)"
    using same e by (auto 4 3)
  also have "\<dots> \<longleftrightarrow> ((shard_map sh |` (- entry_id sh ` E))((key, hash) \<mapsto> h_value h)) q = Some v"
  proof (cases "q = (key, hash)")
    case True
    then show ?thesis using o by auto
  next
    case False
    have "(\<exists>a h. a \<in> A - E - {old} \<and> sh_heap sh a = Some h \<and> entry_id sh a = q \<and> h_value h = v)
        \<longleftrightarrow> q \<notin> entry_id sh ` E \<and> shard_map sh q = Some v"
      unfolding shard_map_Some(1) [OF st] using im ol False by blast
    then show ?thesis using False by (auto simp: restrict_map_def)
  qed
  finally show "((shard_map sh |` (- entry_id sh ` E))((key, hash) \<mapsto> h_value h)) q = Some v \<longleftrightarrow>
    (\<exists>a h. a \<in> insert e (A - E - {old}) \<and> sh_heap sh' a = Some h \<and> entry_id sh' a = q \<and> h_value h = v)" by blast
qed

lemma Lookup_map:
  assumes st: "shard_state sh L A" and ok: "client_ok sh (OpLookup key hash)"
  shows "\<exists>e sh'. Shard_Lookup sh key hash = Some (e, sh') \<and> shard_map sh' = shard_map sh
    \<and> (e = nullptr \<longleftrightarrow> shard_map sh (key, hash) = None)
    \<and> map_option h_value (sh_heap sh' e) = shard_map sh (key, hash)"
proof -
  obtain e where e: "entry_of (sh_heap sh) A key hash = e" by simp
  note T = shard_table [OF st]
  have m: "shard_map sh (key, hash) = map_option h_value (sh_heap sh e)" using shard_map_entry [OF st, of "(key, hash)"] e by simp
  have "Table_Lookup (sh_table sh) (sh_heap sh) key hash = Some e" using Table_Lookup_holds [OF T(1)] e by simp
  then have r: "\<And>h. sh_heap sh e = Some h \<Longrightarrow> can_ref h" using ok by (simp add: may_ref_def)
  show ?thesis
  proof (cases "e = nullptr")
    case True
    with Lookup_state(1) [OF st e r] m T(3) show ?thesis by auto
  next
    case False
    then obtain sh' h h' where l: "Shard_Lookup sh key hash = Some (e, sh')" "shard_state sh' (removeAll e L) A" "keeps {e} sh sh'"
        "sh_heap sh e = Some h" "sh_heap sh' e = Some h'" "same_entry h h'"
      using Lookup_state(2) [OF st e r] by blast
    have k: "keeps {e} (sh\<lparr>sh_calls := sh_calls sh\<rparr>) sh'" using l(3) by simp
    have id: "entry_id sh' e = entry_id sh e" "h_value h' = h_value h"
      using l(4-6) by (simp_all add: entry_id_def ident_def same_entry_def)
    have "(\<exists>h. sh_heap sh' a = Some h \<and> entry_id sh' a = q \<and> h_value h = v)
        \<longleftrightarrow> (\<exists>h. sh_heap sh a = Some h \<and> entry_id sh a = q \<and> h_value h = v)" for a q v
      using keeps_entry [OF k, of a q v] id l(4,5) by (cases "a = e") auto
    then have "shard_map sh' = shard_map sh"
      by (intro shard_map_eqI [OF l(2)]) (simp add: shard_map_Some(1) [OF st])
    then show ?thesis using l(1,4,5) m id(2) False by auto
  qed
qed

lemma Erase_map:
  assumes st: "shard_state sh L A"
  shows "\<exists>sh'. Shard_Erase sh key hash = Some sh' \<and> shard_map sh' = (shard_map sh)((key, hash) := None)"
proof -
  obtain e where e: "entry_of (sh_heap sh) A key hash = e" by simp
  note T = shard_table [OF st]
  obtain sh' c where r: "Shard_Erase sh key hash = Some sh'" "shard_state sh' (removeAll e L) (A - {e})"
      "keeps {e} (sh\<lparr>sh_calls := sh_calls sh @ c\<rparr>) sh'"
    using Erase_state [OF st e] by blast
  have "A - {e} = A - ({e} \<inter> A)" by auto
  with r(2) have "shard_state sh' (removeAll e L) (A - ({e} \<inter> A))" by simp
  from map_restrict [OF st this r(3)] have m: "shard_map sh' = shard_map sh |` (- entry_id sh ` ({e} \<inter> A))" by simp
  have "shard_map sh |` (- entry_id sh ` ({e} \<inter> A)) = (shard_map sh)((key, hash) := None)"
  proof (cases "e = nullptr")
    case True
    then have "shard_map sh (key, hash) = None" using shard_map_entry [OF st, of "(key, hash)"] e T(3) by simp
    moreover have "{e} \<inter> A = {}" using True table_holds_alive(1) [OF T(1)] by blast
    ultimately show ?thesis by (auto simp: fun_eq_iff restrict_map_def)
  next
    case False
    then have "e \<in> A" "entry_id sh e = (key, hash)" using entry_of_props(2) [OF T(1) e] by (auto simp: entry_id_def)
    then show ?thesis by (auto simp: fun_eq_iff restrict_map_def)
  qed
  then show ?thesis using r(1) m by simp
qed

section \<open>Eviction\<close>

text \<open>The victims are a prefix of the LRU list; every shorter prefix leaves too much, and they make room unless nothing is left.\<close>

lemma lru_victims_spec:
  "\<exists>rest. as = lru_victims f cap n as @ rest \<and> (rest \<noteq> [] \<longrightarrow> n - sum_list (map f (lru_victims f cap n as)) \<le> cap)
    \<and> (\<forall>us x vs. lru_victims f cap n as = us @ x # vs \<longrightarrow> cap < n - sum_list (map f us))"
proof (induction as arbitrary: n)
  case (Cons a as)
  show ?case
  proof (cases "cap < n")
    case True
    obtain rest where r: "as = lru_victims f cap (n - f a) as @ rest"
        "rest \<noteq> [] \<longrightarrow> n - f a - sum_list (map f (lru_victims f cap (n - f a) as)) \<le> cap"
        "\<forall>us x vs. lru_victims f cap (n - f a) as = us @ x # vs \<longrightarrow> cap < n - f a - sum_list (map f us)"
      using Cons.IH [of "n - f a"] by blast
    have "cap < n - sum_list (map f us)" if "a # lru_victims f cap (n - f a) as = us @ x # vs" for us x vs
      using that r(3) True by (cases us) auto
    then show ?thesis using True r(1,2) by auto
  qed simp
qed simp

lemma charges_le_usage:
  assumes "shard_state sh L A"
  shows "charges (sh_heap sh) L \<le> unat (sh_usage sh)"
proof -
  obtain bt low hi where "shard_inv sh {} 0 bt low hi A" "L = bt @ low @ hi" using assms by (auto simp: shard_state_def)
  then show ?thesis using lru_charges_le by fastforce
qed

lemma victims_spec:
  assumes st: "shard_state sh L A"
  shows "\<exists>R. L = victims sh L c @ R \<and> (R \<noteq> [] \<longrightarrow> charge_fits sh L c)
    \<and> (\<forall>us x vs. victims sh L c = us @ x # vs \<longrightarrow>
        unat (sh_capacity sh) < unat (sh_usage sh) - charges (sh_heap sh) us + unat c)"
proof -
  let ?V = "victims sh L c"
  obtain R where r: "L = ?V @ R" "R \<noteq> [] \<longrightarrow> unat (sh_usage sh) + unat c - charges (sh_heap sh) ?V \<le> unat (sh_capacity sh)"
      "\<forall>us x vs. ?V = us @ x # vs \<longrightarrow> unat (sh_capacity sh) < unat (sh_usage sh) + unat c - charges (sh_heap sh) us"
    using lru_victims_spec [of L "the_charge sh" "unat (sh_capacity sh)" "unat (sh_usage sh) + unat c"]
    unfolding victims_def charges_def by blast
  have le: "charges (sh_heap sh) us \<le> unat (sh_usage sh)" if "L = us @ vs" for us vs
    using charges_le_usage [OF st] unfolding that by (simp add: charges_def)
  have "unat (sh_capacity sh) < unat (sh_usage sh) - charges (sh_heap sh) us + unat c" if "?V = us @ x # vs" for us x vs
    using r(3) that le [of us "x # vs @ R"] r(1) by fastforce
  then show ?thesis using r(1,2) le [OF r(1)] by (intro exI [of _ R]) (auto simp: charge_fits_def)
qed

definition insert_accepted :: "LRUCacheShard \<Rightarrow> addr list \<Rightarrow> u64 \<Rightarrow> bool \<Rightarrow> bool" where
  "insert_accepted sh L c want_handle \<longleftrightarrow> charge_fits sh L c \<or> \<not> sh_strict_capacity_limit sh \<and> want_handle"

lemma state_L:
  assumes st: "shard_state sh L A" and a: "a \<in> set L"
  shows "a \<in> A" and "a \<noteq> lru_head" and "\<exists>h. sh_heap sh a = Some h \<and> h_refs h = 0" and "\<not> held sh a"
proof -
  obtain bt low hi where i: "shard_inv sh {} 0 bt low hi A" "L = bt @ low @ hi" using st by (auto simp: shard_state_def)
  note D = lru_linksD [OF lru_okD(1) [OF invD(1) [OF i(1)]], folded i(2)]
  show n: "a \<noteq> lru_head" using D(2) a by auto
  obtain h where h: "sh_heap sh a = Some h" using D(4) [of a] a by auto
  then show "\<exists>h. sh_heap sh a = Some h \<and> h_refs h = 0" "a \<in> A" "\<not> held sh a"
    using shard_entry(2,3) [OF st h n] a by (auto simp: held_def)
qed

lemma map_old:
  assumes st: "shard_state sh L A" and E: "E \<subseteq> A" and old: "old = entry_of (sh_heap sh) (A - E) key hash"
  shows "old = nullptr \<longleftrightarrow> (shard_map sh |` (- entry_id sh ` E)) (key, hash) = None" and "old \<noteq> nullptr \<Longrightarrow> old \<in> A - E"
proof -
  note T = shard_table [OF st]
  note inj = shard_map_Some(2) [OF st]
  have inj': "inj_on (ident (sh_heap sh)) (A - E)" using inj by (auto simp: entry_id_def inj_on_def)
  have im: "entry_id sh a \<in> entry_id sh ` E \<longleftrightarrow> a \<in> E" if "a \<in> A" for a
    using inj that E by (auto simp: inj_on_def)
  have f: "old = a \<and> a \<noteq> nullptr \<and> (\<exists>h. sh_heap sh a = Some h)" if "a \<in> A - E" "entry_id sh a = (key, hash)" for a
    using entry_of_eqI [OF inj' that(1), of key hash] that old table_holds_alive [OF T(1), of a] by (auto simp: entry_id_def)
  have g: "\<exists>a \<in> A - E. entry_id sh a = (key, hash)" if "old \<noteq> nullptr"
    using that old by (auto simp: entry_of_def entry_id_def split: if_splits)
  show "old \<in> A - E" if nz: "old \<noteq> nullptr"
  proof -
    obtain a where "a \<in> A - E" "entry_id sh a = (key, hash)" using g [OF nz] by blast
    then show ?thesis using f [of a] by simp
  qed
  have "(\<exists>a h. a \<in> A - E \<and> sh_heap sh a = Some h \<and> entry_id sh a = (key, hash) \<and> h_value h = v)
      \<longleftrightarrow> (key, hash) \<notin> entry_id sh ` E \<and> shard_map sh (key, hash) = Some v" for v
    unfolding shard_map_Some(1) [OF st] using im by (metis DiffE DiffI image_eqI)
  then have "(shard_map sh |` (- entry_id sh ` E)) (key, hash) = Some v
      \<longleftrightarrow> (\<exists>a h. a \<in> A - E \<and> sh_heap sh a = Some h \<and> entry_id sh a = (key, hash) \<and> h_value h = v)" for v
    by (simp add: restrict_map_def)
  then have "(shard_map sh |` (- entry_id sh ` E)) (key, hash) \<noteq> None \<longleftrightarrow> (\<exists>a \<in> A - E. entry_id sh a = (key, hash))"
    using f by (metis not_Some_eq)
  then show "old = nullptr \<longleftrightarrow> (shard_map sh |` (- entry_id sh ` E)) (key, hash) = None"
    using f g by metis
qed

lemma Insert_policy:
  assumes st: "shard_state sh L A" and ok: "client_ok sh (OpInsert e key hash val helper charge want_handle priority)"
    and c: "c = entry_charge sh key charge" and ds: "ds = victims sh L c"
  shows "\<exists>s e' sh'. Shard_Insert sh e key hash val helper charge want_handle priority = Some (s, e', sh')
    \<and> shard_map sh' = (if insert_accepted sh L c want_handle then (shard_map sh |` (- entry_id sh ` set ds))((key, hash) \<mapsto> val)
         else shard_map sh |` (- entry_id sh ` set ds))
    \<and> (\<exists>cs. sh_calls sh' = sh_calls sh @ evictions sh ds @ cs) \<and> (\<forall>a \<in> set ds. sh_heap sh' a = None)
    \<and> (\<forall>a h. sh_heap sh a = Some h \<longrightarrow> held sh a \<longrightarrow>
        (\<exists>h'. sh_heap sh' a = Some h' \<and> h_refs h' = h_refs h \<and> same_entry h h'))
    \<and> unat (sh_usage sh') \<le> unat (sh_usage sh) - charges (sh_heap sh) ds + (if insert_accepted sh L c want_handle then unat c else 0)
    \<and> s = (if insert_accepted sh L c want_handle then if (shard_map sh |` (- entry_id sh ` set ds)) (key, hash) = None then Status_OK else Status_OkOverwritten
       else if want_handle then Status_MemoryLimit_msg ''Insert failed due to LRU cache being full.'' else Status_OK)
    \<and> e' = (if insert_accepted sh L c want_handle \<and> want_handle then e else nullptr)"
proof -
  have fr: "fresh_entry sh e key val helper" and room: "unat (sh_usage sh) + unat (entry_charge sh key charge) < 2 ^ 64"
    and el: "tb_elems (sh_table sh) \<noteq> - 1" using ok by (simp_all add: may_allocate_def)
  have card: "card A < 2 ^ 32 - 1" by (rule state_card [OF st el])
  obtain R where R: "L = ds @ R" "R \<noteq> [] \<longrightarrow> charge_fits sh L c" using victims_spec [OF st, of c] ds by blast
  have dA: "set ds \<subseteq> A" "set L \<subseteq> A" using state_L(1) [OF st] R(1) by auto
  have pin: "a \<notin> set L" if "held sh a" for a using state_L(4) [OF st] that by blast
  have dl: "charges (sh_heap sh) ds \<le> unat (sh_usage sh)" using charges_le_usage [OF st] R(1) by (simp add: charges_def)
  have fe: "sh_heap sh e = None" "e \<noteq> nullptr" using fr by (simp_all add: fresh_entry_def)
  show ?thesis
  proof (cases "insert_accepted sh L c want_handle")
    case True
    define old where "old = entry_of (sh_heap sh) (A - set ds) key hash"
    define h where "h = insert_handle sh key hash val helper charge priority"
    have eA: "e \<notin> A" using fe(1) table_holds_alive(2) [OF shard_table(1) [OF st]] by blast
    note mo = map_old [OF st dA(1) old_def]
    have on: "old \<notin> set ds"
      using mo(2) state_L(3) [OF st] shard_table(3) [OF st] R(1) by (cases "old = nullptr") force+
    obtain sh' L' h' where r: "Shard_Insert sh e key hash val helper charge want_handle priority
          = Some (if old = nullptr then Status_OK else Status_OkOverwritten, if want_handle then e else nullptr, sh')"
        "shard_state sh' L' (insert e (A - set ds - {old}))"
        "keeps ({e, old} \<union> set ds) (sh\<lparr>sh_calls := sh_calls sh @ evictions sh (ds @ replaced sh old)\<rparr>) sh'"
        "sh_heap sh' e = Some h'" "same_entry h h'" "\<forall>a \<in> set (ds @ replaced sh old). sh_heap sh' a = None"
        "\<forall>ho. sh_heap sh old = Some ho \<longrightarrow> h_refs ho \<noteq> 0 \<longrightarrow>
          (\<exists>ho'. sh_heap sh' old = Some ho' \<and> h_refs ho' = h_refs ho \<and> same_entry ho ho')"
        "unat (sh_usage sh') + charges (sh_heap sh) ds \<le> unat (sh_usage sh) + unat (entry_charge sh key charge)"
      using Insert_ok [OF st fr room card _ h_def _ old_def] True ds unfolding insert_accepted_def c by blast
    have hk: "h_value h' = val" "entry_id sh' e = (key, hash)"
      using r(4,5) insert_handle_fields [OF _ h_def] fr by (simp_all add: fresh_entry_def same_entry_def entry_id_def ident_def)
    have m: "shard_map sh' = (shard_map sh |` (- entry_id sh ` set ds))((key, hash) \<mapsto> val)"
      using map_insert [OF st r(2,3) dA(1) eA on old_def r(4) hk(2)] hk(1) by simp
    have "\<exists>h'. sh_heap sh' a = Some h' \<and> h_refs h' = h_refs h0 \<and> same_entry h0 h'"
      if a: "sh_heap sh a = Some h0" "held sh a" for a h0
    proof (cases "a = old")
      case True
      then show ?thesis using r(7) a by (auto simp: held_def)
    next
      case False
      then have "a \<notin> {e, old} \<union> set ds" using pin [OF a(2)] R(1) a(1) fe(1) by auto
      from keeps_Some [OF r(3) _ this] a(1) obtain h1 where "sh_heap sh' a = Some h1" "pub h1 = pub h0" by auto
      then show ?thesis using pub_eqD(6) same_entry_pub by blast
    qed
    moreover have "sh_calls sh' = sh_calls sh @ evictions sh ds @ evictions sh (replaced sh old)"
      using keeps_settings(3) [OF r(3)] by (simp add: evictions_def)
    moreover have "unat (sh_usage sh') \<le> unat (sh_usage sh) - charges (sh_heap sh) ds + unat c" using r(8) dl c by simp
    ultimately show ?thesis using r(1,6) m mo(1) True
      by - (rule exI [of _ "if old = nullptr then Status_OK else Status_OkOverwritten"],
          rule exI [of _ "if want_handle then e else nullptr"], rule exI [of _ sh'], simp)
  next
    case False
    then have nf: "\<not> charge_fits sh L (entry_charge sh key charge)" "sh_strict_capacity_limit sh \<or> \<not> want_handle"
      unfolding insert_accepted_def c by auto
    then have L: "L = ds" using R c by auto
    define h where "h = insert_handle sh key hash val helper charge priority"
    obtain sh' where r: "Shard_Insert sh e key hash val helper charge want_handle priority
          = Some (if want_handle then Status_MemoryLimit_msg ''Insert failed due to LRU cache being full.'' else Status_OK, nullptr, sh')"
        "shard_state sh' [] (A - set L)"
        "keeps (set L) (sh\<lparr>sh_calls := sh_calls sh @ evictions sh L
          @ (if want_handle then [] else evict_calls (sh_eviction_callback sh) h)\<rparr>) sh'"
        "\<forall>a \<in> insert e (set L). sh_heap sh' a = None" "unat (sh_usage sh') + charges (sh_heap sh) L = unat (sh_usage sh)"
      using Insert_full [OF st fr room nf h_def] by blast
    have m: "shard_map sh' = shard_map sh |` (- entry_id sh ` set ds)"
      using map_restrict [OF st r(2,3)] dA L by blast
    have "\<exists>h'. sh_heap sh' a = Some h' \<and> h_refs h' = h_refs h0 \<and> same_entry h0 h'"
      if a: "sh_heap sh a = Some h0" "held sh a" for a h0
    proof -
      from keeps_Some [OF r(3) _ pin [OF a(2)]] a(1) obtain h1 where "sh_heap sh' a = Some h1" "pub h1 = pub h0" by auto
      then show ?thesis using pub_eqD(6) same_entry_pub by blast
    qed
    moreover have "\<exists>cs. sh_calls sh' = sh_calls sh @ evictions sh ds @ cs"
      using keeps_settings(3) [OF r(3)] L by simp
    moreover have "unat (sh_usage sh') \<le> unat (sh_usage sh) - charges (sh_heap sh) ds" using r(5) L by simp
    ultimately show ?thesis using r(1,4) m False L
      by - (rule exI [of _ "if want_handle then Status_MemoryLimit_msg ''Insert failed due to LRU cache being full.'' else Status_OK"],
          rule exI [of _ nullptr], rule exI [of _ sh'], simp)
  qed
qed

section \<open>Properties\<close>

text \<open>A shard of capacity 100 with one entry of charge 60, held or on the LRU list.\<close>

definition demo_helper :: CacheItemHelper where
  "demo_helper = \<lparr>ch_del_cb = True, ch_size_cb = False\<rparr>"

definition demo_head :: LRUHandle where
  "demo_head = \<lparr>h_value = nullptr, h_helper = demo_helper, h_next_hash = nullptr, h_next = nullptr, h_prev = nullptr,
     h_total_charge = 0, h_key_length = 0, h_hash = 0, h_refs = 0, h_m_flags = 0, h_im_flags = 0, h_key_data = []\<rparr>"

definition demo_new :: "LRUCacheShard option" where
  "demo_new = LRUCacheShard_new 100 True double_zero double_zero kDontChargeCacheMetadata 32 None demo_head"

definition demo_op :: "bool \<Rightarrow> ShardOp" where
  "demo_op want = OpInsert 5 [1] 7 9 demo_helper 60 want LOW"

definition demo :: "bool \<Rightarrow> LRUCacheShard option" where
  "demo want = do { sh \<leftarrow> demo_new; run_op sh (demo_op want) }"

lemma demo_new_reachable:
  obtains sh where "demo_new = Some sh" and "shard_reachable sh" and "shard_state sh [] {}" and "client_ok sh (demo_op want)"
    and "sh_heap sh = [lru_head \<mapsto> demo_head\<lparr>h_next := lru_head, h_prev := lru_head\<rparr>]"
    and "sh_usage sh = 0" and "sh_capacity sh = 100" and "sh_metadata_charge_policy sh = kDontChargeCacheMetadata"
proof -
  let ?sh = "with_capacity \<lparr>sh_metadata_charge_policy = kDontChargeCacheMetadata, sh_capacity = 0, sh_high_pri_pool_usage = 0,
        sh_low_pri_pool_usage = 0, sh_strict_capacity_limit = True,
        sh_high_pri_pool_ratio = double_zero, sh_high_pri_pool_capacity = double_zero,
        sh_low_pri_pool_ratio = double_zero, sh_low_pri_pool_capacity = double_zero,
        sh_lru_low_pri = lru_head, sh_lru_bottom_pri = lru_head,
        sh_table = LRUHandleTable_new 32, sh_usage = 0, sh_lru_usage = 0,
        sh_eviction_callback = None, sh_heap = [lru_head \<mapsto> demo_head\<lparr>h_next := lru_head, h_prev := lru_head\<rparr>],
        sh_calls = []\<rparr> 100"
  have eq: "demo_new = Some ?sh"
    by (simp add: demo_new_def LRUCacheShard_new_def Shard_SetCapacity_def) (subst EvictFromLRU.simps, simp)
  have "shard_reachable ?sh" by (rule shard_reachable.new [OF _ _ eq [unfolded demo_new_def]]) simp_all
  moreover have "shard_state ?sh [] {}"
    using LRUCacheShard_new_state [of double_zero double_zero 100 True kDontChargeCacheMetadata 32 None demo_head] eq
    by (auto simp: demo_new_def)
  moreover have "client_ok ?sh (demo_op want)"
    by (simp add: demo_op_def may_allocate_def fresh_entry_def entry_charge_def demo_helper_def IsSecondaryCacheCompatible_def
        LRUHandleTable_new_def lru_head_def)
  ultimately show ?thesis using that [OF eq] by simp
qed

lemma demo_reachable:
  obtains sh where "demo want = Some sh" and "shard_reachable sh" and "\<And>a. sh_heap sh a \<noteq> None \<Longrightarrow> a = lru_head \<or> a = 5"
proof -
  obtain sh0 where n: "demo_new = Some sh0" "shard_reachable sh0" "shard_state sh0 [] {}" "client_ok sh0 (demo_op want)"
      "sh_heap sh0 = [lru_head \<mapsto> demo_head\<lparr>h_next := lru_head, h_prev := lru_head\<rparr>]"
      "sh_usage sh0 = 0" "sh_capacity sh0 = 100" "sh_metadata_charge_policy sh0 = kDontChargeCacheMetadata"
    using demo_new_reachable by blast
  obtain sh where r: "run_op sh0 (demo_op want) = Some sh" using run_op_state [OF n(3,4)] by blast
  have rc: "shard_reachable sh" using shard_reachable.step [OF n(2,4) r] .
  have dm: "a = lru_head \<or> a = 5" if a: "sh_heap sh a \<noteq> None" for a
  proof -
    have c: "entry_charge sh0 [1] 60 = 60" using n(8) by (simp add: entry_charge_def)
    have v: "victims sh0 [] 60 = []" by (simp add: victims_def)
    have fr: "fresh_entry sh0 5 [1] 9 demo_helper" and el: "tb_elems (sh_table sh0) \<noteq> - 1"
      using n(4) by (simp_all add: demo_op_def may_allocate_def)
    have fit: "charge_fits sh0 [] (entry_charge sh0 [1] 60)" using n(6,7) c v by (simp add: charge_fits_def charges_def)
    have room: "unat (sh_usage sh0) + unat (entry_charge sh0 [1] 60) < 2 ^ 64" using n(6) c by simp
    have old: "nullptr = entry_of (sh_heap sh0) ({} - set (victims sh0 [] (entry_charge sh0 [1] 60))) [1] 7"
      by (simp add: entry_of_def)
    obtain s e' sh' cs where i: "Shard_Insert sh0 5 [1] 7 9 demo_helper 60 want LOW = Some (s, e', sh')"
        "keeps ({5, nullptr} \<union> set (victims sh0 [] (entry_charge sh0 [1] 60))) (sh0\<lparr>sh_calls := cs\<rparr>) sh'" "sh_heap sh' nullptr = None"
      using Insert_ok [OF n(3) fr room _ disjI1 [OF fit] refl refl old, of want LOW] shard_table(3) by fastforce
    have "sh = sh'" using r i(1) by (simp add: demo_op_def)
    then show ?thesis
    proof (cases "a = 5 \<or> a = nullptr")
      case False
      then have "map_option pub (sh_heap sh a) = map_option pub (sh_heap sh0 a)"
        using i(2) \<open>sh = sh'\<close> c v by (simp add: keeps_def same_pub_def)
      then show ?thesis using a n(5) by (auto split: if_splits)
    qed (use a i(3) \<open>sh = sh'\<close> in auto)
  qed
  have "demo want = Some sh" unfolding demo_def n(1) using r by simp
  then show ?thesis using that rc dm by blast
qed

text \<open>
  C3. In every shard reachable by the public operations, whatever the order, an operation whose caller
  keeps the rules of the interface (references only through handles that are held, fresh memory blocks,
  sizes within their types) returns: no assertion fails, no freed entry is accessed, no loop runs on.
  Afterwards every entry in memory is in one of the three documented states: on the LRU list exactly
  when nobody references it, marked as in the cache exactly when a lookup of its key and hash finds it,
  and in the cache when it is not referenced. The usage is the sum of the charges of the entries, the
  pinned usage that of the referenced ones, and a shard above its capacity has no entry to evict.
\<close>

theorem reachable_shard_sound:
  assumes "shard_reachable sh" and "client_ok sh op"
  shows "\<exists>sh' L. run_op sh op = Some sh' \<and> shard_reachable sh' \<and> lru_order sh' = Some L
    \<and> distinct L \<and> TEST_GetLRUSize sh' = Some (of_nat (length L))
    \<and> (\<forall>a h. sh_heap sh' a = Some h \<and> a \<noteq> lru_head \<longrightarrow> (h_refs h = 0 \<longleftrightarrow> a \<in> set L)
        \<and> (InCache h \<longleftrightarrow> Table_Lookup (sh_table sh') (sh_heap sh') (handle_key h) (h_hash h) = Some a)
        \<and> (h_refs h = 0 \<longrightarrow> InCache h))
    \<and> unat (Shard_GetUsage sh') = (\<Sum>a \<in> dom (sh_heap sh') - {lru_head}. charge_of (sh_heap sh') a)
    \<and> (\<exists>w. Shard_GetPinnedUsage sh' = Some w \<and> unat w = (\<Sum>a \<in> {a. held sh' a}. charge_of (sh_heap sh') a))
    \<and> (sh_capacity sh' < Shard_GetUsage sh' \<longrightarrow> L = [])"
proof -
  obtain L0 A0 where "shard_state sh L0 A0" using assms(1) by (rule reachable_state)
  from run_op_state [OF this assms(2)] obtain sh' L A where r: "run_op sh op = Some sh'" "shard_state sh' L A" by blast
  have "(h_refs h = 0 \<longleftrightarrow> a \<in> set L) \<and> (InCache h \<longleftrightarrow> Table_Lookup (sh_table sh') (sh_heap sh') (handle_key h) (h_hash h) = Some a)
      \<and> (h_refs h = 0 \<longrightarrow> InCache h)" if "sh_heap sh' a = Some h" "a \<noteq> lru_head" for a h
    using shard_entry(1-3) [OF r(2) that] state_lookup [OF r(2) that(1)] by blast
  moreover have "sh_capacity sh' < Shard_GetUsage sh' \<longrightarrow> L = []" using r(2) by (simp add: shard_state_def Shard_GetUsage_def)
  ultimately show ?thesis
    using r(1) shard_reachable.step [OF assms r(1)] state_lru_order [OF r(2)] state_usage [OF r(2)]
    by (intro exI [of _ sh'] exI [of _ L]) auto
qed

theorem reachable_shard_sound_witness:
  "\<exists>sh sh' L. demo False = Some sh \<and> run_op sh (OpLookup [1] 7) = Some sh' \<and> lru_order sh' = Some L
    \<and> TEST_GetLRUSize sh' = Some (of_nat (length L))"
proof -
  obtain sh where d: "demo False = Some sh" "shard_reachable sh" using demo_reachable by blast
  have "map_option (\<lambda>sh. client_ok sh (OpLookup [1] 7)) (demo False) = Some True" by code_simp
  then have "client_ok sh (OpLookup [1] 7)" using d(1) by simp
  from reachable_shard_sound [OF d(2) this] show ?thesis using d(1) by blast
qed

text \<open>
  C4. Nothing is leaked: from every reachable shard, when the holders release each of their references
  and the unreferenced entries are then erased, every call returns, no entry remains in memory, the
  usage and the number of entries are zero, and the deleter of every entry that was in memory has been
  called exactly once.
\<close>

theorem released_entries_are_freed:
  assumes "shard_reachable sh" and "releases sh es"
  shows "\<exists>sh1 sh2. release_all sh es = Some sh1 \<and> EraseUnRefEntries sh1 = Some sh2 \<and> dom (sh_heap sh2) = {lru_head}
    \<and> Shard_GetUsage sh2 = 0 \<and> Shard_GetOccupancyCount sh2 = 0
    \<and> mset (sh_calls sh2) = mset (sh_calls sh)
        + (\<Sum>a \<in> dom (sh_heap sh) - {lru_head}. mset (delete_calls (the (sh_heap sh a))))"
proof -
  obtain L A where "shard_state sh L A" using assms(1) by (rule reachable_state)
  from release_all_ledger [OF this assms(2)] obtain sh1 L1 A1 where r: "release_all sh es = Some sh1" "shard_state sh1 L1 A1"
      "ledger sh1 = ledger sh" "\<forall>a h. sh_heap sh1 a = Some h \<longrightarrow> a \<noteq> lru_head \<longrightarrow> h_refs h = 0" by blast
  obtain sh2 where e: "EraseUnRefEntries sh1 = Some sh2" "shard_state sh2 [] {}" "ledger sh2 = ledger sh1"
      "dom (sh_heap sh2) = {lru_head}"
    using Erase_ledger [OF r(2)] r(4) by blast
  have "unat (Shard_GetUsage sh2) = 0" using state_usage(1) [OF e(2)] e(4) by simp
  moreover have "Shard_GetOccupancyCount sh2 = 0"
    using state_elems(1) [OF e(2)] by (simp add: Shard_GetOccupancyCount_def unsigned_eq_0_iff)
  moreover have "mset (sh_calls sh2) = ledger sh2" using e(4) by (simp add: ledger_def)
  ultimately show ?thesis using r(1,3) e(1,3,4) by (auto simp: ledger_def unsigned_eq_0_iff)
qed

theorem released_entries_are_freed_witness:
  "\<exists>sh sh1 sh2. demo True = Some sh \<and> release_all sh [5] = Some sh1 \<and> EraseUnRefEntries sh1 = Some sh2
    \<and> dom (sh_heap sh2) = {lru_head}"
proof -
  obtain sh where d: "demo True = Some sh" "shard_reachable sh" "\<And>a. sh_heap sh a \<noteq> None \<Longrightarrow> a = lru_head \<or> a = 5"
    using demo_reachable by blast
  have "map_option (\<lambda>sh. map_option h_refs (sh_heap sh 5)) (demo True) = Some (Some 1)" by code_simp
  then obtain h where "sh_heap sh 5 = Some h" "h_refs h = 1" using d(1) by auto
  then have "releases sh [5]" using d(3) unfolding releases_def by (auto simp: lru_head_def split: option.split)
  from released_entries_are_freed [OF d(2) this] show ?thesis using d(1) by blast
qed

text \<open>
  C5. A reachable shard refines a map from keys with their hashes to values. A lookup returns the value
  of the map and leaves the map alone; an erasure removes the key; an insertion that is accepted
  removes the keys of the evicted entries and then sets the key, reporting whether it was there, and
  one that is refused removes the evicted keys only. This holds through every rehash of the table.
\<close>

theorem shard_refines_map:
  assumes "shard_reachable sh" and "lru_order sh = Some L" and "c = entry_charge sh key charge"
    and "client_ok sh (OpLookup key hash)" and "client_ok sh (OpInsert e key hash val helper charge want_handle priority)"
  shows "(\<exists>e' sh'. Shard_Lookup sh key hash = Some (e', sh') \<and> shard_map sh' = shard_map sh
      \<and> (e' = nullptr \<longleftrightarrow> shard_map sh (key, hash) = None) \<and> map_option h_value (sh_heap sh' e') = shard_map sh (key, hash))
    \<and> (\<exists>sh'. Shard_Erase sh key hash = Some sh' \<and> shard_map sh' = (shard_map sh)((key, hash) := None))
    \<and> (\<exists>s e' sh' m. Shard_Insert sh e key hash val helper charge want_handle priority = Some (s, e', sh')
      \<and> m = shard_map sh |` (- entry_id sh ` set (victims sh L c))
      \<and> (if insert_accepted sh L c want_handle
         then shard_map sh' = m((key, hash) \<mapsto> val) \<and> s = (if m (key, hash) = None then Status_OK else Status_OkOverwritten)
         else shard_map sh' = m))"
proof -
  obtain L' A where st': "shard_state sh L' A" using assms(1) by (rule reachable_state)
  then have st: "shard_state sh L A" using state_lru_order(1) [OF st'] assms(2) by simp
  define m where "m = shard_map sh |` (- entry_id sh ` set (victims sh L c))"
  obtain s e' sh' where p: "Shard_Insert sh e key hash val helper charge want_handle priority = Some (s, e', sh')"
      "shard_map sh' = (if insert_accepted sh L c want_handle then m((key, hash) \<mapsto> val) else m)"
      "s = (if insert_accepted sh L c want_handle then if m (key, hash) = None then Status_OK else Status_OkOverwritten
       else if want_handle then Status_MemoryLimit_msg ''Insert failed due to LRU cache being full.'' else Status_OK)"
    using Insert_policy [OF st assms(5,3) refl] unfolding m_def by blast
  have "\<exists>s e' sh' m. Shard_Insert sh e key hash val helper charge want_handle priority = Some (s, e', sh')
      \<and> m = shard_map sh |` (- entry_id sh ` set (victims sh L c))
      \<and> (if insert_accepted sh L c want_handle
         then shard_map sh' = m((key, hash) \<mapsto> val) \<and> s = (if m (key, hash) = None then Status_OK else Status_OkOverwritten)
         else shard_map sh' = m)"
    by (rule exI [of _ s], rule exI [of _ e'], rule exI [of _ sh'], rule exI [of _ m]) (use p m_def in simp)
  with Lookup_map [OF st assms(4)] Erase_map [OF st] show ?thesis by blast
qed

theorem shard_refines_map_witness:
  "\<exists>sh sh' e'. demo False = Some sh \<and> Shard_Lookup sh [1] 7 = Some (e', sh') \<and> shard_map sh ([1], 7) = Some 9
    \<and> map_option h_value (sh_heap sh' e') = Some 9"
proof -
  obtain sh where d: "demo False = Some sh" "shard_reachable sh" using demo_reachable by blast
  have "map_option (\<lambda>sh. (lru_order sh, client_ok sh (OpLookup [1] 7), shard_map sh ([1], 7), sh_usage sh, Option.is_none (sh_heap sh 6),
      sh_metadata_charge_policy sh = kFullChargeCacheMetadata, tb_elems (sh_table sh))) (demo False)
    = Some (Some [5], True, Some 9, 60, True, False, 1)" by code_simp
  then have f: "lru_order sh = Some [5]" "client_ok sh (OpLookup [1] 7)" "shard_map sh ([1], 7) = Some 9" "sh_usage sh = 60"
      "sh_heap sh 6 = None" "sh_metadata_charge_policy sh \<noteq> kFullChargeCacheMetadata" "tb_elems (sh_table sh) = 1"
    using d(1) by (simp_all add: Option.is_none_def)
  have "client_ok sh (OpInsert 6 [1] 7 8 demo_helper 60 False LOW)"
    using f by (simp add: may_allocate_def fresh_entry_def entry_charge_def demo_helper_def IsSecondaryCacheCompatible_def)
  from shard_refines_map [OF d(2) f(1) refl f(2) this] show ?thesis using d(1) f(3) by auto
qed

text \<open>
  C6. An insertion evicts in strict LRU order: the evicted entries are the shortest prefix of the LRU
  list, oldest first, whose removal makes room for the new charge, or the whole list; their memory is
  freed after the eviction callback and the deleters have been called for them in that order; entries
  that somebody references keep their value, key, charge and reference count even when they are
  replaced in the table. With the strict limit a usage within the capacity stays within it, and an insertion that
  asks for a handle fails with a memory limit error exactly when the charge does not fit.
\<close>

theorem insert_evicts_in_lru_order:
  assumes "shard_reachable sh" and "lru_order sh = Some L" and "c = entry_charge sh key charge"
    and "client_ok sh (OpInsert e key hash val helper charge want_handle priority)"
  shows "\<exists>s e' sh' ds R cs. Shard_Insert sh e key hash val helper charge want_handle priority = Some (s, e', sh')
    \<and> L = ds @ R \<and> (R \<noteq> [] \<longrightarrow> unat (sh_usage sh) - charges (sh_heap sh) ds + unat c \<le> unat (sh_capacity sh))
    \<and> (\<forall>us x vs. ds = us @ x # vs \<longrightarrow> unat (sh_capacity sh) < unat (sh_usage sh) - charges (sh_heap sh) us + unat c)
    \<and> (\<forall>a \<in> set ds. sh_heap sh' a = None) \<and> sh_calls sh' = sh_calls sh @ evictions sh ds @ cs
    \<and> (\<forall>a h. sh_heap sh a = Some h \<and> held sh a \<longrightarrow>
        (\<exists>h'. sh_heap sh' a = Some h' \<and> h_refs h' = h_refs h \<and> same_entry h h'))
    \<and> (sh_strict_capacity_limit sh \<and> Shard_GetUsage sh \<le> sh_capacity sh \<longrightarrow> Shard_GetUsage sh' \<le> sh_capacity sh)
    \<and> (sh_strict_capacity_limit sh \<and> want_handle \<longrightarrow>
        (e' = nullptr \<longleftrightarrow> unat (sh_capacity sh) < unat (sh_usage sh) - charges (sh_heap sh) ds + unat c)
        \<and> (e' = nullptr \<longleftrightarrow> s = Status_MemoryLimit_msg ''Insert failed due to LRU cache being full.''))"
proof -
  obtain L' A where st': "shard_state sh L' A" using assms(1) by (rule reachable_state)
  then have st: "shard_state sh L A" using state_lru_order(1) [OF st'] assms(2) by simp
  define ds where "ds = victims sh L c"
  obtain R where R: "L = ds @ R" "R \<noteq> [] \<longrightarrow> charge_fits sh L c"
      "\<forall>us x vs. ds = us @ x # vs \<longrightarrow> unat (sh_capacity sh) < unat (sh_usage sh) - charges (sh_heap sh) us + unat c"
    using victims_spec [OF st, of c] unfolding ds_def by blast
  obtain s e' sh' cs where p: "Shard_Insert sh e key hash val helper charge want_handle priority = Some (s, e', sh')"
      "sh_calls sh' = sh_calls sh @ evictions sh ds @ cs" "\<forall>a \<in> set ds. sh_heap sh' a = None"
      "\<forall>a h. sh_heap sh a = Some h \<longrightarrow> held sh a \<longrightarrow> (\<exists>h'. sh_heap sh' a = Some h' \<and> h_refs h' = h_refs h \<and> same_entry h h')"
      "unat (sh_usage sh') \<le> unat (sh_usage sh) - charges (sh_heap sh) ds + (if insert_accepted sh L c want_handle then unat c else 0)"
      "s = (if insert_accepted sh L c want_handle then if (shard_map sh |` (- entry_id sh ` set ds)) (key, hash) = None then Status_OK else Status_OkOverwritten
       else if want_handle then Status_MemoryLimit_msg ''Insert failed due to LRU cache being full.'' else Status_OK)"
      "e' = (if insert_accepted sh L c want_handle \<and> want_handle then e else nullptr)"
    using Insert_policy [OF st assms(4,3) ds_def] by blast
  have e0: "e \<noteq> nullptr" using assms(4) by (simp add: may_allocate_def fresh_entry_def)
  have F: "charge_fits sh L c \<longleftrightarrow> unat (sh_usage sh) - charges (sh_heap sh) ds + unat c \<le> unat (sh_capacity sh)"
    by (simp add: charge_fits_def ds_def)
  have st_ne: "Status_OK \<noteq> Status_MemoryLimit_msg m" "Status_OkOverwritten \<noteq> Status_MemoryLimit_msg m" for m
    by (simp_all add: Status_OK_def Status_OkOverwritten_def Status_MemoryLimit_msg_def Status_sub_def Status_msg_def)
  have "Shard_GetUsage sh' \<le> sh_capacity sh" if "sh_strict_capacity_limit sh" "Shard_GetUsage sh \<le> sh_capacity sh"
    using that p(5) F by (auto simp: Shard_GetUsage_def insert_accepted_def word_le_nat_alt split: if_splits)
  moreover have "(e' = nullptr \<longleftrightarrow> unat (sh_capacity sh) < unat (sh_usage sh) - charges (sh_heap sh) ds + unat c)
      \<and> (e' = nullptr \<longleftrightarrow> s = Status_MemoryLimit_msg ''Insert failed due to LRU cache being full.'')"
    if "sh_strict_capacity_limit sh" "want_handle"
    using that p(6,7) F e0 st_ne by (auto simp: insert_accepted_def not_le)
  ultimately show ?thesis using p(1-4) R F
    by - (rule exI [of _ s], rule exI [of _ e'], rule exI [of _ sh'], rule exI [of _ ds], rule exI [of _ R], rule exI [of _ cs], blast)
qed

theorem insert_evicts_in_lru_order_witness:
  "\<exists>sh s e' sh'. demo False = Some sh \<and> Shard_Insert sh 6 [2] 7 8 demo_helper 60 True LOW = Some (s, e', sh')
    \<and> sh_heap sh' 5 = None \<and> e' \<noteq> nullptr"
proof -
  obtain sh where d: "demo False = Some sh" "shard_reachable sh" using demo_reachable by blast
  have "map_option (\<lambda>sh. (lru_order sh, sh_usage sh, Option.is_none (sh_heap sh 6), sh_strict_capacity_limit sh, sh_capacity sh,
      sh_metadata_charge_policy sh = kFullChargeCacheMetadata, tb_elems (sh_table sh), map_option h_total_charge (sh_heap sh 5))) (demo False)
    = Some (Some [5], 60, True, True, 100, False, 1, Some 60)" by code_simp
  then have f: "lru_order sh = Some [5]" "sh_usage sh = 60" "sh_heap sh 6 = None" "sh_strict_capacity_limit sh" "sh_capacity sh = 100"
      "sh_metadata_charge_policy sh \<noteq> kFullChargeCacheMetadata" "tb_elems (sh_table sh) = 1" "map_option h_total_charge (sh_heap sh 5) = Some 60"
    using d(1) by (simp_all add: Option.is_none_def)
  have c: "entry_charge sh [2] 60 = 60" using f(6) by (simp add: entry_charge_def)
  have "client_ok sh (OpInsert 6 [2] 7 8 demo_helper 60 True LOW)"
    using f c by (simp add: may_allocate_def fresh_entry_def demo_helper_def IsSecondaryCacheCompatible_def)
  note P = insert_evicts_in_lru_order [OF d(2) f(1) c [symmetric] this]
  have ch: "charges (sh_heap sh) [5] = 60" using f(8) by (auto simp: charges_def charge_of_def)
  show ?thesis using P
  proof (elim exE conjE)
    fix s e' sh' ds R cs
    assume i: "Shard_Insert sh 6 [2] 7 8 demo_helper 60 True LOW = Some (s, e', sh')" and L: "[5] = ds @ R"
      and room: "R \<noteq> [] \<longrightarrow> unat (sh_usage sh) - charges (sh_heap sh) ds + unat (60::u64) \<le> unat (sh_capacity sh)"
      and free: "\<forall>a \<in> set ds. sh_heap sh' a = None"
      and st: "sh_strict_capacity_limit sh \<and> True \<longrightarrow>
        (e' = nullptr \<longleftrightarrow> unat (sh_capacity sh) < unat (sh_usage sh) - charges (sh_heap sh) ds + unat (60::u64))
        \<and> (e' = nullptr \<longleftrightarrow> s = Status_MemoryLimit_msg ''Insert failed due to LRU cache being full.'')"
    have "ds \<noteq> []" using L room f(2,5) by (auto simp: charges_def)
    then have "ds = [5]" using L by (cases ds) auto
    then show ?thesis using d(1) i free st f ch by auto
  qed
qed

end
