(* ===== verification/Spec2Isabelle.thy ===== *)
theory Spec2Isabelle
  imports Xiao_Slice Xiao_Xxph3 Write_Batch_Props Seqno_Time_Props Wal_Edit Lru_Cache_Props
begin

text \<open>
  A verification development for xiaoDb, a C++ key-value store after the design of RocksDB. The
  sources under \<^verbatim>\<open>src/\<close> are a library in construction: the data path from user operations to the bytes
  of the write-ahead log, the block cache and the metadata of the store have bodies, while most of the
  store itself (column families, versions, tables, files) is declared only. The development models the
  parts that have bodies and whose behaviour is a matter of data rather than of the operating system.

  \<^bold>\<open>The parts and how they interact.\<close> Integers and strings are put into byte strings by the
  coding routines. Internal keys (user key, sequence number, value type) and slices are built on them.
  A write batch is a byte string of records with a header, built by \<^verbatim>\<open>Put\<close>, \<^verbatim>\<open>Delete\<close> and
  their siblings, and read back by \<^verbatim>\<open>Iterate\<close>, which delivers the records to a handler; its optional protection
  entries are the hashes of \<^verbatim>\<open>kv_checksum.h\<close>. The mapping from sequence numbers to times gives the write time
  of a \<^verbatim>\<open>TimedPut\<close> a meaning and shares its value packing with the batch. The WAL edits record in the
  manifest which logs hold the batches. The LRU cache keeps blocks of tables in memory. Every fallible
  operation returns a \<^verbatim>\<open>Status\<close>.

  \<^bold>\<open>Theories and sources.\<close>
  \<^item> \<^verbatim>\<open>Xiao_Prelude\<close>: machine integers as words, byte strings as lists of bytes, the
    little-endian representation, shared lemmas and the collections of simplification rules.
  \<^item> \<^verbatim>\<open>Xiao_Status\<close>: \<^verbatim>\<open>include/xiaodb/status.h\<close>.
  \<^item> \<^verbatim>\<open>Coding\<close>: \<^verbatim>\<open>util/coding_lean.h\<close>, \<^verbatim>\<open>util/coding.h\<close>, \<^verbatim>\<open>util/coding.cc\<close>. The contract of a pair of writer
    and reader is the locale \<^verbatim>\<open>codec\<close>; the multi-byte varint readers, which the sources declare and do not
    define, are described by the locale \<^verbatim>\<open>varint_decoder\<close>, from which the contracts of the varint
    routines follow, and which the base-128 reader is shown to meet.
  \<^item> \<^verbatim>\<open>Xiao_Slice\<close>: \<^verbatim>\<open>include/xiaodb/slice.h\<close>, \<^verbatim>\<open>util/slice.cc\<close>. The contract of a comparator and of a prefix extractor
    (\<^verbatim>\<open>comparator.h\<close>, \<^verbatim>\<open>slice_transform.h\<close>) are the locales \<^verbatim>\<open>key_comparator\<close> and \<^verbatim>\<open>prefix_extractor\<close>,
    interpreted by the bytewise order and the built-in extractors.
  \<^item> \<^verbatim>\<open>Xiao_Math\<close>: \<^verbatim>\<open>util/math.h\<close>, \<^verbatim>\<open>util/fastrange.h\<close>; \<^verbatim>\<open>Xiao_Hash\<close>: \<^verbatim>\<open>util/math128.h\<close>, \<^verbatim>\<open>util/hash.h\<close>, \<^verbatim>\<open>util/hash.cc\<close>. Bit
    manipulation, portable 128-bit integers, the mapping of a hash to a range, the 32-bit hash and the
    bijective hash of pairs.
  \<^item> \<^verbatim>\<open>Xiao_Xxph3\<close>: \<^verbatim>\<open>util/xxph3.h\<close> (the scalar variant) and the 64-bit hashes of \<^verbatim>\<open>util/hash.cc\<close>, with every
    read of one, four or eight bytes checked against the bounds of the input and of the secret.
  \<^item> \<^verbatim>\<open>Db_Format\<close>: \<^verbatim>\<open>db/dbformat.h\<close>, internal keys and their comparator.
  \<^item> \<^verbatim>\<open>Kv_Checksum\<close>: \<^verbatim>\<open>db/kv_checksum.h\<close>, the algebra of protection information.
  \<^item> \<^verbatim>\<open>Write_Batch\<close> (operations that build or edit), \<^verbatim>\<open>Write_Batch_Iter\<close> (reading, \<^verbatim>\<open>Iterate\<close>, content flags,
    checksums), \<^verbatim>\<open>Write_Batch_Spec\<close> (the records a batch stands for and the refinement lemmas) and
    \<^verbatim>\<open>Write_Batch_Props\<close>: \<^verbatim>\<open>db/write_batch.cc\<close>, \<^verbatim>\<open>db/write_batch_internal.h\<close>, \<^verbatim>\<open>include/xiaodb/write_batch.h\<close>.
    The state is the record \<^verbatim>\<open>WriteBatch\<close> with the members of the class.
  \<^item> \<^verbatim>\<open>Seqno_Time\<close>, \<^verbatim>\<open>Seqno_Time_Props\<close>: \<^verbatim>\<open>db/seqno_to_time_mapping.h\<close> and \<^verbatim>\<open>.cc\<close>.
  \<^item> \<^verbatim>\<open>Wal_Edit\<close>: \<^verbatim>\<open>db/wal_edit.h\<close>, \<^verbatim>\<open>db/wal_edit.cc\<close>.
  \<^item> \<^verbatim>\<open>Lru_Handle_Table\<close> (the entries and the chained hash table), \<^verbatim>\<open>Xiao_Double\<close> (the double arithmetic of
    the pool sizes), \<^verbatim>\<open>Lru_Cache\<close> (the shard and its operations), \<^verbatim>\<open>Lru_List\<close>, \<^verbatim>\<open>Lru_Shard\<close>, \<^verbatim>\<open>Lru_Shard_Ops\<close>,
    \<^verbatim>\<open>Lru_Shard_Insert\<close> (the list, the invariant and what each operation does to it) and \<^verbatim>\<open>Lru_Cache_Props\<close>:
    \<^verbatim>\<open>cache/lru_cache.h\<close>, \<^verbatim>\<open>cache/lru_cache.cc\<close>. Entries live at addresses of an explicit heap, since the hash
    chains and the LRU list run through the same objects.

  \<^bold>\<open>What the lemmas show.\<close> Writers and readers of every encoding are inverse to each other, with the
  bounds at which a 32-bit length or size wraps. \<^verbatim>\<open>Iterate\<close> on the bytes of a batch is iteration over the
  records that were put in, for every handler, with corruption for a wrong count, and its assertions hold on what
  the builders make, with two exceptions that are stated; the builders append one record or leave the batch alone;
  rolling back to a save point undoes any sequence of calls; the verification of checksums accepts a batch
  exactly when every entry is the one computed from its record. The internal key order is a total
  preorder for every user comparator that is one. An enforced mapping of sequence numbers to times is sorted by
  sequence number and within its capacity under every sequence of operations whose callers keep the rules of
  \<^verbatim>\<open>stm_reachable\<close>, and sorted by time and within its time span if the history is chronological; the rules
  keep \<^verbatim>\<open>PrePopulate\<close> from adding more pairs than fit, since it does not enforce the limits. The queries of such a
  mapping give the best recorded bound, and pruning and copying keep the answers they promise. A WAL set depends only on the
  set of edits and not on their order. Every sequence of calls that clients may make on an LRU shard
  runs without failed assertion, dangling access or endless loop, keeps the documented states of the
  entries, leaks nothing, implements a map and evicts in LRU order within the capacity. The portable
  128-bit integers are 128-bit words, the 64-bit hash never reads outside its input, the bijective hash has
  the inverse that the code claims, and the downward involution has its documented properties. Where the code
  does not do what it documents, the property states what it does.

  \<^bold>\<open>Conventions.\<close> A \<^verbatim>\<open>uint64_t\<close> is a 64-bit word where wrap-around matters; sizes of strings in
  memory are natural numbers. A failed assertion or an access out of range is the result \<^const>\<open>None\<close> in the
  cache, the 64-bit hash, \<^verbatim>\<open>ParseInternalKey\<close>, \<^verbatim>\<open>EnforceCapacity\<close> (for its searches) and \<^verbatim>\<open>WriteBatchInternal::Append\<close>. The
  assertions of \<^verbatim>\<open>Iterate\<close> are the predicate \<^verbatim>\<open>Iterate_asserts\<close>, and the definitions give the run with assertions
  compiled out; those of \<^verbatim>\<open>PackSequenceAndType\<close> and \<^verbatim>\<open>PrePopulate\<close> are the predicates \<^verbatim>\<open>packable\<close> and
  \<^verbatim>\<open>prepopulate_ok\<close>, which are hypotheses where they matter. Elsewhere (keys long enough for their footer and
  timestamp, packed values of eight bytes, \<^verbatim>\<open>enforced_\<close> before enforcing, the order of appended pairs and of pairs to
  encode, a commit timestamp that is not empty) the definitions give the run with assertions compiled out, on
  which the properties hold without the asserted condition or with it as a hypothesis. Loops over strings and lists are
  structurally recursive or come with a termination proof; the chains and lists of the cache are walked by
  partial functions in the option monad, for which not ending is \<^const>\<open>None\<close>, and the properties show that
  the result is not \<^const>\<open>None\<close>. No definition uses fuel. Code that is not part of the sources is a
  parameter: the user comparator, the multi-byte varint readers, the wide column serialization,
  file sizes on disk and the address that \<^verbatim>\<open>malloc\<close> returns. The hash of the protection information and the
  checksum of whole batches are parameters as well, since the properties of those components hold for every
  function; the property of this theory instantiates the former with the hash that the store uses.

  \<^bold>\<open>Not modelled.\<close> Headers that only declare interfaces (\<^verbatim>\<open>include/xiaodb/\<close> apart from the files above,
  and most of \<^verbatim>\<open>db/\<close>, \<^verbatim>\<open>table/\<close>, \<^verbatim>\<open>file/\<close>, \<^verbatim>\<open>env/\<close>, \<^verbatim>\<open>trace_replay/\<close>): they have no behaviour to translate. Code that
  wraps the operating system, threads and locks (\<^verbatim>\<open>port/\<close>, \<^verbatim>\<open>util/thread_local.cc\<close>, \<^verbatim>\<open>util/mutexlock.h\<close>,
  \<^verbatim>\<open>monitoring/\<close>, \<^verbatim>\<open>logging/\<close>): the modelled classes hold their mutex for the length of an operation, so that a
  sequence of operations is the order in which the lock is taken. The parsing of options and the
  object registry (\<^verbatim>\<open>options/\<close>, \<^verbatim>\<open>utilities/\<close>) work on tables of function objects and type-erased
  addresses. Vendored hash and compression code (\<^verbatim>\<open>util/xxhash.h\<close>, \<^verbatim>\<open>util/compression.h\<close>,
  \<^verbatim>\<open>util/crc32c.cc\<close>): no property depends on which function it computes.
\<close>

section \<open>The protection information with the hash of the store\<close>

text \<open>
  C22. With the hash that the store uses, the protection information of an entry detects every change of
  its operation type, its column family id or its sequence number, whatever the sizes of key and value, and
  every change of a key or of a value of at most eight bytes that keeps its size. The status of the stripped
  information is OK exactly when the field is unchanged.
\<close>

theorem entry_changes_detected:
  fixes garbage k v :: bytes and t :: ValueType and c :: ColumnFamilyId and s :: SequenceNumber
  assumes "length garbage = 192"
  shows "let H = hash64_of garbage;
      kvo = ProtectKVO H (ProtectionInfo 0) k v t;
      kvoc = ProtectC H kvo c;
      kvos = ProtectS H kvo s
    in (ok (GetStatus (StripKVO H (StripC H kvoc c) k v t')) \<longleftrightarrow> t' = t) \<and>
       (ok (GetStatus (StripKVO H (StripC H kvoc c') k v t)) \<longleftrightarrow> c' = c) \<and>
       (ok (GetStatus (StripKVO H (StripS H kvos s') k v t)) \<longleftrightarrow> s' = s) \<and>
       (length k' = length k \<and> length k \<le> 8 \<longrightarrow>
         (ok (GetStatus (StripKVO H (StripC H kvoc c) k' v t)) \<longleftrightarrow> k' = k)) \<and>
       (length v' = length v \<and> length v \<le> 8 \<longrightarrow>
         (ok (GetStatus (StripKVO H (StripC H kvoc c) k v' t)) \<longleftrightarrow> v' = v))"
proof -
  define H where "H = hash64_of garbage"
  have inj: "H x seed = H y seed \<longleftrightarrow> y = x" if "length x = length y" "length y \<le> 8" for x y seed
    using hash64_of_inj [OF assms that(1)] that by (auto simp: H_def)
  have num: "le_bytes 4 c' = le_bytes 4 c \<longleftrightarrow> c' = c" "le_bytes 8 s' = le_bytes 8 s \<longleftrightarrow> s' = s"
    by (auto dest: le_bytes_inj)
  show ?thesis
    unfolding H_def [symmetric] Let_def
    using inj [of k k' kSeedK] inj [of v v' kSeedV] inj [of "[t]" "[t']" kSeedO]
      inj [of "le_bytes 4 c" "le_bytes 4 c'" kSeedC] inj [of "le_bytes 8 s" "le_bytes 8 s'" kSeedS]
    by (simp add: kv_checksum_defs GetStatus_def ac_simps xor_eq_0 num)
qed

theorem entry_changes_detected_witness:
  "length (replicate 192 (0 :: byte)) = 192 \<and>
   \<not> ok (GetStatus (StripKVO (hash64_of (replicate 192 0))
      (StripC (hash64_of (replicate 192 0))
        (ProtectC (hash64_of (replicate 192 0))
          (ProtectKVO (hash64_of (replicate 192 0)) (ProtectionInfo 0) [1, 2, 3] [4] kTypeValue) 7) 7)
      [1, 2, 9] [4] kTypeValue))"
  using entry_changes_detected [of "replicate 192 0" "[1, 2, 3]" "[4]" kTypeValue 7 0 kTypeValue 7 0 "[1, 2, 9]" "[4]"]
  by (simp add: Let_def)

end
